(* ===== verification/GoStrings.thy ===== *)
theory GoStrings
  imports Prelude
begin

text \<open>
  The parts of Go's standard library the program uses on text: packages \<open>strings\<close>,
  \<open>strconv\<close>, \<open>bufio\<close>, \<open>path\<close> and \<open>path/filepath\<close> (on Unix). A Go string is a sequence of bytes, which
  is what the type \<^typ>\<open>string\<close> is.
\<close>

section \<open>Package strings\<close>

text \<open>\<open>strings.Cut(s, sep)\<close> for a one-byte separator: before, after, found.\<close>

fun cut :: "char \<Rightarrow> string \<Rightarrow> string \<times> string \<times> bool" where
  "cut c [] = ([], [], False)"
| "cut c (x # xs) =
     (if x = c then ([], xs, True)
      else let (a, b, ok) = cut c xs in (x # a, b, ok))"

text \<open>\<open>strings.Split(s, sep)\<close> for a one-byte separator: never empty.\<close>

fun split_on :: "char \<Rightarrow> string \<Rightarrow> string list" where
  "split_on c [] = [[]]"
| "split_on c (x # xs) =
     (if x = c then [] # split_on c xs
      else case split_on c xs of [] \<Rightarrow> [[x]] | y # ys \<Rightarrow> (x # y) # ys)"

text \<open>\<open>strings.Join(elems, sep)\<close>.\<close>

fun join_with :: "string \<Rightarrow> string list \<Rightarrow> string" where
  "join_with sep [] = []"
| "join_with sep [x] = x"
| "join_with sep (x # y # ys) = x @ sep @ join_with sep (y # ys)"

definition has_prefix :: "string \<Rightarrow> string \<Rightarrow> bool" where
  "has_prefix s p \<longleftrightarrow> take (length p) s = p"

definition trim_prefix :: "string \<Rightarrow> string \<Rightarrow> string" where
  "trim_prefix s p = (if has_prefix s p then drop (length p) s else s)"

definition contains_char :: "string \<Rightarrow> char \<Rightarrow> bool" where
  "contains_char s c \<longleftrightarrow> c \<in> set s"

text \<open>
  White space as \<open>unicode.IsSpace\<close> sees it in a UTF-8 string: the number of bytes of the white
  space rune a string starts with, 0 if it starts with none. Lead bytes of the multi-byte
  ones (C2, E1, E2, E3) never occur inside another rune, so looking at each byte position is
  the same as decoding runes.
\<close>

definition wide_spaces :: "string list" where
  "wide_spaces =
     [[CHR 0xC2, CHR 0x85], [CHR 0xC2, CHR 0xA0], [CHR 0xE1, CHR 0x9A, CHR 0x80]] @
     map (\<lambda>n. [CHR 0xE2, CHR 0x80, char_of n]) [0x80 ..< 0x8B :: nat] @
     [[CHR 0xE2, CHR 0x80, CHR 0xA8], [CHR 0xE2, CHR 0x80, CHR 0xA9],
      [CHR 0xE2, CHR 0x80, CHR 0xAF], [CHR 0xE2, CHR 0x81, CHR 0x9F],
      [CHR 0xE3, CHR 0x80, CHR 0x80]]"

definition ascii_space :: "char \<Rightarrow> bool" where
  "ascii_space c \<longleftrightarrow>
     c \<in> {CHR 0x20, CHR 0x09, CHR 0x0A, CHR 0x0B, CHR 0x0C, CHR 0x0D}"

definition space_len :: "string \<Rightarrow> nat" where
  "space_len s =
     (case s of
        [] \<Rightarrow> 0
      | c # _ \<Rightarrow>
          if ascii_space c then 1
          else case find (has_prefix s) wide_spaces of None \<Rightarrow> 0 | Some w \<Rightarrow> length w)"

lemma space_len_Nil [simp]: "space_len [] = 0"
  by (simp add: space_len_def)

text \<open>\<open>strings.Fields\<close>: the maximal runs of non-space bytes; \<open>cur\<close> is the run being read.\<close>

function fields_from :: "string \<Rightarrow> string \<Rightarrow> string list" where
  "fields_from cur [] = (if cur = [] then [] else [cur])"
| "fields_from cur (c # s) =
     (if space_len (c # s) = 0 then fields_from (cur @ [c]) s
      else (if cur = [] then [] else [cur]) @ fields_from [] (drop (space_len (c # s)) (c # s)))"
  by pat_completeness auto
termination
  by (relation "measure (\<lambda>(cur, s). length s)") auto

definition fields :: "string \<Rightarrow> string list" where
  "fields s = fields_from [] s"

text \<open>\<open>strings.TrimSpace\<close>: white space runes removed from the front, then from the back.\<close>

function trim_left_space :: "string \<Rightarrow> string" where
  "trim_left_space s = (if space_len s = 0 then s else trim_left_space (drop (space_len s) s))"
  by pat_completeness auto
termination
  by (relation "measure length") (auto simp: space_len_def split: list.splits)

declare trim_left_space.simps [simp del]

definition has_suffix :: "string \<Rightarrow> string \<Rightarrow> bool" where
  "has_suffix s p \<longleftrightarrow> has_prefix (rev s) (rev p)"

definition space_len_end :: "string \<Rightarrow> nat" where
  "space_len_end s =
     (if s = [] then 0
      else if ascii_space (last s) then 1
      else case find (has_suffix s) wide_spaces of None \<Rightarrow> 0 | Some w \<Rightarrow> length w)"

function trim_right_space :: "string \<Rightarrow> string" where
  "trim_right_space s =
     (if space_len_end s = 0 then s
      else trim_right_space (take (length s - space_len_end s) s))"
  by pat_completeness auto
termination
  by (relation "measure length") (auto simp: space_len_end_def split: if_splits)

declare trim_right_space.simps [simp del]

definition trim_space :: "string \<Rightarrow> string" where
  "trim_space s = trim_right_space (trim_left_space s)"

text \<open>
  \<open>strings.ToLower\<close> on the bytes of ASCII letters. Other runes keep their bytes here; the only
  caller compares the result with ASCII words none of whose letters is the lower case of a
  rune outside ASCII.
\<close>

definition to_lower :: "string \<Rightarrow> string" where
  "to_lower s =
     map (\<lambda>c. if CHR ''A'' \<le> c \<and> c \<le> CHR ''Z'' then char_of (of_char c + 32 :: nat) else c) s"

section \<open>Package strconv\<close>

datatype num_error = ErrSyntax | ErrRange

definition digit_val :: "char \<Rightarrow> nat option" where
  "digit_val c =
     (let n = (of_char c :: nat) in
      if 48 \<le> n \<and> n \<le> 57 then Some (n - 48)
      else if 97 \<le> n \<and> n \<le> 122 then Some (n - 87)
      else if 65 \<le> n \<and> n \<le> 90 then Some (n - 55)
      else None)"

text \<open>
  The loop of \<open>strconv.ParseUint\<close> for a base other than 0 and a bit size of at most 32, from
  the accumulated value \<open>n\<close>: the check against the largest value comes after each digit.
\<close>

fun parse_uint_loop :: "nat \<Rightarrow> nat \<Rightarrow> nat \<Rightarrow> string \<Rightarrow> (num_error, nat) result" where
  "parse_uint_loop base mx n [] = Inr n"
| "parse_uint_loop base mx n (c # cs) =
     (case digit_val c of
        None \<Rightarrow> Inl ErrSyntax
      | Some d \<Rightarrow>
          if base \<le> d then Inl ErrSyntax
          else if mx < n * base + d then Inl ErrRange
          else parse_uint_loop base mx (n * base + d) cs)"

definition parse_uint :: "string \<Rightarrow> nat \<Rightarrow> nat \<Rightarrow> (num_error, nat) result" where
  "parse_uint s base bits =
     (if s = [] then Inl ErrSyntax else parse_uint_loop base (2 ^ bits - 1) 0 s)"

definition digit_char :: "nat \<Rightarrow> char" where
  "digit_char d = char_of (if d < 10 then 48 + d else 87 + d)"

text \<open>\<open>strconv.Itoa\<close> and \<open>%d\<close> on a number that is not negative; base 16 prints hex.\<close>

fun format_nat :: "nat \<Rightarrow> nat \<Rightarrow> string" where
  "format_nat base n =
     (if base \<le> 1 \<or> n < base then [digit_char n]
      else format_nat base (n div base) @ [digit_char (n mod base)])"

declare format_nat.simps [simp del]

abbreviation itoa :: "nat \<Rightarrow> string" where
  "itoa \<equiv> format_nat 10"

section \<open>Packages path and path/filepath\<close>

text \<open>
  \<open>path.Clean\<close> on the elements between slashes: empty elements and \<open>.\<close> go, \<open>..\<close> removes the
  element before it, or is dropped at the root, or stays at the front of a relative path.
  The accumulator holds the kept elements, last first.
\<close>

fun clean_elems :: "bool \<Rightarrow> string list \<Rightarrow> string list \<Rightarrow> string list" where
  "clean_elems rooted acc [] = rev acc"
| "clean_elems rooted acc (e # es) =
     (if e = [] \<or> e = ''.'' then clean_elems rooted acc es
      else if e = ''..'' then
        (case acc of
           [] \<Rightarrow> if rooted then clean_elems rooted [] es else clean_elems rooted [''..''] es
         | a # as \<Rightarrow> if a = ''..'' then clean_elems rooted (''..'' # acc) es
                     else clean_elems rooted as es)
      else clean_elems rooted (e # acc) es)"

definition path_clean :: "string \<Rightarrow> string" where
  "path_clean s =
     (let rooted = has_prefix s ''/'';
          es = clean_elems rooted [] (split_on CHR ''/'' s)
      in if rooted then CHR ''/'' # join_with ''/'' es
         else if es = [] then ''.'' else join_with ''/'' es)"

text \<open>\<open>path.Join\<close> and \<open>filepath.Join\<close>: empty leading elements are ignored.\<close>

definition path_join :: "string list \<Rightarrow> string" where
  "path_join es =
     (case dropWhile (\<lambda>e. e = []) es of
        [] \<Rightarrow> []
      | es' \<Rightarrow> path_clean (join_with ''/'' es'))"

text \<open>The text up to and including the last slash, and the text after it (\<open>path.Split\<close>).\<close>

definition after_slash :: "string \<Rightarrow> string" where
  "after_slash s = rev (takeWhile (\<lambda>c. c \<noteq> CHR ''/'') (rev s))"

definition upto_slash :: "string \<Rightarrow> string" where
  "upto_slash s = rev (dropWhile (\<lambda>c. c \<noteq> CHR ''/'') (rev s))"

definition path_dir :: "string \<Rightarrow> string" where
  "path_dir s = path_clean (upto_slash s)"

definition path_base :: "string \<Rightarrow> string" where
  "path_base s =
     (if s = [] then ''.''
      else let t = rev (dropWhile (\<lambda>c. c = CHR ''/'') (rev s));
               b = after_slash t
           in if b = [] then ''/'' else b)"

lemmas path_defs [go_defs] = path_clean_def path_join_def path_dir_def path_base_def
  after_slash_def upto_slash_def has_prefix_def trim_prefix_def

section \<open>Package bufio\<close>

text \<open>
  \<open>bufio.Scanner\<close> with its default split function and buffer: lines without their end, and
  whether it stopped at a line of 64 KiB or more.
\<close>

definition newline :: char where "newline = CHR 0x0A"
definition carriage_return :: char where "carriage_return = CHR 0x0D"

definition drop_cr :: "string \<Rightarrow> string" where
  "drop_cr s = (if s \<noteq> [] \<and> last s = carriage_return then butlast s else s)"

definition scan_lines :: "string \<Rightarrow> string list \<times> bool" where
  "scan_lines s =
     (let ls = split_on newline s;
          ls1 = (if last ls = [] then butlast ls else ls);
          good = takeWhile (\<lambda>l. length l < 65536) ls1
      in (map drop_cr good, length good < length ls1))"

section \<open>Facts\<close>

subsection \<open>Cutting, splitting and joining\<close>

lemma cut_found [simp]: "c \<notin> set a \<Longrightarrow> cut c (a @ c # b) = (a, b, True)"
  by (induction a) auto

lemma cut_missing [simp]: "c \<notin> set a \<Longrightarrow> cut c a = (a, [], False)"
  by (induction a) auto

lemma cut_parts:
  "cut c s = (a, b, ok) \<Longrightarrow> c \<notin> set a \<and> s = (if ok then a @ c # b else a) \<and> (ok \<or> b = [])"
  by (induction s arbitrary: a b ok) (auto split: if_splits prod.splits)

lemma cut_ok_iff: "snd (snd (cut c s)) \<longleftrightarrow> c \<in> set s"
  by (induction s) (auto split: prod.splits)

lemma split_on_not_Nil [simp]: "split_on c s \<noteq> []"
  by (induction s) (auto split: list.splits)

lemma join_split_on: "join_with [c] (split_on c s) = s"
proof (induction s)
  case (Cons x xs)
  obtain y ys where ys: "split_on c xs = y # ys"
    by (cases "split_on c xs") auto
  from Cons ys show ?case by (cases ys) auto
qed simp

lemma split_on_no_sep: "e \<in> set (split_on c s) \<Longrightarrow> c \<notin> set e"
  by (induction s arbitrary: e) (auto split: if_splits list.splits)

lemma split_on_notin [simp]: "c \<notin> set s \<Longrightarrow> split_on c s = [s]"
  by (induction s) auto

lemma split_on_append: "c \<notin> set a \<Longrightarrow> split_on c (a @ c # b) = a # split_on c b"
  by (induction a) auto

lemma split_on_join:
  "xs \<noteq> [] \<Longrightarrow> \<forall>x \<in> set xs. c \<notin> set x \<Longrightarrow> split_on c (join_with [c] xs) = xs"
  by (induction xs rule: induct_list012) (auto simp: split_on_append)

lemma set_join_with: "set (join_with s xs) \<subseteq> set s \<union> (\<Union>x \<in> set xs. set x)"
  by (induction s xs rule: join_with.induct) auto

subsection \<open>Numbers\<close>

lemma digit_val_char: "d < 36 \<Longrightarrow> digit_val (digit_char d) = Some d"
  by (auto simp: digit_val_def digit_char_def Let_def)

lemma digit_char_inj: "d < 36 \<Longrightarrow> e < 36 \<Longrightarrow> digit_char d = digit_char e \<Longrightarrow> d = e"
  by (metis digit_val_char option.inject)

lemma parse_uint_loop_append:
  "parse_uint_loop base mx n (xs @ ys) =
     (case parse_uint_loop base mx n xs of
        Inl e \<Rightarrow> Inl e | Inr m \<Rightarrow> parse_uint_loop base mx m ys)"
  by (induction xs arbitrary: n) (auto split: option.splits)

lemma format_nat_not_Nil [simp]: "format_nat base n \<noteq> []"
  by (subst format_nat.simps) auto

lemma parse_format_loop:
  assumes b: "2 \<le> base" "base \<le> 36"
  shows "n \<le> mx \<Longrightarrow> parse_uint_loop base mx 0 (format_nat base n) = Inr n"
proof (induction n rule: less_induct)
  case (less n)
  show ?case
  proof (cases "n < base")
    case True
    with b less.prems show ?thesis
      by (simp add: format_nat.simps [of base n] digit_val_char)
  next
    case False
    with b have "n div base < n" by (intro div_less_dividend) auto
    moreover from this less.prems have "n div base \<le> mx" by simp
    ultimately have "parse_uint_loop base mx 0 (format_nat base (n div base)) = Inr (n div base)"
      by (rule less.IH)
    moreover have "\<not> base \<le> n mod base" using b by (simp add: not_le)
    moreover from this b have "digit_val (digit_char (n mod base)) = Some (n mod base)"
      by (intro digit_val_char) linarith
    ultimately show ?thesis
      using False b less.prems
      by (simp add: format_nat.simps [of base n] parse_uint_loop_append)
  qed
qed

lemma parse_format [simp]:
  assumes "2 \<le> base" "base \<le> 36" "n < 2 ^ bits"
  shows "parse_uint (format_nat base n) base bits = Inr n"
proof -
  have "n \<le> 2 ^ bits - 1" using assms(3) by linarith
  from parse_format_loop [OF assms(1,2) this] show ?thesis
    by (simp add: parse_uint_def)
qed

lemma parse_uint_loop_bound:
  "parse_uint_loop base mx n s = Inr m \<Longrightarrow> n \<le> mx \<Longrightarrow> m \<le> mx"
  by (induction s arbitrary: n) (auto split: option.splits if_splits)

lemma parse_uint_bound: "parse_uint s base bits = Inr m \<Longrightarrow> m < 2 ^ bits"
  using parse_uint_loop_bound [of base "2 ^ bits - 1" 0 s m]
  by (auto simp: parse_uint_def le_diff_conv2 less_eq_Suc_le split: if_splits)

lemma format_nat_chars: "2 \<le> base \<Longrightarrow> c \<in> set (format_nat base n) \<Longrightarrow> \<exists>d < base. c = digit_char d"
proof (induction n rule: less_induct)
  case (less n)
  show ?case
  proof (cases "n < base")
    case True
    with less.prems show ?thesis by (auto simp: format_nat.simps [of base n])
  next
    case False
    with less.prems have "n div base < n" by (intro div_less_dividend) auto
    from False less.prems have "c \<in> set (format_nat base (n div base)) \<or> c = digit_char (n mod base)"
      by (auto simp: format_nat.simps [of base n])
    moreover have "n mod base < base" using less.prems by simp
    ultimately show ?thesis
      using less.IH [OF \<open>n div base < n\<close> less.prems(1)] by blast
  qed
qed

lemma itoa_chars:
  assumes "c \<in> set (itoa n)"
  shows "48 \<le> (of_char c :: nat) \<and> (of_char c :: nat) \<le> 57"
proof -
  from format_nat_chars [OF _ assms] obtain d where "d < 10" "c = digit_char d" by auto
  then show ?thesis by (simp add: digit_char_def)
qed

lemma itoa_no_sep [simp]:
  "CHR '':'' \<notin> set (itoa n)" "CHR ''.'' \<notin> set (itoa n)"
  "CHR ''/'' \<notin> set (itoa n)" "CHR ''%'' \<notin> set (itoa n)"
  by (auto dest: itoa_chars)

lemma itoa_inj:
  assumes "itoa m = itoa n"
  shows "m = n"
proof -
  have m: "parse_uint_loop 10 (max m n) 0 (itoa m) = Inr m"
    by (rule parse_format_loop) simp_all
  have n: "parse_uint_loop 10 (max m n) 0 (itoa n) = Inr n"
    by (rule parse_format_loop) simp_all
  from m n assms show ?thesis by (metis sum.inject(2))
qed

end
