(* ===== verification/LoTypes.thy ===== *)
theory LoTypes
  imports GoStrings "HOL-Library.Product_Lexorder"
begin

text \<open>
  The data of loopback sharing, \<open>internal/lo/types.go\<close>: address families, protocols, listening
  sockets and the events of a \<open>/watch\<close> response. A range over a Go map visits its keys in any
  order; the functions that range over a map take the order as an argument (\<open>iteration\<close>).
\<close>

section \<open>Stack, Proto, Listen\<close>

type_synonym Stack = string
type_synonym Proto = string

definition V4 :: Stack where "V4 = ''v4''"
definition V6 :: Stack where "V6 = ''v6''"
definition TCP :: Proto where "TCP = ''tcp''"
definition UDP :: Proto where "UDP = ''udp''"

lemmas stack_proto_defs [lo_defs] = V4_def V6_def TCP_def UDP_def

datatype Listen = Listen (l_Stack: Stack) (l_Proto: Proto) (l_Addr: string) (l_Port: uint16)

definition listen_String :: "Listen \<Rightarrow> string" where
  "listen_String l =
     l_Stack l @ ''/'' @ l_Proto l @ ''/'' @ l_Addr l @ '':'' @ itoa (unat (l_Port l))"

text \<open>Sockets are ordered field by field, for sorting them.\<close>

instantiation Listen :: linorder
begin

definition less_eq_Listen :: "Listen \<Rightarrow> Listen \<Rightarrow> bool" where
  "less_eq_Listen a b \<longleftrightarrow>
     (l_Stack a, l_Proto a, l_Addr a, l_Port a) \<le> (l_Stack b, l_Proto b, l_Addr b, l_Port b)"

definition less_Listen :: "Listen \<Rightarrow> Listen \<Rightarrow> bool" where
  "less_Listen a b \<longleftrightarrow> a \<le> b \<and> \<not> b \<le> a"

instance
proof
  fix a b c :: Listen
  show "a < b \<longleftrightarrow> a \<le> b \<and> \<not> b \<le> a" by (rule less_Listen_def)
  show "a \<le> a" by (simp add: less_eq_Listen_def)
  show "a \<le> b \<Longrightarrow> b \<le> c \<Longrightarrow> a \<le> c" unfolding less_eq_Listen_def by (rule order_trans)
  show "a \<le> b \<Longrightarrow> b \<le> a \<Longrightarrow> a = b"
    unfolding less_eq_Listen_def by (drule (1) order_antisym) (auto intro: Listen.expand)
  show "a \<le> b \<or> b \<le> a" unfolding less_eq_Listen_def by (rule linear)
qed

end

text \<open>
  \<open>String\<close> tells sockets apart: the family and protocol have no slash, and the port is what
  follows the last colon.
\<close>

lemma append_sep_inj:
  fixes c :: char
  assumes "a @ c # b = a' @ c # b'" "c \<notin> set a" "c \<notin> set a'"
  shows "a = a'" "b = b'"
  using arg_cong [OF assms(1), of "cut c"] assms(2,3) by simp_all

lemma snoc_colon_inj:
  assumes "a @ CHR '':'' # x = b @ CHR '':'' # y" "CHR '':'' \<notin> set x" "CHR '':'' \<notin> set y"
  shows "a = b" "x = y"
proof -
  have "rev x @ CHR '':'' # rev a = rev y @ CHR '':'' # rev b"
    using arg_cong [OF assms(1), of rev] by simp
  from append_sep_inj [OF this] assms(2,3) show "a = b" "x = y" by simp_all
qed

lemma listen_String_inj:
  assumes "listen_String a = listen_String b"
    and "CHR ''/'' \<notin> set (l_Stack a)" "CHR ''/'' \<notin> set (l_Proto a)"
    and "CHR ''/'' \<notin> set (l_Stack b)" "CHR ''/'' \<notin> set (l_Proto b)"
  shows "a = b"
proof -
  have *: "l_Stack a @ CHR ''/'' # l_Proto a @ CHR ''/'' # l_Addr a @ CHR '':'' # itoa (unat (l_Port a)) =
      l_Stack b @ CHR ''/'' # l_Proto b @ CHR ''/'' # l_Addr b @ CHR '':'' # itoa (unat (l_Port b))"
    using assms(1) by (simp add: listen_String_def)
  note 1 = append_sep_inj [OF * assms(2,4)]
  note 2 = append_sep_inj [OF 1(2) assms(3,5)]
  from snoc_colon_inj [OF 2(2)] have "l_Addr a = l_Addr b" "itoa (unat (l_Port a)) = itoa (unat (l_Port b))"
    by simp_all
  with 1 2 itoa_inj show ?thesis by (metis Listen.expand word_unat_eq_iff)
qed

section \<open>Events\<close>

text \<open>The zero value of \<open>Listen\<close>, which a sync event carries.\<close>

definition zero_Listen :: Listen where
  "zero_Listen = Listen [] [] [] 0"

datatype Event = Event (ev_Op: string) (ev_Listen: Listen)

definition add_event :: "Listen \<Rightarrow> Event" where
  "add_event l = Event ''add'' l"

definition remove_event :: "Listen \<Rightarrow> Event" where
  "remove_event l = Event ''remove'' l"

definition sync_event :: Event where
  "sync_event = Event ''sync'' zero_Listen"

lemmas event_defs [lo_defs] = add_event_def remove_event_def sync_event_def

section \<open>Iteration over maps\<close>

type_synonym 'a iteration = "'a set \<Rightarrow> 'a list"

definition visits :: "'a iteration \<Rightarrow> bool" where
  "visits it \<longleftrightarrow> (\<forall>A. finite A \<longrightarrow> set (it A) = A \<and> distinct (it A))"

lemma visits_sorted: "visits (sorted_list_of_set :: 'a::linorder iteration)"
  by (simp add: visits_def)

lemma visits_set: "visits it \<Longrightarrow> finite A \<Longrightarrow> set (it A) = A"
  and visits_distinct: "visits it \<Longrightarrow> finite A \<Longrightarrow> distinct (it A)"
  by (auto simp: visits_def)

end
