(* ===== verification/LoWatcher.thy ===== *)
theory LoWatcher
  imports LoTypes
begin

text \<open>
  The watcher, \<open>internal/lo/watcher.go\<close>: the set of sockets last seen, the reference counts of the
  sockets proxied for peers, and the subscribers with their buffered channels. Every method holds
  the watcher's mutex, so each is one step. A channel lives on after it is closed, until its
  reader has drained it; channels are kept in a table and named by number.
\<close>

section \<open>State\<close>

record chan =
  c_buf :: "Event list"
  c_closed :: bool

record Watcher =
  w_current :: "Listen set"
  w_excluded :: "Listen \<rightharpoonup> int"
  w_subs :: "nat list"
  w_chans :: "nat \<rightharpoonup> chan"
  w_next :: nat

definition subscriberBuffer :: nat where
  "subscriberBuffer = 256"

definition NewWatcher :: Watcher where
  "NewWatcher = \<lparr>w_current = {}, w_excluded = Map.empty, w_subs = [], w_chans = Map.empty, w_next = 0\<rparr>"

text \<open>Durations are in nanoseconds.\<close>

definition ProcScanFastInterval :: int where "ProcScanFastInterval = 1000000000"
definition ProcScanFastWindow :: int where "ProcScanFastWindow = 60 * 1000000000"
definition ProcScanSlowInterval :: int where "ProcScanSlowInterval = 5 * 1000000000"

definition scanInterval :: "int \<Rightarrow> int" where
  "scanInterval elapsed =
     (if elapsed < ProcScanFastWindow then ProcScanFastInterval else ProcScanSlowInterval)"

section \<open>Publishing\<close>

text \<open>One subscriber: a send that would block closes the channel and drops the subscriber.\<close>

definition publish_one :: "Event \<Rightarrow> nat \<Rightarrow> Watcher \<Rightarrow> Watcher" where
  "publish_one ev c w =
     (case w_chans w c of
        None \<Rightarrow> w
      | Some ch \<Rightarrow>
          if length (c_buf ch) < subscriberBuffer then
            w\<lparr>w_chans := (w_chans w)(c \<mapsto> ch\<lparr>c_buf := c_buf ch @ [ev]\<rparr>)\<rparr>
          else
            w\<lparr>w_chans := (w_chans w)(c \<mapsto> ch\<lparr>c_closed := True\<rparr>), w_subs := removeAll c (w_subs w)\<rparr>)"

definition publish :: "Event \<Rightarrow> Watcher \<Rightarrow> Watcher" where
  "publish ev w = fold (publish_one ev) (w_subs w) w"

section \<open>Excluding\<close>

text \<open>Reading a missing key of a Go map gives zero.\<close>

definition excluded_count :: "Watcher \<Rightarrow> Listen \<Rightarrow> int" where
  "excluded_count w l = (case w_excluded w l of None \<Rightarrow> 0 | Some n \<Rightarrow> n)"

definition Exclude :: "Listen \<Rightarrow> Watcher \<Rightarrow> Watcher" where
  "Exclude l w = w\<lparr>w_excluded := (w_excluded w)(l \<mapsto> excluded_count w l + 1)\<rparr>"

definition Unexclude :: "Listen \<Rightarrow> Watcher \<Rightarrow> Watcher" where
  "Unexclude l w =
     (if excluded_count w l \<le> 1 then w\<lparr>w_excluded := (w_excluded w)(l := None)\<rparr>
      else w\<lparr>w_excluded := (w_excluded w)(l \<mapsto> excluded_count w l - 1)\<rparr>)"

section \<open>Scanning\<close>

text \<open>\<open>raw\<close> is what \<open>scanProcNet\<close> returned; the two iterations are the ranges over \<open>next\<close> and \<open>current\<close>.\<close>

definition scanOnce ::
  "Listen iteration \<Rightarrow> Listen iteration \<Rightarrow> ('e, Listen set) result \<Rightarrow> Watcher \<Rightarrow> Watcher"
where
  "scanOnce it1 it2 raw w =
     (case raw of
        Inl e \<Rightarrow> w
      | Inr ls \<Rightarrow>
          (let nxt = Set.filter (\<lambda>l. \<not> excluded_count w l > 0) ls;
               w1 = fold (\<lambda>l v. if l \<notin> w_current v then publish (Event ''add'' l) v else v) (it1 nxt) w;
               w2 = fold (\<lambda>l v. if l \<notin> nxt then publish (Event ''remove'' l) v else v) (it2 (w_current w1)) w1
           in w2\<lparr>w_current := nxt\<rparr>))"

section \<open>Subscribing\<close>

definition Subscribe :: "Listen iteration \<Rightarrow> Watcher \<Rightarrow> nat \<times> Listen list \<times> Watcher" where
  "Subscribe it w =
     (let snapshot = sort_key listen_String (it (w_current w));
          c = w_next w
      in (c, snapshot,
          w\<lparr>w_chans := (w_chans w)(c \<mapsto> \<lparr>c_buf = [], c_closed = False\<rparr>),
            w_subs := w_subs w @ [c], w_next := Suc c\<rparr>))"

definition cancel_sub :: "nat \<Rightarrow> Watcher \<Rightarrow> Watcher" where
  "cancel_sub c w =
     (if c \<in> set (w_subs w) then
        w\<lparr>w_subs := removeAll c (w_subs w),
          w_chans := (w_chans w)(c := map_option (\<lambda>ch. ch\<lparr>c_closed := True\<rparr>) (w_chans w c))\<rparr>
      else w)"

text \<open>A receive from a subscriber's channel.\<close>

datatype recv = Received Event | RecvClosed | RecvBlocks

definition recv_sub :: "nat \<Rightarrow> Watcher \<Rightarrow> recv \<times> Watcher" where
  "recv_sub c w =
     (case w_chans w c of
        None \<Rightarrow> (RecvBlocks, w)
      | Some ch \<Rightarrow>
          (case c_buf ch of
             ev # evs \<Rightarrow> (Received ev, w\<lparr>w_chans := (w_chans w)(c \<mapsto> ch\<lparr>c_buf := evs\<rparr>)\<rparr>)
           | [] \<Rightarrow> (if c_closed ch then RecvClosed else RecvBlocks, w)))"

section \<open>The loop\<close>

text \<open>
  \<open>Run\<close>: what the select statement of each round yields, a timer tick with the result of the
  scan it triggers or the end of the context. It returns the watcher with the waits requested.
\<close>

datatype 'e round = Tick int "Listen iteration" "Listen iteration" "('e, Listen set) result" | CtxDone int

fun watcher_loop :: "'e round list \<Rightarrow> Watcher \<Rightarrow> int list \<times> Watcher" where
  "watcher_loop [] w = ([], w)"
| "watcher_loop (CtxDone t # rs) w = ([scanInterval t], w)"
| "watcher_loop (Tick t it1 it2 raw # rs) w =
     (let (ts, w') = watcher_loop rs (scanOnce it1 it2 raw w) in (scanInterval t # ts, w'))"

definition watcher_Run ::
  "Listen iteration \<Rightarrow> Listen iteration \<Rightarrow> ('e, Listen set) result \<Rightarrow> 'e round list \<Rightarrow> Watcher \<Rightarrow> int list \<times> Watcher"
where
  "watcher_Run it1 it2 raw rs w = watcher_loop rs (scanOnce it1 it2 raw w)"

section \<open>Reference counting\<close>

text \<open>What the users of \<open>Exclude\<close> and \<open>Unexclude\<close> rely on.\<close>

locale ref_count =
  fixes inc dec :: "'k \<Rightarrow> 's \<Rightarrow> 's" and count :: "'s \<Rightarrow> 'k \<Rightarrow> int" and ok :: "'s \<Rightarrow> bool"
  assumes ok_inc: "ok s \<Longrightarrow> ok (inc k s)"
    and ok_dec: "ok s \<Longrightarrow> ok (dec k s)"
    and count_nonneg: "ok s \<Longrightarrow> 0 \<le> count s k"
    and count_inc: "ok s \<Longrightarrow> count (inc k s) j = count s j + (if j = k then 1 else 0)"
    and count_dec: "ok s \<Longrightarrow> 0 < count s k \<Longrightarrow> count (dec k s) j = count s j - (if j = k then 1 else 0)"
begin

lemma inc_dec: "ok s \<Longrightarrow> count (dec k (inc k s)) j = count s j"
  using count_dec [of "inc k s" k j] count_inc [of s k k] count_inc [of s k j]
    count_nonneg [of s k] ok_inc [of s k] by simp

lemma count_incs: "ok s \<Longrightarrow> ok (fold inc ks s) \<and> count (fold inc ks s) j = count s j + int (count_list ks j)"
  by (induction ks arbitrary: s) (auto simp: ok_inc count_inc)

lemma count_decs:
  "ok s \<Longrightarrow> (\<And>j. int (count_list ks j) \<le> count s j) \<Longrightarrow>
   ok (fold dec ks s) \<and> count (fold dec ks s) j = count s j - int (count_list ks j)"
proof (induction ks arbitrary: s)
  case (Cons k ks)
  from Cons.prems(2) [of k] have pos: "0 < count s k" by simp
  have le: "int (count_list ks j) \<le> count (dec k s) j" for j
    using Cons.prems(2) [of j] count_dec [OF Cons.prems(1) pos, of j] by (auto split: if_splits)
  have "ok (fold dec ks (dec k s)) \<and> count (fold dec ks (dec k s)) j = count (dec k s) j - int (count_list ks j)"
    by (rule Cons.IH [OF ok_dec [OF Cons.prems(1)] le])
  then show ?case using count_dec [OF Cons.prems(1) pos, of j] by (auto split: if_splits)
qed simp

end

definition excluded_ok :: "Watcher \<Rightarrow> bool" where
  "excluded_ok w \<longleftrightarrow> (\<forall>n \<in> ran (w_excluded w). 1 \<le> n)"

lemma excluded_ok_count: "excluded_ok w \<Longrightarrow> 0 \<le> excluded_count w l"
  by (fastforce simp: excluded_ok_def excluded_count_def ran_def split: option.splits)

lemma excluded_okI: "(\<And>l n. w_excluded w l = Some n \<Longrightarrow> 1 \<le> n) \<Longrightarrow> excluded_ok w"
  by (auto simp: excluded_ok_def ran_def)

lemma excluded_okD: "excluded_ok w \<Longrightarrow> w_excluded w l = Some n \<Longrightarrow> 1 \<le> n"
  by (auto simp: excluded_ok_def ran_def)

interpretation excl: ref_count Exclude Unexclude excluded_count excluded_ok
proof unfold_locales
  fix w :: Watcher and k j :: Listen
  assume ok: "excluded_ok w"
  show "0 \<le> excluded_count w k" by (rule excluded_ok_count [OF ok])
  have nn: "0 \<le> excluded_count w k" by (rule excluded_ok_count [OF ok])
  show "excluded_ok (Exclude k w)"
    by (rule excluded_okI) (use nn excluded_okD [OF ok] in \<open>auto simp: Exclude_def split: if_splits\<close>)
  show "excluded_ok (Unexclude k w)"
    by (rule excluded_okI) (use excluded_okD [OF ok] in \<open>auto simp: Unexclude_def split: if_splits\<close>)
  show "excluded_count (Exclude k w) j = excluded_count w j + (if j = k then 1 else 0)"
    by (simp add: Exclude_def excluded_count_def)
  assume "0 < excluded_count w k"
  then show "excluded_count (Unexclude k w) j = excluded_count w j - (if j = k then 1 else 0)"
    by (auto simp: Unexclude_def excluded_count_def split: option.splits)
qed

section \<open>What publishing does\<close>

definition live :: "Watcher \<Rightarrow> nat \<Rightarrow> bool" where
  "live w c \<longleftrightarrow>
     (case w_chans w c of
        None \<Rightarrow> False
      | Some ch \<Rightarrow> \<not> c_closed ch \<and> length (c_buf ch) \<le> subscriberBuffer)"

text \<open>Well-formed watchers: every subscriber has an open channel; all channels were made by it.\<close>

definition wf_watcher :: "Watcher \<Rightarrow> bool" where
  "wf_watcher w \<longleftrightarrow>
     finite (w_current w) \<and> distinct (w_subs w) \<and> (\<forall>c \<in> set (w_subs w). live w c) \<and>
     (\<forall>c. w_chans w c \<noteq> None \<longrightarrow> c < w_next w)"

definition push :: "Event \<Rightarrow> chan \<Rightarrow> chan" where
  "push ev ch = (if length (c_buf ch) < subscriberBuffer then ch\<lparr>c_buf := c_buf ch @ [ev]\<rparr> else ch\<lparr>c_closed := True\<rparr>)"

definition has_room :: "Watcher \<Rightarrow> nat \<Rightarrow> nat \<Rightarrow> bool" where
  "has_room w n c \<longleftrightarrow>
     (case w_chans w c of None \<Rightarrow> True | Some ch \<Rightarrow> length (c_buf ch) + n \<le> subscriberBuffer)"

lemma publish_one_simps [simp]:
  "w_current (publish_one ev c w) = w_current w" "w_excluded (publish_one ev c w) = w_excluded w"
  "w_next (publish_one ev c w) = w_next w"
  "w_chans (publish_one ev c w) = (w_chans w)(c := map_option (push ev) (w_chans w c))"
  "w_subs (publish_one ev c w) = (if has_room w 1 c then w_subs w else removeAll c (w_subs w))"
  by (auto simp: publish_one_def push_def has_room_def split: option.splits)

lemma fold_publish_one:
  assumes "distinct cs"
  shows "w_current (fold (publish_one ev) cs w) = w_current w"
    "w_excluded (fold (publish_one ev) cs w) = w_excluded w"
    "w_next (fold (publish_one ev) cs w) = w_next w"
    "w_chans (fold (publish_one ev) cs w) c =
       (if c \<in> set cs then map_option (push ev) (w_chans w c) else w_chans w c)"
    "w_subs (fold (publish_one ev) cs w) = filter (\<lambda>c. c \<in> set cs \<longrightarrow> has_room w 1 c) (w_subs w)"
  using assms
proof (induction cs arbitrary: w)
  case (Cons x xs)
  { case 1 with Cons show ?case by simp }
  { case 2 with Cons show ?case by simp }
  { case 3 with Cons show ?case by simp }
  { case 4 with Cons show ?case by auto }
  { case 5
    have room: "has_room (publish_one ev x w) 1 c = has_room w 1 c" if "c \<in> set xs" for c
      using that 5 by (auto simp: has_room_def)
    have "w_subs (fold (publish_one ev) (x # xs) w) =
        filter (\<lambda>c. c \<in> set xs \<longrightarrow> has_room w 1 c) (w_subs (publish_one ev x w))"
      using Cons.IH(5) [of "publish_one ev x w"] 5 room by (auto intro!: filter_cong)
    then show ?case using 5 by (auto simp: removeAll_filter_not_eq intro!: filter_cong) }
qed simp_all

lemma publish_simps [simp]:
  assumes "wf_watcher w"
  shows "w_current (publish ev w) = w_current w" "w_excluded (publish ev w) = w_excluded w"
    "w_next (publish ev w) = w_next w"
    "w_chans (publish ev w) c = (if c \<in> set (w_subs w) then map_option (push ev) (w_chans w c) else w_chans w c)"
    "w_subs (publish ev w) = filter (has_room w 1) (w_subs w)"
  using assms fold_publish_one [of "w_subs w" ev w] unfolding publish_def wf_watcher_def
  by (auto intro!: filter_cong)

lemma publish_wf: "wf_watcher w \<Longrightarrow> wf_watcher (publish ev w)"
  unfolding wf_watcher_def [of "publish ev w"]
  by (auto simp: wf_watcher_def live_def has_room_def push_def split: option.splits)

text \<open>A channel after several events were published: all of them, or what fitted and closed.\<close>

definition pushed :: "Event list \<Rightarrow> chan \<Rightarrow> chan" where
  "pushed evs ch =
     (if length (c_buf ch) + length evs \<le> subscriberBuffer then ch\<lparr>c_buf := c_buf ch @ evs\<rparr>
      else \<lparr>c_buf = c_buf ch @ take (subscriberBuffer - length (c_buf ch)) evs, c_closed = True\<rparr>)"

lemma publish_all:
  assumes "wf_watcher w"
  shows "wf_watcher (fold publish evs w)"
    "w_current (fold publish evs w) = w_current w"
    "w_excluded (fold publish evs w) = w_excluded w"
    "w_next (fold publish evs w) = w_next w"
    "w_subs (fold publish evs w) = filter (has_room w (length evs)) (w_subs w)"
    "\<forall>c. w_chans (fold publish evs w) c =
       (if c \<in> set (w_subs w) then map_option (pushed evs) (w_chans w c) else w_chans w c)"
  using assms
proof (induction evs rule: rev_induct)
  case Nil
  { case 5 then show ?case by (auto simp: has_room_def wf_watcher_def live_def filter_id_conv split: option.splits) }
  { case 6 then show ?case
      by (auto simp: pushed_def wf_watcher_def live_def dest!: bspec split: option.splits intro!: chan.equality) }
next
  case (snoc ev evs)
  note IH = snoc.IH
  { case 1 with IH(1) publish_wf show ?case by simp }
  { case 2 with IH(1,2) show ?case by simp }
  { case 3 with IH(1,3) show ?case by simp }
  { case 4 with IH(1,4) show ?case by simp }
  { case 5
    have "has_room (fold publish evs w) 1 c \<and> has_room w (length evs) c \<longleftrightarrow> has_room w (length evs + 1) c"
      if "c \<in> set (w_subs w)" for c
      using that IH(6) [OF 5] by (auto simp: has_room_def pushed_def split: option.splits if_splits)
    with IH(1,5) 5 show ?case by (auto intro!: filter_cong) }
  { case 6
    show ?case
    proof
      fix c
      show "w_chans (fold publish (evs @ [ev]) w) c =
        (if c \<in> set (w_subs w) then map_option (pushed (evs @ [ev])) (w_chans w c) else w_chans w c)"
      proof (cases "c \<in> set (w_subs w)")
        case True
        with 6 obtain ch where ch: "w_chans w c = Some ch"
          by (auto simp: wf_watcher_def live_def split: option.splits)
        with True IH(1,5,6) 6 show ?thesis by (auto simp: has_room_def pushed_def push_def)
      qed (use IH(1,5,6) 6 in auto)
    qed }
qed simp_all

section \<open>What a scan does\<close>

definition visible :: "Watcher \<Rightarrow> Listen set \<Rightarrow> Listen set" where
  "visible w ls = {l \<in> ls. excluded_count w l \<le> 0}"

definition scan_events :: "Listen iteration \<Rightarrow> Listen iteration \<Rightarrow> Listen set \<Rightarrow> Listen set \<Rightarrow> Event list" where
  "scan_events it1 it2 cur nxt =
     map add_event (filter (\<lambda>l. l \<notin> cur) (it1 nxt)) @ map remove_event (filter (\<lambda>l. l \<notin> nxt) (it2 cur))"

lemma fold_publish_if:
  "wf_watcher w \<Longrightarrow> (\<And>l v. wf_watcher v \<Longrightarrow> w_current v = w_current w \<Longrightarrow> P l v = Q l) \<Longrightarrow>
   fold (\<lambda>l v. if P l v then publish (f l) v else v) xs w = fold publish (map f (filter Q xs)) w"
proof (induction xs arbitrary: w)
  case (Cons x xs)
  have "P x w = Q x" using Cons.prems by blast
  moreover have "wf_watcher (publish (f x) w)" "w_current (publish (f x) w) = w_current w"
    using Cons.prems(1) publish_wf by simp_all
  ultimately show ?case using Cons by simp
qed simp

lemma scanOnce_publishes:
  assumes "wf_watcher w"
  shows "scanOnce it1 it2 (Inr ls) w =
    (fold publish (scan_events it1 it2 (w_current w) (visible w ls)) w)\<lparr>w_current := visible w ls\<rparr>"
proof -
  let ?nxt = "visible w ls"
  have nxt: "Set.filter (\<lambda>l. \<not> excluded_count w l > 0) ls = ?nxt" by (auto simp: visible_def)
  let ?adds = "map add_event (filter (\<lambda>l. l \<notin> w_current w) (it1 ?nxt))"
  have 1: "fold (\<lambda>l v. if l \<notin> w_current v then publish (Event ''add'' l) v else v) (it1 ?nxt) w = fold publish ?adds w"
    unfolding add_event_def [abs_def] by (rule fold_publish_if [OF assms]) simp
  note pa = publish_all [OF assms, of ?adds]
  have 2: "fold (\<lambda>l v. if l \<notin> ?nxt then publish (Event ''remove'' l) v else v) (it2 (w_current w)) (fold publish ?adds w)
      = fold publish (map remove_event (filter (\<lambda>l. l \<notin> ?nxt) (it2 (w_current w)))) (fold publish ?adds w)"
    unfolding remove_event_def [abs_def] by (rule fold_publish_if [OF pa(1)]) simp
  show ?thesis
    unfolding scanOnce_def sum.case Let_def nxt 1 pa(2) 2 scan_events_def by simp
qed

lemma scanOnce_wf:
  assumes "wf_watcher w" "\<forall>ls. raw = Inr ls \<longrightarrow> finite ls"
  shows "wf_watcher (scanOnce it1 it2 raw w)"
proof (cases raw)
  case (Inr ls)
  note pa = publish_all(1) [OF assms(1), of "scan_events it1 it2 (w_current w) (visible w ls)"]
  have "finite (visible w ls)" using assms(2) Inr by (simp add: visible_def)
  with pa Inr show ?thesis by (simp add: scanOnce_publishes [OF assms(1)] wf_watcher_def live_def)
qed (use assms in \<open>simp add: scanOnce_def\<close>)

section \<open>Replaying events\<close>

definition apply_event :: "Event \<Rightarrow> Listen set \<Rightarrow> Listen set" where
  "apply_event ev S =
     (if ev_Op ev = ''add'' then insert (ev_Listen ev) S
      else if ev_Op ev = ''remove'' then S - {ev_Listen ev} else S)"

definition replay :: "Event list \<Rightarrow> Listen set \<Rightarrow> Listen set" where
  "replay evs S = fold apply_event evs S"

lemma replay_simps [simp]:
  "replay [] S = S" "replay (ev # evs) S = replay evs (apply_event ev S)"
  "replay (xs @ ys) S = replay ys (replay xs S)"
  by (simp_all add: replay_def)

lemma apply_event_simps [simp]:
  "apply_event (add_event l) S = insert l S" "apply_event (remove_event l) S = S - {l}"
  "apply_event sync_event S = S"
  by (simp_all add: apply_event_def event_defs)

lemma replay_adds [simp]: "replay (map add_event ls) S = S \<union> set ls"
  by (induction ls arbitrary: S) auto

lemma replay_removes [simp]: "replay (map remove_event ls) S = S - set ls"
  by (induction ls arbitrary: S) auto

lemma replay_scan:
  assumes "visits it1" "visits it2" "finite cur" "finite nxt"
  shows "replay (scan_events it1 it2 cur nxt) cur = nxt"
  using assms by (auto simp: scan_events_def visits_set)

section \<open>Subscriptions\<close>

lemma Subscribe_wf:
  assumes "wf_watcher w" "Subscribe it w = (c, snap, w')"
  shows "wf_watcher w'" "c \<in> set (w_subs w')" "c \<notin> set (w_subs w)" "w_chans w c = None"
    "w_chans w' c = Some \<lparr>c_buf = [], c_closed = False\<rparr>" "c' \<noteq> c \<Longrightarrow> w_chans w' c' = w_chans w c'"
    "w_current w' = w_current w" "w_subs w' = w_subs w @ [c]" "w_excluded w' = w_excluded w"
    "snap = sort_key listen_String (it (w_current w))"
proof -
  from assms(2) have c: "c = w_next w" and
    w': "w' = w\<lparr>w_chans := (w_chans w)(c \<mapsto> \<lparr>c_buf = [], c_closed = False\<rparr>), w_subs := w_subs w @ [c], w_next := Suc c\<rparr>"
    and snap: "snap = sort_key listen_String (it (w_current w))"
    by (auto simp: Subscribe_def Let_def)
  have new: "w_chans w c = None" using assms(1) c unfolding wf_watcher_def by blast
  have ns: "c \<notin> set (w_subs w)" using assms(1) new unfolding wf_watcher_def live_def by fastforce
  show "wf_watcher w'"
    using assms(1) ns c w' unfolding wf_watcher_def live_def by (auto simp: less_SucI)
  show "w_chans w c = None" "c \<notin> set (w_subs w)" by (fact new ns)+
  show "c \<in> set (w_subs w')" "w_chans w' c = Some \<lparr>c_buf = [], c_closed = False\<rparr>"
    "c' \<noteq> c \<Longrightarrow> w_chans w' c' = w_chans w c'" "w_current w' = w_current w" "w_subs w' = w_subs w @ [c]"
    "w_excluded w' = w_excluded w" "snap = sort_key listen_String (it (w_current w))"
    using w' snap by simp_all
qed

lemma cancel_sub_wf: "wf_watcher w \<Longrightarrow> wf_watcher (cancel_sub c w)"
  by (auto simp: wf_watcher_def live_def cancel_sub_def distinct_removeAll)

lemma cancel_sub_other:
  "c' \<noteq> c \<Longrightarrow> w_chans (cancel_sub c w) c' = w_chans w c'"
  "set (w_subs (cancel_sub c w)) = set (w_subs w) - {c}"
  "w_current (cancel_sub c w) = w_current w" "w_excluded (cancel_sub c w) = w_excluded w"
  by (auto simp: cancel_sub_def)

lemma recv_sub_wf: "wf_watcher w \<Longrightarrow> recv_sub c w = (r, w') \<Longrightarrow> wf_watcher w'"
  by (fastforce simp: wf_watcher_def live_def recv_sub_def split: option.splits list.splits if_splits)

lemma recv_sub_other:
  assumes "recv_sub c w = (r, w')"
  shows "c' \<noteq> c \<Longrightarrow> w_chans w' c' = w_chans w c'" "w_subs w' = w_subs w"
    "w_current w' = w_current w" "w_excluded w' = w_excluded w"
  using assms by (auto simp: recv_sub_def split: option.splits list.splits)

lemma Exclude_other [simp]:
  "w_current (Exclude l w) = w_current w" "w_chans (Exclude l w) = w_chans w"
  "w_subs (Exclude l w) = w_subs w" "w_next (Exclude l w) = w_next w"
  "w_current (Unexclude l w) = w_current w" "w_chans (Unexclude l w) = w_chans w"
  "w_subs (Unexclude l w) = w_subs w" "w_next (Unexclude l w) = w_next w"
  by (simp_all add: Exclude_def Unexclude_def)

lemma Exclude_wf [simp]: "wf_watcher (Exclude l w) = wf_watcher w" "wf_watcher (Unexclude l w) = wf_watcher w"
  by (simp_all add: wf_watcher_def live_def)

section \<open>Properties\<close>

lemma scan_events_exact:
  assumes "visits it1" "visits it2" "finite cur" "finite nxt"
  shows "distinct (scan_events it1 it2 cur nxt)"
    "set (scan_events it1 it2 cur nxt) = Event ''add'' ` (nxt - cur) \<union> Event ''remove'' ` (cur - nxt)"
proof -
  have "inj_on add_event S" "inj_on remove_event S" for S by (auto simp: inj_on_def event_defs)
  then show "distinct (scan_events it1 it2 cur nxt)"
    using assms by (auto simp: scan_events_def distinct_map visits_def event_defs)
  show "set (scan_events it1 it2 cur nxt) = Event ''add'' ` (nxt - cur) \<union> Event ''remove'' ` (cur - nxt)"
    using assms by (auto simp: scan_events_def visits_set event_defs)
qed

text \<open>
  C28. One scan. When reading \<open>/proc/net\<close> failed nothing changes. Otherwise the watcher knows
  exactly the sockets found that are not excluded, and there is one sequence of events that all
  subscribers get: each socket that is new is added once, each that is gone is removed once, and
  there is nothing else in it, so that a socket seen before is not announced again and an excluded
  one never. Every subscriber with room for the sequence has it appended to its channel and
  stays; one without room has what fitted, is dropped, and its channel is closed; no channel
  of anybody else changes, and neither do the reference counts.
\<close>

theorem scanOnce_spec:
  assumes "wf_watcher w" "visits it1" "visits it2" "finite ls" "w' = scanOnce it1 it2 (Inr ls) w"
  shows "w_current w' = {l \<in> ls. excluded_count w l \<le> 0} \<and> w_excluded w' = w_excluded w \<and>
    (\<exists>evs. distinct evs \<and>
       set evs = Event ''add'' ` (w_current w' - w_current w) \<union> Event ''remove'' ` (w_current w - w_current w') \<and>
       (\<forall>c ch. c \<in> set (w_subs w) \<and> w_chans w c = Some ch \<longrightarrow>
          (if length (c_buf ch) + length evs \<le> subscriberBuffer
           then c \<in> set (w_subs w') \<and> w_chans w' c = Some (ch\<lparr>c_buf := c_buf ch @ evs\<rparr>)
           else c \<notin> set (w_subs w') \<and>
             w_chans w' c = Some \<lparr>c_buf = c_buf ch @ take (subscriberBuffer - length (c_buf ch)) evs, c_closed = True\<rparr>)) \<and>
       (\<forall>c. c \<notin> set (w_subs w) \<longrightarrow> c \<notin> set (w_subs w') \<and> w_chans w' c = w_chans w c))
    \<and> scanOnce it1 it2 (Inl e) w = w"
proof -
  define evs where "evs = scan_events it1 it2 (w_current w) (visible w ls)"
  have w': "w' = (fold publish evs w)\<lparr>w_current := visible w ls\<rparr>"
    using assms(5) scanOnce_publishes [OF assms(1)] by (simp add: evs_def)
  note pa = publish_all [OF assms(1), of evs]
  have fin: "finite (w_current w)" "finite (visible w ls)"
    using assms(1,4) by (auto simp: wf_watcher_def visible_def)
  have cur: "w_current w' = visible w ls" "w_excluded w' = w_excluded w" using pa(3) by (simp_all add: w')
  note X = scan_events_exact [OF assms(2,3) fin, folded evs_def cur(1)]
  have "\<forall>c ch. c \<in> set (w_subs w) \<and> w_chans w c = Some ch \<longrightarrow>
          (if length (c_buf ch) + length evs \<le> subscriberBuffer
           then c \<in> set (w_subs w') \<and> w_chans w' c = Some (ch\<lparr>c_buf := c_buf ch @ evs\<rparr>)
           else c \<notin> set (w_subs w') \<and>
             w_chans w' c = Some \<lparr>c_buf = c_buf ch @ take (subscriberBuffer - length (c_buf ch)) evs, c_closed = True\<rparr>)"
    using pa(5,6) by (simp add: w' pushed_def has_room_def)
  moreover have "\<forall>c. c \<notin> set (w_subs w) \<longrightarrow> c \<notin> set (w_subs w') \<and> w_chans w' c = w_chans w c"
    using pa(5,6) by (simp add: w')
  moreover have "scanOnce it1 it2 (Inl e) w = w" by (simp add: scanOnce_def)
  ultimately show ?thesis using X cur(2) cur(1) [unfolded visible_def] by blast
qed

lemma scanOnce_spec_witness:
  "w_current (scanOnce sorted_list_of_set sorted_list_of_set
      (Inr {Listen V4 TCP ''127.0.0.1'' 80, Listen V4 UDP ''0.0.0.0'' 53} :: (unit, Listen set) result)
      (Exclude (Listen V4 TCP ''127.0.0.1'' 80) NewWatcher)) = {Listen V4 UDP ''0.0.0.0'' 53}"
    (is "w_current (scanOnce _ _ (Inr ?ls) ?w) = _")
proof -
  have wf: "wf_watcher ?w" by (simp add: wf_watcher_def NewWatcher_def)
  have "w_current (scanOnce sorted_list_of_set sorted_list_of_set (Inr ?ls :: (unit, Listen set) result) ?w) =
      {l \<in> ?ls. excluded_count ?w l \<le> 0}"
    using scanOnce_spec [OF wf visits_sorted visits_sorted _ refl, of ?ls "()"] by blast
  also have "\<dots> = {Listen V4 UDP ''0.0.0.0'' 53}"
    by (auto simp: NewWatcher_def Exclude_def excluded_count_def stack_proto_defs split: if_splits)
  finally show ?thesis .
qed

text \<open>
  Reference counting of excluded sockets: starting from a fresh watcher, after any number of
  \<open>Exclude\<close> calls followed by as many or fewer matching \<open>Unexclude\<close> calls per socket, the count of
  each socket is the difference; in particular a socket is visible to a scan exactly when all its
  \<open>Exclude\<close> calls were reversed.
\<close>

lemma exclude_refcount:
  assumes "\<And>l. count_list us l \<le> count_list es l"
  shows "excluded_count (fold Unexclude us (fold Exclude es NewWatcher)) l =
      int (count_list es l - count_list us l) \<and>
    (l \<in> visible (fold Unexclude us (fold Exclude es NewWatcher)) {l} \<longleftrightarrow> count_list es l = count_list us l)"
proof -
  have ok: "excluded_ok NewWatcher" by (simp add: excluded_ok_def NewWatcher_def)
  have z: "excluded_count NewWatcher j = 0" for j by (simp add: excluded_count_def NewWatcher_def)
  note inc = excl.count_incs [OF ok, of es]
  have "excluded_count (fold Unexclude us (fold Exclude es NewWatcher)) l =
      int (count_list es l) - int (count_list us l)"
    using excl.count_decs [of "fold Exclude es NewWatcher" us l] inc z assms by simp
  then show ?thesis using assms [of l] by (auto simp: visible_def)
qed

end
