(* ===== verification/GoNetIP.thy ===== *)
theory GoNetIP
  imports GoStrings
begin

unbundle bit_operations_syntax

text \<open>
  The part of Go's packages \<open>net\<close> and \<open>net/netip\<close> the program uses on addresses: \<open>IP\<close> (a byte
  slice of length 4 or 16), its tests and textual form, \<open>ParseIP\<close>, and host:port strings.
\<close>

section \<open>IP\<close>

type_synonym IP = "byte list"

definition v4InV6Prefix :: "byte list" where
  "v4InV6Prefix = replicate 10 0 @ [0xFF, 0xFF]"

definition IPv4zero :: IP where
  "IPv4zero = v4InV6Prefix @ [0, 0, 0, 0]"

definition IPv6unspecified :: IP where
  "IPv6unspecified = replicate 16 0"

definition IPv6loopback :: IP where
  "IPv6loopback = replicate 15 0 @ [1]"

definition To4 :: "IP \<Rightarrow> IP option" where
  "To4 ip =
     (if length ip = 4 then Some ip
      else if length ip = 16 \<and> take 12 ip = v4InV6Prefix then Some (drop 12 ip)
      else None)"

definition IP_Equal :: "IP \<Rightarrow> IP \<Rightarrow> bool" where
  "IP_Equal ip x =
     (if length ip = length x then ip = x
      else if length ip = 4 \<and> length x = 16 then take 12 x = v4InV6Prefix \<and> ip = drop 12 x
      else if length ip = 16 \<and> length x = 4 then take 12 ip = v4InV6Prefix \<and> drop 12 ip = x
      else False)"

definition IsUnspecified :: "IP \<Rightarrow> bool" where
  "IsUnspecified ip \<longleftrightarrow> IP_Equal ip IPv4zero \<or> IP_Equal ip IPv6unspecified"

definition IsLoopback :: "IP \<Rightarrow> bool" where
  "IsLoopback ip =
     (case To4 ip of
        Some ip4 \<Rightarrow> hd ip4 = 127
      | None \<Rightarrow> IP_Equal ip IPv6loopback)"

section \<open>Textual form\<close>

definition ipv4_String :: "IP \<Rightarrow> string" where
  "ipv4_String ip = join_with ''.'' (map (\<lambda>b. itoa (unat b)) ip)"

text \<open>The eight 16-bit groups of an IPv6 address.\<close>

fun groups :: "byte list \<Rightarrow> nat list" where
  "groups (a # b # bs) = (256 * unat a + unat b) # groups bs"
| "groups _ = []"

definition hex_group :: "nat \<Rightarrow> string" where
  "hex_group = format_nat 16"

text \<open>
  The first longest run of at least two zero groups, as its start and end: the loop of
  \<open>appendTo6\<close> over the start positions.
\<close>

definition zero_end :: "nat list \<Rightarrow> nat \<Rightarrow> nat" where
  "zero_end gs i = i + length (takeWhile (\<lambda>g. g = 0) (drop i gs))"

definition zero_run :: "nat list \<Rightarrow> nat \<times> nat" where
  "zero_run gs =
     fold (\<lambda>i (s, e).
        let l = zero_end gs i - i in if l \<ge> 2 \<and> l > e - s then (i, zero_end gs i) else (s, e))
       [0 ..< 8] (255, 255)"

definition ipv6_String :: "IP \<Rightarrow> string" where
  "ipv6_String ip =
     (let gs = groups ip; (s, e) = zero_run gs in
      if s = 255 then join_with '':'' (map hex_group gs)
      else join_with '':'' (map hex_group (take s gs)) @ ''::'' @
        join_with '':'' (map hex_group (drop e gs)))"

definition hexString :: "byte list \<Rightarrow> string" where
  "hexString bs = concat (map (\<lambda>b. [digit_char (unat b div 16), digit_char (unat b mod 16)]) bs)"

definition IP_String :: "IP \<Rightarrow> string" where
  "IP_String ip =
     (if ip = [] then ''<nil>''
      else if length ip \<noteq> 4 \<and> length ip \<noteq> 16 then ''?'' @ hexString ip
      else case To4 ip of Some ip4 \<Rightarrow> ipv4_String ip4 | None \<Rightarrow> ipv6_String ip)"

section \<open>ParseIP\<close>

definition dec_digit :: "char \<Rightarrow> nat option" where
  "dec_digit c = (if CHR ''0'' \<le> c \<and> c \<le> CHR ''9'' then Some (of_char c - 48) else None)"

text \<open>
  \<open>parseIPv4Fields\<close>: the fields so far, the value and the number of digits of the current one.
  A dot must have a digit before and something after it.
\<close>

fun ipv4_fields :: "byte list \<Rightarrow> nat \<Rightarrow> nat \<Rightarrow> string \<Rightarrow> byte list option" where
  "ipv4_fields fs v dl [] = (if length fs < 3 then None else Some (fs @ [word_of_nat v]))"
| "ipv4_fields fs v dl (c # cs) =
     (case dec_digit c of
        Some d \<Rightarrow>
          if dl = 1 \<and> v = 0 then None
          else if v * 10 + d > 255 then None
          else ipv4_fields fs (v * 10 + d) (Suc dl) cs
      | None \<Rightarrow>
          if c = CHR ''.'' then
            (if dl = 0 \<or> cs = [] then None
             else if length fs = 3 then None
             else ipv4_fields (fs @ [word_of_nat v]) 0 0 cs)
          else None)"

definition hex_digit :: "char \<Rightarrow> nat option" where
  "hex_digit c =
     (if CHR ''0'' \<le> c \<and> c \<le> CHR ''9'' then Some (of_char c - 48)
      else if CHR ''a'' \<le> c \<and> c \<le> CHR ''f'' then Some (of_char c - 87)
      else if CHR ''A'' \<le> c \<and> c \<le> CHR ''F'' then Some (of_char c - 55)
      else None)"

text \<open>A hexadecimal number: its digit count and value, and the rest; at most four digits.\<close>

fun hex_number :: "nat \<Rightarrow> nat \<Rightarrow> string \<Rightarrow> (nat \<times> nat \<times> string) option" where
  "hex_number off acc [] = Some (off, acc, [])"
| "hex_number off acc (c # cs) =
     (case hex_digit c of
        None \<Rightarrow> Some (off, acc, c # cs)
      | Some d \<Rightarrow>
          if off > 3 then None
          else if acc * 16 + d > 65535 then None
          else hex_number (Suc off) (acc * 16 + d) cs)"

text \<open>
  The loop of \<open>parseIPv6\<close>: the bytes so far, where the ellipsis is, and the rest of the string.
  The number of bytes grows by two in each round, and the loop ends at sixteen. \<open>None\<close> is an
  error.
\<close>

lemma hex_number_length: "hex_number off acc s = Some (n, v, r) \<Longrightarrow> length r + n = length s + off"
  by (induction off acc s rule: hex_number.induct) (fastforce split: option.splits if_splits)+

function ipv6_loop :: "byte list \<Rightarrow> nat option \<Rightarrow> string \<Rightarrow> (byte list \<times> nat option \<times> string) option" where
  "ipv6_loop ip ell s =
     (if length ip \<ge> 16 then Some (ip, ell, s)
      else
        (case hex_number 0 0 s of
           None \<Rightarrow> None
         | Some (off, acc, r) \<Rightarrow>
             if off = 0 then None
             else if r \<noteq> [] \<and> hd r = CHR ''.'' then
               (if ell = None \<and> length ip \<noteq> 12 then None
                else if length ip + 4 > 16 then None
                else case ipv4_fields [] 0 0 s of
                  None \<Rightarrow> None
                | Some b4 \<Rightarrow> Some (ip @ b4, ell, []))
             else
               let ip' = ip @ [word_of_nat (acc div 256), word_of_nat acc] in
               if r = [] then Some (ip', ell, [])
               else if hd r \<noteq> CHR '':'' then None
               else if tl r = [] then None
               else if hd (tl r) = CHR '':'' then
                 (if ell \<noteq> None then None
                  else if tl (tl r) = [] then Some (ip', Some (length ip'), [])
                  else ipv6_loop ip' (Some (length ip')) (tl (tl r)))
               else ipv6_loop ip' ell (tl r)))"
  by pat_completeness auto
termination
  by (relation "measure (\<lambda>(ip, ell, s). 16 - length ip)") auto

definition parse_ipv6 :: "string \<Rightarrow> byte list option" where
  "parse_ipv6 s0 =
     (let (ell, s) = (if take 2 s0 = ''::'' then (Some 0, drop 2 s0) else (None, s0)) in
      if ell = Some 0 \<and> s = [] then Some (replicate 16 0)
      else
        (case ipv6_loop [] ell s of
           None \<Rightarrow> None
         | Some (ip, ell', r) \<Rightarrow>
             if r \<noteq> [] then None
             else if length ip < 16 then
               (case ell' of
                  None \<Rightarrow> None
                | Some k \<Rightarrow> Some (take k ip @ replicate (16 - length ip) 0 @ drop k ip))
             else if ell' \<noteq> None then None
             else Some ip))"

text \<open>
  \<open>ParseAddr\<close> decides by the first dot, colon or percent sign; a zone, which follows a percent
  sign, makes \<open>ParseIP\<close> fail. The result has sixteen bytes.
\<close>

definition ParseIP :: "string \<Rightarrow> IP option" where
  "ParseIP s =
     (case find (\<lambda>c. c \<in> {CHR ''.'', CHR '':'', CHR ''%''}) s of
        None \<Rightarrow> None
      | Some c \<Rightarrow>
          if c = CHR ''.'' then map_option (\<lambda>b. v4InV6Prefix @ b) (ipv4_fields [] 0 0 s)
          else if c = CHR '':'' then (if CHR ''%'' \<in> set s then None else parse_ipv6 s)
          else None)"

section \<open>Host and port\<close>

definition last_index :: "char \<Rightarrow> string \<Rightarrow> nat option" where
  "last_index c s =
     (if c \<in> set s then Some (length s - Suc (length (takeWhile (\<lambda>x. x \<noteq> c) (rev s)))) else None)"

definition index_of :: "char \<Rightarrow> string \<Rightarrow> nat option" where
  "index_of c s = (if c \<in> set s then Some (length (takeWhile (\<lambda>x. x \<noteq> c) s)) else None)"

definition SplitHostPort :: "string \<Rightarrow> (string \<times> string) option" where
  "SplitHostPort hp =
     (case last_index CHR '':'' hp of
        None \<Rightarrow> None
      | Some i \<Rightarrow>
          (if hd hp = CHR ''['' then
             (case index_of CHR '']'' hp of
                None \<Rightarrow> None
              | Some e \<Rightarrow>
                  if e + 1 = length hp \<or> e + 1 \<noteq> i then None
                  else if CHR ''['' \<in> set (drop 1 hp) \<or> CHR '']'' \<in> set (drop (e + 1) hp) then None
                  else Some (drop 1 (take e hp), drop (i + 1) hp))
           else if CHR '':'' \<in> set (take i hp) then None
           else if CHR ''['' \<in> set hp \<or> CHR '']'' \<in> set hp then None
           else Some (take i hp, drop (i + 1) hp)))"

definition JoinHostPort :: "string \<Rightarrow> string \<Rightarrow> string" where
  "JoinHostPort host port =
     (if CHR '':'' \<in> set host then ''['' @ host @ '']:'' @ port else host @ '':'' @ port)"

text \<open>A TCP or UDP address and its \<open>String\<close> method.\<close>

record net_addr =
  na_ip :: IP
  na_port :: nat
  na_zone :: string

definition net_addr_String :: "net_addr \<Rightarrow> string" where
  "net_addr_String a =
     (let ip = (if na_ip a = [] then [] else IP_String (na_ip a)) in
      JoinHostPort (if na_zone a \<noteq> [] then ip @ ''%'' @ na_zone a else ip) (itoa (na_port a)))"

section \<open>Reading back what was printed\<close>

lemma dec_digit_char: "d < 10 \<Longrightarrow> dec_digit (digit_char d) = Some d"
  by (simp add: dec_digit_def digit_char_def less_eq_char_def)

lemma hex_digit_char: "d < 16 \<Longrightarrow> hex_digit (digit_char d) = Some d"
proof -
  have "\<forall>d \<in> set [0 ..< 16]. hex_digit (digit_char d) = Some d" by code_simp
  then show "d < 16 \<Longrightarrow> hex_digit (digit_char d) = Some d" by simp
qed

lemma itoa_small:
  "n < 10 \<Longrightarrow> itoa n = [digit_char n]"
  "10 \<le> n \<Longrightarrow> n < 100 \<Longrightarrow> itoa n = [digit_char (n div 10), digit_char (n mod 10)]"
  "100 \<le> n \<Longrightarrow> n < 1000 \<Longrightarrow> itoa n = [digit_char (n div 100), digit_char (n div 10 mod 10), digit_char (n mod 10)]"
proof -
  show "n < 10 \<Longrightarrow> itoa n = [digit_char n]"
    "10 \<le> n \<Longrightarrow> n < 100 \<Longrightarrow> itoa n = [digit_char (n div 10), digit_char (n mod 10)]"
    by (simp_all add: format_nat.simps [of 10 n] format_nat.simps [of 10 "n div 10"])
  assume "100 \<le> n" "n < 1000"
  then have "\<not> n < 10" "\<not> n div 10 < 10" "n div 100 < 10" "n div 10 div 10 = n div 100"
    by (auto simp: div_mult2_eq [symmetric])
  then show "itoa n = [digit_char (n div 100), digit_char (n div 10 mod 10), digit_char (n mod 10)]"
    by (simp add: format_nat.simps [of 10 n] format_nat.simps [of 10 "n div 10"] format_nat.simps [of 10 "n div 100"])
qed

lemma ipv4_field_step:
  assumes "n < 256"
  shows "ipv4_fields fs 0 0 (itoa n @ r) = ipv4_fields fs n (length (itoa n)) r"
proof -
  consider "n < 10" | "10 \<le> n" "n < 100" | "100 \<le> n" "n < 1000" using assms by linarith
  then show ?thesis
  proof cases
    case 1
    then show ?thesis by (simp add: itoa_small dec_digit_char)
  next
    case 2
    then have "n div 10 < 10" "n div 10 \<noteq> 0" "n mod 10 < 10" by auto
    with 2 assms show ?thesis by (simp add: itoa_small dec_digit_char)
  next
    case 3
    have d: "n div 100 < 10" "n div 100 \<noteq> 0" "n div 10 mod 10 < 10" "n mod 10 < 10" "(255 < n div 10) = False"
      using 3 by auto
    have v: "n div 100 * 10 + n div 10 mod 10 = n div 10" "n div 10 * 10 + n mod 10 = n"
      using div_mult_mod_eq [of "n div 10" 10] by (simp_all add: div_mult2_eq [symmetric])
    with 3 d assms show ?thesis by (auto simp: itoa_small dec_digit_char)
  qed
qed

lemma ipv4_fields_String:
  "ipv4_fields [] 0 0 (ipv4_String [a, b, c, d]) = Some [a, b, c, d]"
proof -
  have "unat x < 256" for x :: byte using unsigned_less [of x] by simp
  then have "ipv4_fields fs 0 0 (itoa (unat x) @ r) = ipv4_fields fs (unat x) (length (itoa (unat x))) r"
    for fs r and x :: byte using ipv4_field_step by blast
  moreover from this [of _ _ "[]"] have
    "ipv4_fields fs 0 0 (itoa (unat x)) = ipv4_fields fs (unat x) (length (itoa (unat x))) []"
    for fs and x :: byte by simp
  moreover have "dec_digit CHR ''.'' = None" by code_simp
  ultimately show ?thesis by (simp add: ipv4_String_def)
qed

lemma find_first: "(\<And>x. x \<in> set xs \<Longrightarrow> \<not> P x) \<Longrightarrow> P y \<Longrightarrow> find P (xs @ y # ys) = Some y"
  by (induction xs) auto

lemma ParseIP_ipv4: "ParseIP (ipv4_String [a, b, c, d]) = Some (v4InV6Prefix @ [a, b, c, d])"
proof -
  have "find (\<lambda>c. c \<in> {CHR ''.'', CHR '':'', CHR ''%''}) (ipv4_String [a, b, c, d]) = Some CHR ''.''"
    unfolding ipv4_String_def
    using itoa_no_sep [of "unat a"] by (auto intro!: find_first)
  then show ?thesis by (simp add: ParseIP_def ipv4_fields_String)
qed

subsection \<open>IPv6\<close>

lemma hex_group_length: "1 \<le> k \<Longrightarrow> n < 16 ^ k \<Longrightarrow> length (hex_group n) \<le> k"
proof (induction k arbitrary: n)
  case (Suc k)
  show ?case
  proof (cases "n < 16")
    case True
    then show ?thesis by (simp add: hex_group_def format_nat.simps [of 16 n])
  next
    case False
    with Suc.prems have "n div 16 < 16 ^ k" by (simp add: less_mult_imp_div_less mult.commute)
    moreover from False this have "1 \<le> k" by (cases k) auto
    ultimately have "length (hex_group (n div 16)) \<le> k" by (rule Suc.IH [rotated])
    with False show ?thesis by (simp add: hex_group_def format_nat.simps [of 16 n])
  qed
qed simp

lemma hex_number_group:
  "off + length (hex_group g) \<le> 4 \<Longrightarrow> acc * 16 ^ length (hex_group g) + g \<le> 65535 \<Longrightarrow>
   hex_number off acc (hex_group g @ r) =
     hex_number (off + length (hex_group g)) (acc * 16 ^ length (hex_group g) + g) r"
proof (induction g arbitrary: r rule: less_induct)
  case (less g)
  show ?case
  proof (cases "g < 16")
    case True
    then have "hex_group g = [digit_char g]" by (simp add: hex_group_def format_nat.simps [of 16 g])
    with True less.prems show ?thesis by (simp add: hex_digit_char)
  next
    case False
    let ?p = "hex_group (g div 16)" and ?d = "digit_char (g mod 16)"
    have g: "hex_group g = ?p @ [?d]" using False by (simp add: hex_group_def format_nat.simps [of 16 g])
    have "(acc * 16 ^ length ?p + g div 16) * 16 + g mod 16 = acc * 16 ^ Suc (length ?p) + g"
      by (simp add: distrib_right)
    with less.prems g have bnd: "(acc * 16 ^ length ?p + g div 16) * 16 + g mod 16 \<le> 65535" by simp
    have "x \<le> x * 16 + y" for x y :: nat by simp
    with bnd have "acc * 16 ^ length ?p + g div 16 \<le> 65535" using order_trans by blast
    then have "hex_number off acc (?p @ ?d # r) = hex_number (off + length ?p) (acc * 16 ^ length ?p + g div 16) (?d # r)"
      using less.prems(1) g False by (intro less.IH) simp_all
    also have "\<dots> = hex_number (Suc (off + length ?p)) ((acc * 16 ^ length ?p + g div 16) * 16 + g mod 16) r"
      using less.prems(1) g bnd by (simp add: hex_digit_char)
    finally show ?thesis by (simp add: g distrib_right ac_simps)
  qed
qed

text \<open>A group at the front of a string, followed by its end or something that is no hex digit.\<close>

lemma hex_number_read:
  assumes "g < 65536" "r = [] \<or> hex_digit (hd r) = None"
  shows "\<exists>off. hex_number 0 0 (hex_group g @ r) = Some (off, g, r) \<and> off \<noteq> 0"
proof -
  have len: "length (hex_group g) \<le> 4" using hex_group_length [of 4 g] assms(1) by simp
  then have "hex_number 0 0 (hex_group g @ r) = hex_number (length (hex_group g)) g r"
    using hex_number_group [of 0 g 0 r] assms(1) by simp
  also have "\<dots> = Some (length (hex_group g), g, r)"
    using assms(2) by (cases r) auto
  finally show ?thesis by (simp add: hex_group_def)
qed

lemma hex_seps: "hex_digit CHR '':'' = None" "hex_digit CHR ''.'' = None"
  by code_simp+

lemma hex_group_hd: "hd (hex_group g) \<noteq> CHR '':''" and hex_group_not_Nil: "hex_group g \<noteq> []"
proof -
  show ne: "hex_group g \<noteq> []" by (simp add: hex_group_def)
  then have "hd (hex_group g) \<in> set (format_nat 16 g)" by (simp add: hex_group_def)
  then obtain d where "d < 16" "hd (hex_group g) = digit_char d" using format_nat_chars [of 16] by auto
  with hex_digit_char [of d] hex_seps(1) show "hd (hex_group g) \<noteq> CHR '':''" by auto
qed

fun group_bytes :: "nat list \<Rightarrow> byte list" where
  "group_bytes [] = []"
| "group_bytes (g # gs) = word_of_nat (g div 256) # word_of_nat g # group_bytes gs"

lemma group_bytes_append: "group_bytes (xs @ ys) = group_bytes xs @ group_bytes ys"
  by (induction xs) auto

lemma length_group_bytes [simp]: "length (group_bytes gs) = 2 * length gs"
  by (induction gs) auto

lemma group_bytes_groups: "even (length bs) \<Longrightarrow> group_bytes (groups bs) = bs"
proof (induction bs rule: groups.induct)
  case (1 a b bs)
  have "unat b < 256" using unsigned_less [of b] by simp
  then have "(256 * unat a + unat b) div 256 = unat a" by simp
  moreover have "(256 :: byte) = 0" by simp
  then have "(256 :: byte) * a = 0" by (simp only: mult_zero_left)
  then have "word_of_nat (256 * unat a + unat b) = b" by simp
  ultimately show ?case using 1 by simp
qed auto

lemma groups_bound: "g \<in> set (groups bs) \<Longrightarrow> g < 65536"
proof (induction bs rule: groups.induct)
  case (1 a b bs)
  have "unat a < 256" "unat b < 256" using unsigned_less [of a] unsigned_less [of b] by simp_all
  then have "256 * unat a + unat b < 65536" by linarith
  with 1 show ?case by auto
qed auto

lemma length_groups: "length (groups bs) = length bs div 2"
  by (induction bs rule: groups.induct) auto


text \<open>The parser's loop on groups separated by colons.\<close>

definition join_groups :: "nat list \<Rightarrow> string" where
  "join_groups gs = join_with '':'' (map hex_group gs)"

lemma join_groups_simps:
  "join_groups [] = []" "join_groups [g] = hex_group g"
  "gs \<noteq> [] \<Longrightarrow> join_groups (g # gs) = hex_group g @ CHR '':'' # join_groups gs"
  by (simp_all add: join_groups_def neq_Nil_conv) auto

lemma join_groups_hd: "gs \<noteq> [] \<Longrightarrow> join_groups gs \<noteq> [] \<and> hd (join_groups gs) \<noteq> CHR '':''"
  using hex_group_hd hex_group_not_Nil
  by (cases gs; cases "tl gs = []") (auto simp: join_groups_simps)

lemma ipv6_loop_group:
  assumes "g < 65536" "length ip < 16" "r = [] \<or> hd r = CHR '':''"
  shows "ipv6_loop ip ell (hex_group g @ r) =
    (let ip' = ip @ group_bytes [g] in
     if r = [] then Some (ip', ell, [])
     else if tl r = [] then None
     else if hd (tl r) = CHR '':'' then
       (if ell \<noteq> None then None
        else if tl (tl r) = [] then Some (ip', Some (length ip'), [])
        else ipv6_loop ip' (Some (length ip')) (tl (tl r)))
     else ipv6_loop ip' ell (tl r))"
proof -
  have "r = [] \<or> hex_digit (hd r) = None" using assms(3) hex_seps(1) by metis
  from hex_number_read [OF assms(1) this] obtain off where
    "hex_number 0 0 (hex_group g @ r) = Some (off, g, r)" "off \<noteq> 0" by blast
  with assms(2,3) show ?thesis
    by (subst ipv6_loop.simps) (auto simp: Let_def)
qed

declare ipv6_loop.simps [simp del]

lemma ipv6_loop_groups:
  assumes "\<forall>g \<in> set gs. g < 65536" "gs \<noteq> []" "length ip + 2 * length gs \<le> 16"
  shows "ipv6_loop ip ell (join_groups gs) = Some (ip @ group_bytes gs, ell, [])"
  using assms
proof (induction gs arbitrary: ip)
  case (Cons g gs)
  show ?case
  proof (cases "gs = []")
    case True
    with Cons.prems ipv6_loop_group [of g ip "[]" ell] show ?thesis by (simp add: join_groups_simps)
  next
    case False
    with Cons.prems ipv6_loop_group [of g ip "CHR '':'' # join_groups gs" ell] join_groups_hd [OF False]
      Cons.IH [of "ip @ group_bytes [g]"]
    show ?thesis by (simp add: join_groups_simps Let_def)
  qed
qed simp

text \<open>Groups, an ellipsis, and more groups or none.\<close>

lemma ipv6_loop_ellipsis:
  assumes "\<forall>g \<in> set ls. g < 65536" "\<forall>g \<in> set rs. g < 65536" "ls \<noteq> []"
    and "length ip + 2 * length ls + 2 * length rs < 16"
  shows "ipv6_loop ip None (join_groups ls @ ''::'' @ join_groups rs) =
    Some (ip @ group_bytes ls @ group_bytes rs, Some (length ip + 2 * length ls), [])"
  using assms
proof (induction ls arbitrary: ip)
  case (Cons g gs)
  show ?case
  proof (cases "gs = []")
    case True
    show ?thesis
    proof (cases "rs = []")
      case True
      with \<open>gs = []\<close> Cons.prems ipv6_loop_group [of g ip "''::''" None] show ?thesis
        by (simp add: join_groups_simps)
    next
      case False
      with \<open>gs = []\<close> Cons.prems ipv6_loop_group [of g ip "''::'' @ join_groups rs" None] join_groups_hd [OF False]
        ipv6_loop_groups [of rs "ip @ group_bytes [g]" "Some (length ip + 2)"]
      show ?thesis by (simp add: join_groups_simps Let_def)
    qed
  next
    case False
    with Cons.prems ipv6_loop_group [of g ip "CHR '':'' # join_groups gs @ ''::'' @ join_groups rs" None]
      join_groups_hd [OF False] Cons.IH [of "ip @ group_bytes [g]"]
    show ?thesis by (simp add: join_groups_simps Let_def)
  qed
qed simp

text \<open>The run of zeros that the printer shortens is one.\<close>

lemma zero_end_run:
  "i \<le> length gs \<Longrightarrow> gs = take i gs @ replicate (zero_end gs i - i) 0 @ drop (zero_end gs i) gs"
proof -
  assume "i \<le> length gs"
  let ?t = "takeWhile (\<lambda>g. g = 0) (drop i gs)"
  have "?t = replicate (length ?t) 0"
    by (metis (mono_tags, lifting) replicate_eqI set_takeWhileD)
  moreover have "drop (length ?t) (drop i gs) = dropWhile (\<lambda>g. g = 0) (drop i gs)"
    by (rule dropWhile_eq_drop [symmetric])
  ultimately have "drop i gs = replicate (length ?t) 0 @ drop (zero_end gs i) gs"
    unfolding zero_end_def by (metis add.commute drop_drop takeWhile_dropWhile_id)
  then show ?thesis by (metis add_diff_cancel_left' append_take_drop_id zero_end_def)
qed

lemma zero_run_cases:
  assumes "zero_run gs = (s, e)" "length gs = 8"
  shows "(s, e) = (255, 255) \<or> (s < 8 \<and> e = zero_end gs s \<and> 2 \<le> e - s)"
proof -
  let ?f = "\<lambda>i (s, e). let l = zero_end gs i - i in if l \<ge> 2 \<and> l > e - s then (i, zero_end gs i) else (s, e)"
  let ?P = "\<lambda>(s, e). (s, e) = (255, 255) \<or> (s < 8 \<and> e = zero_end gs s \<and> 2 \<le> e - s)"
  have "?P (fold ?f is p)" if "?P p" "\<forall>i \<in> set is. i < 8" for "is" p
    using that
  proof (induction "is" arbitrary: p)
    case (Cons i "is")
    have "?P (?f i p)" using Cons.prems by (auto simp: Let_def split: prod.splits)
    then show ?case using Cons.IH [of "?f i p"] Cons.prems(2) by simp
  qed simp
  from this [of "(255, 255)" "[0 ..< 8]"] assms(1) show ?thesis by (simp add: zero_run_def)
qed

lemma group_bytes_zeros: "group_bytes (replicate n 0) = replicate (2 * n) 0"
  by (induction n) auto

lemma no_leading_ellipsis: "gs \<noteq> [] \<Longrightarrow> take 2 (join_groups gs @ r) \<noteq> ''::''"
  using join_groups_hd [of gs] by (cases "join_groups gs") (auto simp: numeral_2_eq_2)

lemma take_length_append: "take (length xs) (xs @ ys) = xs"
  and drop_length_append: "drop (length xs) (xs @ ys) = ys"
  by simp_all

lemma parse_ipv6_short:
  "take 2 s \<noteq> ''::'' \<Longrightarrow> ipv6_loop [] None s = Some (ip, Some k, []) \<Longrightarrow> length ip < 16 \<Longrightarrow>
   parse_ipv6 s = Some (take k ip @ replicate (16 - length ip) 0 @ drop k ip)"
  by (simp add: parse_ipv6_def)

lemma parse_ipv6_compressed:
  assumes "\<forall>g \<in> set ls. g < 65536" "\<forall>g \<in> set rs. g < 65536" "length ls + length rs < 8"
  shows "parse_ipv6 (join_groups ls @ ''::'' @ join_groups rs) =
    Some (group_bytes ls @ replicate (16 - 2 * length ls - 2 * length rs) 0 @ group_bytes rs)"
proof (cases "ls = []")
  case True
  then show ?thesis
    using assms(3) ipv6_loop_groups [OF assms(2), of "[]" "Some 0"] join_groups_hd [of rs]
    by (cases "rs = []") (simp_all add: parse_ipv6_def join_groups_simps)
next
  case False
  have sh: "length (group_bytes ls @ group_bytes rs) < 16" using assms(3) by simp
  have "ipv6_loop [] None (join_groups ls @ ''::'' @ join_groups rs) =
      Some (group_bytes ls @ group_bytes rs, Some (length (group_bytes ls)), [])"
    using ipv6_loop_ellipsis [OF assms(1,2) False, of "[]"] sh by simp
  note ps = parse_ipv6_short [OF no_leading_ellipsis [OF False] this sh]
  have "16 - length (group_bytes ls @ group_bytes rs) = 16 - 2 * length ls - 2 * length rs" by simp
  then show ?thesis
    unfolding ps take_length_append drop_length_append by (rule arg_cong)
qed

lemma parse_ipv6_String:
  assumes "length ip = 16"
  shows "parse_ipv6 (ipv6_String ip) = Some ip"
proof -
  define gs where "gs = groups ip"
  have len: "length gs = 8" and ip: "group_bytes gs = ip" and bnd: "\<forall>g \<in> set gs. g < 65536"
    using assms groups_bound by (auto simp: gs_def length_groups group_bytes_groups)
  obtain s e where run: "zero_run gs = (s, e)" by fastforce
  from zero_run_cases [OF run len] show ?thesis
  proof
    assume "(s, e) = (255, 255)"
    then have "ipv6_String ip = join_groups gs"
      using run by (simp add: ipv6_String_def gs_def [symmetric] join_groups_def)
    moreover have "gs \<noteq> []" using len by auto
    ultimately show ?thesis
      using ipv6_loop_groups [OF bnd, of "[]" None] no_leading_ellipsis [of gs "[]"] len ip assms
      by (simp add: parse_ipv6_def)
  next
    assume se: "s < 8 \<and> e = zero_end gs s \<and> 2 \<le> e - s"
    define ls rs n where "ls = take s gs" and "rs = drop e gs" and "n = e - s"
    have gs: "gs = ls @ replicate n 0 @ rs"
      using zero_end_run [of s gs] se len by (simp add: ls_def rs_def n_def)
    have ll: "length ls + n + length rs = 8" using arg_cong [OF gs, of length] len by simp
    have n2: "2 \<le> n" using se unfolding n_def by blast
    have b: "\<forall>g \<in> set ls. g < 65536" "\<forall>g \<in> set rs. g < 65536" using bnd gs by auto
    have str: "ipv6_String ip = join_groups ls @ ''::'' @ join_groups rs"
      using run se by (simp add: ipv6_String_def gs_def [symmetric] join_groups_def ls_def rs_def)
    have bytes: "ip = group_bytes ls @ replicate (16 - 2 * length ls - 2 * length rs) 0 @ group_bytes rs"
    proof -
      have "2 * n = 16 - 2 * length ls - 2 * length rs" using ll by linarith
      then show ?thesis using ip gs by (metis group_bytes_append group_bytes_zeros)
    qed
    have "length ls + length rs < 8" using ll n2 by linarith
    from parse_ipv6_compressed [OF b this] show ?thesis unfolding str using bytes by simp
  qed
qed

lemma find_only:
  assumes "y \<in> set xs" "P y" "\<And>x. x \<in> set xs \<Longrightarrow> P x \<Longrightarrow> x = y"
  shows "find P xs = Some y"
proof (cases "find P xs")
  case None
  with assms(1,2) show ?thesis by (simp add: find_None_iff)
next
  case (Some z)
  then obtain i where i: "i < length xs" "P (xs ! i)" "z = xs ! i" unfolding find_Some_iff by blast
  with assms(3) [of "xs ! i"] have "z = y" by (metis nth_mem)
  with Some show ?thesis by metis
qed

lemma hex_group_chars: "c \<in> set (hex_group g) \<Longrightarrow> c \<notin> {CHR ''.'', CHR '':'', CHR ''%''}"
proof -
  assume "c \<in> set (hex_group g)"
  then obtain d where "d < 16" "c = digit_char d"
    using format_nat_chars [of 16] by (auto simp: hex_group_def)
  then have "hex_digit c \<noteq> None" using hex_digit_char by simp
  moreover have "hex_digit CHR ''.'' = None" "hex_digit CHR '':'' = None" "hex_digit CHR ''%'' = None" by code_simp+
  ultimately show ?thesis by auto
qed

lemma join_groups_chars: "c \<in> set (join_groups gs) \<Longrightarrow> c \<in> {CHR ''.'', CHR '':'', CHR ''%''} \<Longrightarrow> c = CHR '':''"
proof (induction gs)
  case (Cons g gs)
  then show ?case using hex_group_chars [of c g] by (cases "gs = []") (auto simp: join_groups_simps)
qed (simp add: join_groups_simps)

lemma ipv6_String_chars:
  assumes "length ip = 16"
  shows "CHR '':'' \<in> set (ipv6_String ip)"
    and "c \<in> set (ipv6_String ip) \<Longrightarrow> c \<in> {CHR ''.'', CHR '':'', CHR ''%''} \<Longrightarrow> c = CHR '':''"
proof -
  have len: "length (groups ip) = 8" using assms by (simp add: length_groups)
  obtain g gs where g: "groups ip = g # gs" "gs \<noteq> []" using len by (cases "groups ip"; cases "tl (groups ip)") auto
  have form: "ipv6_String ip = join_groups (groups ip) \<or>
      (\<exists>ls rs. ipv6_String ip = join_groups ls @ ''::'' @ join_groups rs)"
    unfolding ipv6_String_def Let_def join_groups_def by (auto split: prod.splits)
  with join_groups_simps(3) [OF g(2), of g] g(1) show "CHR '':'' \<in> set (ipv6_String ip)" by auto
  assume "c \<in> set (ipv6_String ip)" "c \<in> {CHR ''.'', CHR '':'', CHR ''%''}"
  with form show "c = CHR '':''" using join_groups_chars [of c] by auto
qed

text \<open>
  \<open>ParseIP\<close> reads back what \<open>String\<close> printed, as sixteen bytes.
\<close>

definition To16 :: "IP \<Rightarrow> IP" where
  "To16 ip = (if length ip = 4 then v4InV6Prefix @ ip else ip)"

lemma four_bytes: "length ip = 4 \<Longrightarrow> \<exists>a b c d. ip = [a, b, c, d]"
  by (auto simp: eval_nat_numeral length_Suc_conv)

lemma ParseIP_String:
  assumes "length ip = 4 \<or> length ip = 16"
  shows "ParseIP (IP_String ip) = Some (To16 ip)"
proof (cases "To4 ip")
  case (Some ip4)
  then have "length ip4 = 4" "To16 ip = v4InV6Prefix @ ip4"
    by (auto simp: To4_def To16_def split: if_splits) (metis append_take_drop_id)
  moreover from this obtain a b c d where "ip4 = [a, b, c, d]" using four_bytes by blast
  moreover have "ip \<noteq> []" using assms by auto
  ultimately show ?thesis using Some assms ParseIP_ipv4 by (auto simp: IP_String_def)
next
  case None
  with assms have len: "length ip = 16" by (auto simp: To4_def)
  then have "ip \<noteq> []" by auto
  with None len have s: "IP_String ip = ipv6_String ip" by (simp add: IP_String_def)
  note ch = ipv6_String_chars [OF len]
  have "find (\<lambda>c. c \<in> {CHR ''.'', CHR '':'', CHR ''%''}) (ipv6_String ip) = Some CHR '':''"
    using ch by (intro find_only) auto
  moreover have "CHR ''%'' \<notin> set (ipv6_String ip)" using ch(2) [of "CHR ''%''"] by auto
  ultimately show ?thesis using s len parse_ipv6_String by (simp add: ParseIP_def To16_def)
qed

lemma To16_tests [simp]:
  "IsLoopback (To16 ip) = IsLoopback ip" "IsUnspecified (To16 ip) = IsUnspecified ip"
  "To4 (To16 ip) = To4 ip"
proof -
  show t4: "To4 (To16 ip) = To4 ip" by (simp add: To16_def To4_def v4InV6Prefix_def)
  have "IsLoopback (To16 ip) = IsLoopback ip \<and> IsUnspecified (To16 ip) = IsUnspecified ip"
  proof (cases "length ip = 4")
    case True
    then obtain a b c d where ip: "ip = [a, b, c, d]" using four_bytes by blast
    have "To4 ip = Some ip" using True by (simp add: To4_def)
    with t4 have "IsLoopback (To16 ip) = IsLoopback ip" by (simp add: IsLoopback_def)
    moreover have "IsUnspecified (To16 ip) = IsUnspecified ip"
      by (simp add: ip To16_def IsUnspecified_def IP_Equal_def v4InV6Prefix_def IPv4zero_def
          IPv6unspecified_def numeral_eq_Suc)
    ultimately show ?thesis by simp
  qed (simp add: To16_def)
  then show "IsLoopback (To16 ip) = IsLoopback ip" "IsUnspecified (To16 ip) = IsUnspecified ip" by simp_all
qed

section \<open>Splitting what was joined\<close>

lemma last_index_sep: "c \<notin> set p \<Longrightarrow> last_index c (h @ c # p) = Some (length h)"
  using takeWhile_append_stop [of "rev p" "\<lambda>x. x \<noteq> c" c "rev h"] by (fastforce simp: last_index_def)

lemma index_of_sep: "c \<notin> set h \<Longrightarrow> index_of c (h @ c # p) = Some (length h)"
  using takeWhile_append_stop [of h "\<lambda>x. x \<noteq> c" c p] by (fastforce simp: index_of_def)

lemma SplitHostPort_join:
  assumes "CHR ''['' \<notin> set h" "CHR '']'' \<notin> set h" "CHR ''['' \<notin> set p" "CHR '']'' \<notin> set p" "CHR '':'' \<notin> set p"
  shows "SplitHostPort (JoinHostPort h p) = Some (h, p)"
proof (cases "CHR '':'' \<in> set h")
  case True
  have l: "last_index CHR '':'' (''['' @ h @ '']:'' @ p) = Some (length h + 2)"
    using last_index_sep [OF assms(5), of "''['' @ h @ '']''"] by simp
  have i: "index_of CHR '']'' (''['' @ h @ '']:'' @ p) = Some (length h + 1)"
    using index_of_sep [of "CHR '']''" "''['' @ h" "'':'' @ p"] assms(2) by simp
  show ?thesis
    using True l i assms by (simp add: JoinHostPort_def SplitHostPort_def)
next
  case False
  have "last_index CHR '':'' (h @ '':'' @ p) = Some (length h)"
    using last_index_sep [OF assms(5), of h] by simp
  moreover have "hd (h @ '':'' @ p) \<noteq> CHR ''[''"
    using assms(1) by (cases h) auto
  ultimately show ?thesis using False assms by (simp add: JoinHostPort_def SplitHostPort_def)
qed

lemma itoa_no_bracket: "CHR ''['' \<notin> set (itoa n)" "CHR '']'' \<notin> set (itoa n)"
  by (auto dest: itoa_chars)

lemma IP_String_chars:
  assumes "length ip = 4 \<or> length ip = 16"
  shows "CHR ''['' \<notin> set (IP_String ip)" "CHR '']'' \<notin> set (IP_String ip)" "CHR ''%'' \<notin> set (IP_String ip)"
proof -
  have hx: "c \<notin> set (hex_group g)" if "hex_digit c = None" for c g
    using that hex_digit_char format_nat_chars [of 16 c g] by (fastforce simp: hex_group_def)
  have n: "hex_digit CHR ''['' = None" "hex_digit CHR '']'' = None" "hex_digit CHR ''%'' = None" by code_simp+
  have v4: "c \<notin> set (ipv4_String x)" if "c \<in> {CHR ''['', CHR '']'', CHR ''%''}" for c x
    using that set_join_with [of "''.''" "map (\<lambda>b. itoa (unat b)) x"] itoa_no_bracket itoa_no_sep
    unfolding ipv4_String_def by fastforce
  have "c \<notin> set (join_with '':'' (map hex_group gs))" if "c \<in> {CHR ''['', CHR '']'', CHR ''%''}" for c gs
    using that set_join_with [of "'':''" "map hex_group gs"] hx n by fastforce
  then have v6: "c \<notin> set (ipv6_String x)" if "c \<in> {CHR ''['', CHR '']'', CHR ''%''}" for c x
    using that unfolding ipv6_String_def Let_def by (auto split: prod.splits)
  from assms v4 v6 show "CHR ''['' \<notin> set (IP_String ip)" "CHR '']'' \<notin> set (IP_String ip)" "CHR ''%'' \<notin> set (IP_String ip)"
    unfolding IP_String_def by (auto split: option.splits)
qed

lemma SplitHostPort_addr:
  assumes "length (na_ip a) = 4 \<or> length (na_ip a) = 16" "na_zone a = []"
  shows "SplitHostPort (net_addr_String a) = Some (IP_String (na_ip a), itoa (na_port a))"
proof -
  have "na_ip a \<noteq> []" using assms(1) by auto
  with assms(2) have "net_addr_String a = JoinHostPort (IP_String (na_ip a)) (itoa (na_port a))"
    by (simp add: net_addr_String_def)
  with SplitHostPort_join IP_String_chars [OF assms(1)] itoa_no_bracket itoa_no_sep show ?thesis by simp
qed

end
