(* ===== verification/LoAddr.thy ===== *)
theory LoAddr
  imports LoTypes GoNetIP
begin

text \<open>
  Addresses of loopback sharing, \<open>internal/lo/addr.go\<close>: the network names and host:port strings a
  proxy binds and a \<open>/connect\<close> request dials, and which addresses count as local.
\<close>

definition dialNetwork :: "Stack \<Rightarrow> Proto \<Rightarrow> string" where
  "dialNetwork stack proto = proto @ (if stack = V6 then ''6'' else ''4'')"

definition hostPort :: "Stack \<Rightarrow> string \<Rightarrow> uint16 \<Rightarrow> string" where
  "hostPort stack addr port =
     (if stack = V6 then ''['' @ addr @ '']:'' @ itoa (unat port)
      else addr @ '':'' @ itoa (unat port))"

definition bindAddr :: "Listen \<Rightarrow> string" where
  "bindAddr l = hostPort (l_Stack l) (l_Addr l) (l_Port l)"

definition isUnspecified :: "string \<Rightarrow> bool" where
  "isUnspecified addr = (case ParseIP addr of None \<Rightarrow> False | Some ip \<Rightarrow> IsUnspecified ip)"

definition isLoopbackOrUnspecified :: "string \<Rightarrow> bool" where
  "isLoopbackOrUnspecified addr =
     (case ParseIP addr of None \<Rightarrow> False | Some ip \<Rightarrow> IsLoopback ip \<or> IsUnspecified ip)"

definition dialTarget :: "Listen \<Rightarrow> string" where
  "dialTarget l =
     (let addr = (if isUnspecified (l_Addr l) then (if l_Stack l = V6 then ''::1'' else ''127.0.0.1'')
                  else l_Addr l)
      in hostPort (l_Stack l) addr (l_Port l))"

definition addrMatchesStack :: "Stack \<Rightarrow> string \<Rightarrow> bool" where
  "addrMatchesStack stack addr =
     (case ParseIP addr of
        None \<Rightarrow> False
      | Some ip \<Rightarrow> if stack = V4 then To4 ip \<noteq> None else To4 ip = None)"

definition isLocalPeer :: "net_addr \<Rightarrow> bool" where
  "isLocalPeer remote =
     (let host = (case SplitHostPort (net_addr_String remote) of
                    None \<Rightarrow> net_addr_String remote
                  | Some (h, p) \<Rightarrow> h)
      in case ParseIP host of None \<Rightarrow> False | Some ip \<Rightarrow> IsLoopback ip \<or> IsUnspecified ip)"

section \<open>Facts\<close>

lemma isLocalPeer_iff:
  assumes "length (na_ip a) = 4 \<or> length (na_ip a) = 16" "na_zone a = []"
  shows "isLocalPeer a \<longleftrightarrow> IsLoopback (na_ip a) \<or> IsUnspecified (na_ip a)"
  using SplitHostPort_addr [OF assms] ParseIP_String [OF assms(1)]
  by (simp add: isLocalPeer_def)

lemma String_tests:
  assumes "length ip = 4 \<or> length ip = 16"
  shows "isUnspecified (IP_String ip) = IsUnspecified ip"
    "isLoopbackOrUnspecified (IP_String ip) = (IsLoopback ip \<or> IsUnspecified ip)"
    "addrMatchesStack stack (IP_String ip) = (if stack = V4 then To4 ip \<noteq> None else To4 ip = None)"
  using ParseIP_String [OF assms]
  by (simp_all add: isUnspecified_def isLoopbackOrUnspecified_def addrMatchesStack_def)

text \<open>The address an address string dials is a local one.\<close>

definition local_ip :: "string \<Rightarrow> bool" where
  "local_ip addr \<longleftrightarrow> (\<exists>ip. ParseIP addr = Some ip \<and> IsLoopback ip)"

lemma dialTarget_local:
  assumes "isLoopbackOrUnspecified (l_Addr l)"
  shows "\<exists>addr. dialTarget l = hostPort (l_Stack l) addr (l_Port l) \<and> local_ip addr \<and>
    (isUnspecified (l_Addr l) \<or> addr = l_Addr l)"
proof (cases "isUnspecified (l_Addr l)")
  case True
  have "IP_String IPv6loopback = ''::1''" "IP_String [127, 0, 0, 1] = ''127.0.0.1''"
    "IsLoopback IPv6loopback" "IsLoopback [127, 0, 0, 1]" "length IPv6loopback = 16" by code_simp+
  with ParseIP_String [of IPv6loopback] ParseIP_String [of "[127, 0, 0, 1]"]
  have "local_ip ''::1''" "local_ip ''127.0.0.1''" by (auto simp: local_ip_def)
  with True show ?thesis by (auto simp: dialTarget_def)
next
  case False
  with assms have "local_ip (l_Addr l)"
    by (auto simp: isLoopbackOrUnspecified_def isUnspecified_def local_ip_def split: option.splits)
  with False show ?thesis by (auto simp: dialTarget_def)
qed

end
