(* ===== verification/LoProc.thy ===== *)
theory LoProc
  imports LoAddr
begin

text \<open>
  Finding listening sockets in the kernel's tables, \<open>internal/lo/proc.go\<close>. A table is what opening
  and reading the file gave; the lines are those \<open>bufio.Scanner\<close> finds.
\<close>

section \<open>Files\<close>

datatype proc_file = NoFile | OpenError | Content string

definition procNetFiles :: "(string \<times> Proto \<times> Stack) list" where
  "procNetFiles =
     [(''/proc/net/tcp'', TCP, V4), (''/proc/net/tcp6'', TCP, V6),
      (''/proc/net/udp'', UDP, V4), (''/proc/net/udp6'', UDP, V6)]"

definition tcpStateListen :: string where "tcpStateListen = ''0A''"
definition udpStateUnconnected :: string where "udpStateUnconnected = ''07''"

section \<open>Lines\<close>

datatype parse_error = TooFewFields | MalformedLocalAddress | MalformedAddress | MalformedLength | MalformedPort

text \<open>\<open>hex.DecodeString\<close>.\<close>

fun hex_decode :: "string \<Rightarrow> byte list option" where
  "hex_decode [] = Some []"
| "hex_decode [c] = None"
| "hex_decode (c # d # cs) =
     (case (hex_digit c, hex_digit d) of
        (Some x, Some y) \<Rightarrow> map_option (\<lambda>bs. word_of_nat (16 * x + y) # bs) (hex_decode cs)
      | _ \<Rightarrow> None)"

text \<open>Each word of four bytes is reversed.\<close>

fun swap_words :: "byte list \<Rightarrow> byte list" where
  "swap_words (a # b # c # d # bs) = d # c # b # a # swap_words bs"
| "swap_words bs = bs"

definition parseHexIP :: "string \<Rightarrow> (parse_error, IP) result" where
  "parseHexIP s =
     (case hex_decode s of
        None \<Rightarrow> Inl MalformedAddress
      | Some raw \<Rightarrow> if length raw mod 4 \<noteq> 0 then Inl MalformedLength else Inr (swap_words raw))"

definition parseProcNetLine :: "string \<Rightarrow> Proto \<Rightarrow> Stack \<Rightarrow> (parse_error, Listen option) result" where
  "parseProcNetLine line proto stack =
     (let fs = GoStrings.fields line in
      if length fs < 4 then Inl TooFewFields
      else
        let st = fs ! 3 in
        if (proto = TCP \<and> st \<noteq> tcpStateListen) \<or> (proto = UDP \<and> st \<noteq> udpStateUnconnected) then Inr None
        else
          (case cut CHR '':'' (fs ! 1) of
             (ipHex, portHex, ok) \<Rightarrow>
               if \<not> ok then Inl MalformedLocalAddress
               else
                 (case parseHexIP ipHex of
                    Inl e \<Rightarrow> Inl e
                  | Inr ip \<Rightarrow>
                      if \<not> IsLoopback ip \<and> \<not> IsUnspecified ip then Inr None
                      else
                        (case parse_uint portHex 16 16 of
                           Inl e \<Rightarrow> Inl MalformedPort
                         | Inr port \<Rightarrow> Inr (Some (Listen stack proto (IP_String ip) (word_of_nat port)))))))"

section \<open>Tables\<close>

definition scanProcFile :: "proc_file \<Rightarrow> Proto \<Rightarrow> Stack \<Rightarrow> (unit, Listen set) result" where
  "scanProcFile f proto stack =
     (case f of
        NoFile \<Rightarrow> Inr {}
      | OpenError \<Rightarrow> Inl ()
      | Content s \<Rightarrow>
          (case scan_lines s of
             (ls, too_long) \<Rightarrow>
               if too_long then Inl ()
               else
                 Inr (set (List.map_filter
                   (\<lambda>line. case parseProcNetLine line proto stack of Inr (Some l) \<Rightarrow> Some l | _ \<Rightarrow> None)
                   (tl ls)))))"

fun scan_tables :: "(string \<Rightarrow> proc_file) \<Rightarrow> (string \<times> Proto \<times> Stack) list \<Rightarrow> Listen set \<Rightarrow> (string, Listen set) result" where
  "scan_tables proc [] out = Inr out"
| "scan_tables proc ((path, proto, stack) # fs) out =
     (case scanProcFile (proc path) proto stack of
        Inl _ \<Rightarrow> Inl path
      | Inr m \<Rightarrow> scan_tables proc fs (out \<union> m))"

definition scanProcNet :: "(string \<Rightarrow> proc_file) \<Rightarrow> (string, Listen set) result" where
  "scanProcNet proc = scan_tables proc procNetFiles {}"

section \<open>What the kernel prints\<close>

text \<open>
  The kernel prints an address as its 32-bit words, each in upper-case hexadecimal of the host's
  (little-endian) value, and the port as four hexadecimal digits.
\<close>

definition hex_upper :: "nat \<Rightarrow> char" where
  "hex_upper d = char_of (if d < 10 then 48 + d else 55 + d)"

definition hex_byte :: "byte \<Rightarrow> string" where
  "hex_byte b = [hex_upper (unat b div 16), hex_upper (unat b mod 16)]"

fun kernel_ip :: "IP \<Rightarrow> string" where
  "kernel_ip (a # b # c # d # bs) = hex_byte d @ hex_byte c @ hex_byte b @ hex_byte a @ kernel_ip bs"
| "kernel_ip _ = []"

definition kernel_port :: "uint16 \<Rightarrow> string" where
  "kernel_port p = hex_byte (word_of_nat (unat p div 256)) @ hex_byte (word_of_nat (unat p mod 256))"

lemma hex_digit_upper: "d < 16 \<Longrightarrow> hex_digit (hex_upper d) = Some d"
proof -
  have "\<forall>d \<in> set [0 ..< 16]. hex_digit (hex_upper d) = Some d" by code_simp
  then show "d < 16 \<Longrightarrow> hex_digit (hex_upper d) = Some d" by simp
qed

lemma digit_val_upper: "d < 16 \<Longrightarrow> digit_val (hex_upper d) = Some d"
  by (simp add: digit_val_def hex_upper_def)

lemma byte_nibbles: "unat (b :: byte) div 16 < 16" "16 * (unat b div 16) + unat b mod 16 = unat b"
proof -
  have "unat b < 256" using unsigned_less [of b] by simp
  then show "unat b div 16 < 16" "16 * (unat b div 16) + unat b mod 16 = unat b" by auto
qed

lemma hex_decode_byte: "hex_decode (hex_byte b @ s) = map_option ((#) b) (hex_decode s)"
  using byte_nibbles [of b] by (simp add: hex_byte_def hex_digit_upper)

lemma hex_decode_kernel: "length ip mod 4 = 0 \<Longrightarrow> hex_decode (kernel_ip ip) = Some (swap_words ip)"
  by (induction ip rule: swap_words.induct) (auto simp: hex_decode_byte)

lemma swap_swap: "swap_words (swap_words bs) = bs"
  by (induction bs rule: swap_words.induct) auto

lemma length_swap [simp]: "length (swap_words bs) = length bs"
  by (induction bs rule: swap_words.induct) auto

lemma parseHexIP_kernel: "length ip mod 4 = 0 \<Longrightarrow> parseHexIP (kernel_ip ip) = Inr ip"
  by (simp add: parseHexIP_def hex_decode_kernel swap_swap)

lemma parse_port_kernel: "parse_uint (kernel_port p) 16 16 = Inr (unat p)"
proof -
  have p: "unat p < 65536" using unsigned_less [of p] by simp
  define h l where "h = unat p div 256" and "l = unat p mod 256"
  have h: "h < 256" "l < 256" "256 * h + l = unat p" using p by (auto simp: h_def l_def)
  then have u: "unat (word_of_nat h :: byte) = h" "unat (word_of_nat l :: byte) = l"
    by (auto simp: unat_of_nat_small)
  have d: "h div 16 < 16" "l div 16 < 16" "\<not> 16 \<le> h mod 16" "\<not> 16 \<le> l mod 16" "h div 16 * 16 + h mod 16 = h"
    "(h * 16 + l div 16) * 16 + l mod 16 = unat p" using h by auto
  have le: "h div 16 \<le> 65535" "h \<le> 65535" "h * 16 + l div 16 \<le> 65535" using h by auto
  show ?thesis
    using d le p u by (auto simp: kernel_port_def h_def [symmetric] l_def [symmetric] hex_byte_def
        parse_uint_def digit_val_upper)
qed

lemma kernel_chars: "CHR '':'' \<notin> set (kernel_ip ip)"
proof -
  have "\<forall>d \<in> set [0 ..< 16]. hex_upper d \<noteq> CHR '':''" by code_simp
  then have u: "hex_upper d \<noteq> CHR '':''" if "d < 16" for d using that by simp
  have "CHR '':'' \<notin> set (hex_byte b)" for b
    using u [of "unat b div 16"] u [of "unat b mod 16"] byte_nibbles(1) [of b] by (auto simp: hex_byte_def)
  then show ?thesis by (induction ip rule: kernel_ip.induct) auto
qed

text \<open>Words of printable ASCII characters separated by spaces are the fields of the line.\<close>

definition plain_word :: "string \<Rightarrow> bool" where
  "plain_word w \<longleftrightarrow> w \<noteq> [] \<and> list_all (\<lambda>c. CHR 0x20 < c \<and> c < CHR 0x7F) w"

lemma wide_spaces_hd: "w \<in> set wide_spaces \<Longrightarrow> w \<noteq> [] \<and> CHR 0x7F < hd w"
  by (auto simp: wide_spaces_def less_char_def)

lemma space_len_ascii:
  assumes "c < CHR 0x7F"
  shows "space_len (c # s) = (if ascii_space c then 1 else 0)"
proof -
  have "\<not> has_prefix (c # s) w" if w0: "w \<in> set wide_spaces" for w
  proof
    assume "has_prefix (c # s) w"
    moreover obtain d v where w: "w = d # v" using wide_spaces_hd [OF w0] by (cases w) auto
    ultimately have "c = d" by (simp add: has_prefix_def)
    with wide_spaces_hd [OF w0] w assms show False by simp
  qed
  then have "find (has_prefix (c # s)) wide_spaces = None" by (auto simp: find_None_iff)
  then show ?thesis by (simp add: space_len_def)
qed

lemma plain_not_space: "CHR 0x20 < c \<Longrightarrow> \<not> ascii_space c"
  by (auto simp: ascii_space_def less_char_def)

lemma fields_from_word:
  "list_all (\<lambda>c. CHR 0x20 < c \<and> c < CHR 0x7F) w \<Longrightarrow> fields_from cur (w @ s) = fields_from (cur @ w) s"
  by (induction w arbitrary: cur) (auto simp: space_len_ascii plain_not_space)

lemma fields_from_space: "cur \<noteq> [] \<Longrightarrow> fields_from cur (CHR '' '' # s) = cur # fields_from [] s"
  by (simp add: space_len_ascii ascii_space_def less_char_def)

lemma fields_words: "list_all plain_word ws \<Longrightarrow> GoStrings.fields (join_with '' '' ws) = ws"
proof (induction ws rule: induct_list012)
  case (2 w)
  then show ?case using fields_from_word [of w "[]" "[]"] by (simp add: GoStrings.fields_def plain_word_def)
next
  case (3 w v ws)
  then show ?case
    using fields_from_word [of w "[]"] fields_from_space [of w] by (simp add: GoStrings.fields_def plain_word_def)
qed (simp add: GoStrings.fields_def)

definition right_state :: "Proto \<Rightarrow> string \<Rightarrow> bool" where
  "right_state proto st \<longleftrightarrow> (proto = TCP \<longrightarrow> st = tcpStateListen) \<and> (proto = UDP \<longrightarrow> st = udpStateUnconnected)"

lemma kernel_line:
  assumes "GoStrings.fields line = f0 # (kernel_ip ip @ '':'' @ kernel_port port) # f2 # st # rest"
    and "length ip mod 4 = 0"
  shows "parseProcNetLine line proto stack =
    Inr (if right_state proto st \<and> (IsLoopback ip \<or> IsUnspecified ip)
         then Some (Listen stack proto (IP_String ip) port) else None)"
proof -
  have "cut CHR '':'' (kernel_ip ip @ '':'' @ kernel_port port) = (kernel_ip ip, kernel_port port, True)"
    using kernel_chars by simp
  then show ?thesis
    by (simp add: parseProcNetLine_def assms parseHexIP_kernel parse_port_kernel right_state_def)
qed

definition demo_line :: string where
  "demo_line = ''0: 0100007F:1F90 00000000:0000 0A 0''"

lemma demo_line_fields:
  "GoStrings.fields demo_line =
     ''0:'' # (kernel_ip [127, 0, 0, 1] @ '':'' @ kernel_port 8080) # ''00000000:0000'' # ''0A'' # [''0'']"
proof -
  let ?ws = "[''0:'', ''0100007F:1F90'', ''00000000:0000'', ''0A'', ''0'']"
  have "list_all plain_word ?ws" by (simp add: plain_word_def less_char_def)
  from fields_words [OF this] have "GoStrings.fields demo_line = ?ws" by (simp add: demo_line_def)
  moreover have "kernel_ip [127, 0, 0, 1] @ '':'' @ kernel_port 8080 = ''0100007F:1F90''" by code_simp
  ultimately show ?thesis by simp
qed

lemma demo_line_parsed:
  "right_state TCP ''0A''" "IsLoopback [127, 0, 0, 1]" "IP_String [127, 0, 0, 1] = ''127.0.0.1''"
  by code_simp+

text \<open>
  C30. Reading the kernel's tables. A line whose fields carry, as the kernel prints them, a local
  address of 4 or 16 bytes, a port and a state is recognised as a listening socket exactly when
  the state is the listening one of the protocol and the address is loopback or unspecified, and
  then with exactly that address and port, which can be read back from its text; other lines of
  this form are passed over, never rejected as malformed.
\<close>

theorem parseProcNetLine_kernel:
  assumes "GoStrings.fields line = f0 # (kernel_ip ip @ '':'' @ kernel_port port) # f2 # st # rest"
    and "length ip = 4 \<or> length ip = 16"
  shows "parseProcNetLine line proto stack =
      Inr (if right_state proto st \<and> (IsLoopback ip \<or> IsUnspecified ip)
           then Some (Listen stack proto (IP_String ip) port) else None) \<and>
    ParseIP (IP_String ip) = Some (To16 ip)"
proof -
  have "length ip mod 4 = 0" using assms(2) by auto
  with kernel_line [OF assms(1)] ParseIP_String [OF assms(2)] show ?thesis by simp
qed

lemma parseProcNetLine_kernel_witness:
  "parseProcNetLine demo_line TCP V4 = Inr (Some (Listen V4 TCP ''127.0.0.1'' 8080))"
  using parseProcNetLine_kernel [OF demo_line_fields, of TCP V4] demo_line_parsed by simp

lemma scanProcFile_finite: "scanProcFile f proto stack = Inr m \<Longrightarrow> finite m"
  by (auto simp: scanProcFile_def split: proc_file.splits prod.splits if_splits)

lemma scan_tables_finite: "finite out \<Longrightarrow> scan_tables proc fs out = Inr m \<Longrightarrow> finite m"
  by (induction proc fs out rule: scan_tables.induct)
    (auto split: sum.splits dest: scanProcFile_finite)

lemma scanProcNet_finite: "scanProcNet proc = Inr ls \<Longrightarrow> finite ls"
  unfolding scanProcNet_def by (rule scan_tables_finite [OF finite.emptyI])

text \<open>Every socket found has an address that is loopback or unspecified.\<close>

lemma parse_line_local:
  assumes "parseProcNetLine line proto stack = Inr (Some l)"
  shows "l_Stack l = stack" "l_Proto l = proto" "\<exists>ip. (length ip = 4 \<or> length ip = 16) \<and>
    (IsLoopback ip \<or> IsUnspecified ip) \<and> l_Addr l = IP_String ip"
proof -
  from assms obtain ip where *: "l_Stack l = stack" "l_Proto l = proto" "IsLoopback ip \<or> IsUnspecified ip" "l_Addr l = IP_String ip"
    by (fastforce simp: parseProcNetLine_def Let_def split: if_splits prod.splits sum.splits)
  then have "length ip = 4 \<or> length ip = 16"
    by (auto simp: IsLoopback_def IsUnspecified_def To4_def IP_Equal_def IPv4zero_def IPv6unspecified_def
        IPv6loopback_def v4InV6Prefix_def split: option.splits if_splits)
  with * show "l_Stack l = stack" "l_Proto l = proto" "\<exists>ip. (length ip = 4 \<or> length ip = 16) \<and>
    (IsLoopback ip \<or> IsUnspecified ip) \<and> l_Addr l = IP_String ip" by auto
qed

end
