(* ===== verification/GoURL.thy ===== *)
theory GoURL
  imports GoStrings
begin

text \<open>
  Query strings as package \<open>net/url\<close> encodes and parses them. \<open>Values\<close> are kept as the list of
  key/value pairs in their order.
\<close>

section \<open>Escaping\<close>

definition unreserved :: "char \<Rightarrow> bool" where
  "unreserved c \<longleftrightarrow>
     (CHR ''a'' \<le> c \<and> c \<le> CHR ''z'') \<or> (CHR ''A'' \<le> c \<and> c \<le> CHR ''Z'') \<or>
     (CHR ''0'' \<le> c \<and> c \<le> CHR ''9'') \<or> c \<in> {CHR ''-'', CHR ''_'', CHR ''.'', CHR ''~''}"

definition upper_hex :: "nat \<Rightarrow> char" where
  "upper_hex d = char_of (if d < 10 then 48 + d else 55 + d)"

definition escape_char :: "char \<Rightarrow> string" where
  "escape_char c =
     (if unreserved c then [c]
      else if c = CHR '' '' then ''+''
      else [CHR ''%'', upper_hex (of_char c div 16), upper_hex (of_char c mod 16)])"

definition query_escape :: "string \<Rightarrow> string" where
  "query_escape s = concat (map escape_char s)"

definition unhex :: "char \<Rightarrow> nat option" where
  "unhex c = (case digit_val c of None \<Rightarrow> None | Some d \<Rightarrow> if d < 16 then Some d else None)"

fun query_unescape :: "string \<Rightarrow> string option" where
  "query_unescape [] = Some []"
| "query_unescape (c # s) =
     (if c = CHR ''%'' then
        (case s of
           x # y # r \<Rightarrow>
             (case (unhex x, unhex y) of
                (Some a, Some b) \<Rightarrow> map_option ((#) (char_of (16 * a + b))) (query_unescape r)
              | _ \<Rightarrow> None)
         | _ \<Rightarrow> None)
      else map_option ((#) (if c = CHR ''+'' then CHR '' '' else c)) (query_unescape s))"

section \<open>Values\<close>

type_synonym url_values = "(string \<times> string) list"

definition values_get :: "url_values \<Rightarrow> string \<Rightarrow> string" where
  "values_get q k = (case map_of q k of None \<Rightarrow> [] | Some v \<Rightarrow> v)"

text \<open>\<open>Encode\<close> on values with one value per key: sorted by key.\<close>

definition encode_values :: "url_values \<Rightarrow> string" where
  "encode_values q =
     join_with ''&'' (map (\<lambda>(k, v). query_escape k @ ''='' @ query_escape v) (sort_key fst q))"

text \<open>\<open>ParseQuery\<close> as \<open>URL.Query\<close> uses it: settings that do not parse are left out.\<close>

definition parse_setting :: "string \<Rightarrow> url_values" where
  "parse_setting s =
     (if s = [] \<or> CHR '';'' \<in> set s then []
      else
        (case cut CHR ''='' s of
           (k, v, _) \<Rightarrow>
             (case (query_unescape k, query_unescape v) of
                (Some k', Some v') \<Rightarrow> [(k', v')]
              | _ \<Rightarrow> [])))"

definition parse_query :: "string \<Rightarrow> url_values" where
  "parse_query s = concat (map parse_setting (split_on CHR ''&'' s))"

section \<open>Parsing what was encoded\<close>

lemma unhex_upper: "d < 16 \<Longrightarrow> unhex (upper_hex d) = Some d"
  by (simp add: unhex_def digit_val_def upper_hex_def)

lemma unescape_escape_char: "query_unescape (escape_char c @ s) = map_option ((#) c) (query_unescape s)"
proof -
  have lt: "(of_char c :: nat) div 16 < 16" by (rule less_mult_imp_div_less) simp
  then have h: "unhex (upper_hex (of_char c div 16)) = Some (of_char c div 16)"
    "unhex (upper_hex (of_char c mod 16)) = Some (of_char c mod 16)"
    by (auto intro!: unhex_upper)
  have "16 * ((of_char c :: nat) div 16) + of_char c mod 16 = of_char c" by simp
  then have rt: "char_of (16 * ((of_char c :: nat) div 16) + of_char c mod 16) = c" by simp
  have "unreserved c \<Longrightarrow> c \<noteq> CHR ''%'' \<and> c \<noteq> CHR ''+''"
    by (auto simp: unreserved_def less_eq_char_def)
  with h rt show ?thesis by (simp add: escape_char_def)
qed

lemma unescape_escape: "query_unescape (query_escape s) = Some s"
  by (induction s) (simp_all add: query_escape_def unescape_escape_char)

lemma escape_no_sep: "c \<in> {CHR ''&'', CHR ''='', CHR '';'', CHR '' '', CHR ''?''} \<Longrightarrow> c \<notin> set (query_escape s)"
proof -
  have "\<forall>d \<in> set [0 ..< 16]. upper_hex d \<notin> {CHR ''&'', CHR ''='', CHR '';'', CHR '' '', CHR ''?''}" by code_simp
  then have u: "upper_hex d \<notin> {CHR ''&'', CHR ''='', CHR '';'', CHR '' '', CHR ''?''}" if "d < 16" for d
    using that by simp
  have lt: "(of_char x :: nat) div 16 < 16" "(of_char x :: nat) mod 16 < 16" for x
    by (rule less_mult_imp_div_less, simp) simp
  assume c: "c \<in> {CHR ''&'', CHR ''='', CHR '';'', CHR '' '', CHR ''?''}"
  have "c \<notin> set (escape_char x)" for x
    using c u [OF lt(1) [of x]] u [OF lt(2) [of x]]
    by (auto simp: escape_char_def unreserved_def less_eq_char_def)
  then show ?thesis by (auto simp: query_escape_def)
qed

lemma parse_setting_encoded: "parse_setting (query_escape k @ CHR ''='' # query_escape v) = [(k, v)]"
  using escape_no_sep [of "CHR ''=''" k] escape_no_sep [of "CHR '';''"]
  by (simp add: parse_setting_def unescape_escape)

lemma parse_query_encode: "q \<noteq> [] \<Longrightarrow> parse_query (encode_values q) = sort_key fst q"
proof -
  assume ne: "q \<noteq> []"
  let ?ss = "map (\<lambda>(k, v). query_escape k @ ''='' @ query_escape v) (sort_key fst q)"
  have "\<forall>x \<in> set ?ss. CHR ''&'' \<notin> set x"
    using escape_no_sep [of "CHR ''&''"] by (auto split: prod.splits)
  moreover have "?ss \<noteq> []" using ne by (metis length_0_conv length_map length_sort)
  ultimately have "split_on CHR ''&'' (encode_values q) = ?ss"
    unfolding encode_values_def by (intro split_on_join) auto
  moreover have "concat (map parse_setting (map (\<lambda>(k, v). query_escape k @ ''='' @ query_escape v) xs)) = xs" for xs
    by (induction xs) (auto simp: parse_setting_encoded)
  ultimately show ?thesis by (simp add: parse_query_def)
qed

lemma encode_no_sep: "c \<in> {CHR '' '', CHR ''?''} \<Longrightarrow> c \<notin> set (encode_values q)"
proof -
  assume c: "c \<in> {CHR '' '', CHR ''?''}"
  then have "c \<notin> set (query_escape k @ ''='' @ query_escape v)" for k v using escape_no_sep [of c] by auto
  with c set_join_with [of "''&''" "map (\<lambda>(k, v). query_escape k @ ''='' @ query_escape v) (sort_key fst q)"]
  show ?thesis unfolding encode_values_def by fastforce
qed

end
