(* ===== verification/LoConnect.thy ===== *)
theory LoConnect
  imports LoAddr LoProc GoURL
begin

text \<open>
  The \<open>/connect\<close> endpoint: \<open>parseListenParams\<close> and \<open>handleConnect\<close> of \<open>internal/lo/server.go\<close>, and the
  caller's side \<open>dialConnect\<close> of \<open>internal/lo/client.go\<close>. The HTTP server between them (package
  \<open>net/http\<close>) chooses the handler by the path of the request line and hands it the query.
\<close>

section \<open>Parameters\<close>

datatype param_error = BadStack string | BadProto string | BadPort string | BadAddr string | StackMismatch string Stack

definition parseListenParams :: "url_values \<Rightarrow> (param_error, Listen) result" where
  "parseListenParams q =
     (let stack = values_get q ''stack'' in
      if stack \<noteq> V4 \<and> stack \<noteq> V6 then Inl (BadStack stack)
      else
        let proto = values_get q ''proto'' in
        if proto \<noteq> TCP \<and> proto \<noteq> UDP then Inl (BadProto proto)
        else
          (case parse_uint (values_get q ''port'') 10 16 of
             Inl e \<Rightarrow> Inl (BadPort (values_get q ''port''))
           | Inr port \<Rightarrow>
               let addr = values_get q ''addr'' in
               if \<not> isLoopbackOrUnspecified addr then Inl (BadAddr addr)
               else if \<not> addrMatchesStack stack addr then Inl (StackMismatch addr stack)
               else Inr (Listen stack proto addr (word_of_nat port))))"

section \<open>The handler\<close>

definition crlf :: string where "crlf = [CHR 0x0D, CHR 0x0A]"

definition ok_response :: string where
  "ok_response = ''HTTP/1.1 200 OK'' @ crlf @ ''Connection: close'' @ crlf @ crlf"

definition bad_gateway :: "string \<Rightarrow> string" where
  "bad_gateway err = ''HTTP/1.1 502 Bad Gateway'' @ crlf @ ''Connection: close'' @ crlf @ crlf @ err @ [CHR 0x0A]"

text \<open>
  What the handler does: it answers through the HTTP server with a status code, gives up, or
  writes a response to the hijacked connection itself; after a successful dial it forwards between
  the connection and the target.
\<close>

datatype connect_result =
    HttpError nat
  | HijackFailed
  | DialRefused string
  | Tunnel Proto string string string

text \<open>\<open>hijack\<close>: \<open>None\<close> if the response cannot be hijacked, else whether it succeeded.\<close>

definition handleConnect ::
  "url_values \<Rightarrow> bool option \<Rightarrow> (string \<Rightarrow> string \<Rightarrow> (string, unit) result) \<Rightarrow> connect_result"
where
  "handleConnect q hijack dial =
     (case parseListenParams q of
        Inl e \<Rightarrow> HttpError 400
      | Inr l \<Rightarrow>
          (case hijack of
             None \<Rightarrow> HttpError 500
           | Some False \<Rightarrow> HijackFailed
           | Some True \<Rightarrow>
               (case dial (dialNetwork (l_Stack l) (l_Proto l)) (dialTarget l) of
                  Inl err \<Rightarrow> DialRefused (bad_gateway err)
                | Inr _ \<Rightarrow>
                    Tunnel (l_Proto l) (dialNetwork (l_Stack l) (l_Proto l)) (dialTarget l) ok_response)))"

section \<open>The caller\<close>

text \<open>
  The handler's routes: \<open>http.ServeMux\<close> serves the two patterns at exactly their paths, after sending
  a request for a path that is not clean to the clean one (a trailing slash is kept, so it does
  not match).
\<close>

datatype endpoint = WatchEndpoint | ConnectEndpoint

datatype routed = Serve endpoint | MovedTo string | NoRoute

definition clean_url_path :: "string \<Rightarrow> string" where
  "clean_url_path p =
     (let p0 = (if has_prefix p ''/'' then p else CHR ''/'' # p);
          np = path_clean p0
      in if last p0 = CHR ''/'' \<and> np \<noteq> ''/'' then np @ ''/'' else np)"

definition Handler :: "string \<Rightarrow> routed" where
  "Handler path =
     (if clean_url_path path \<noteq> path then MovedTo (clean_url_path path)
      else if path = ''/watch'' then Serve WatchEndpoint
      else if path = ''/connect'' then Serve ConnectEndpoint
      else NoRoute)"

definition connect_values :: "Listen \<Rightarrow> url_values" where
  "connect_values l =
     [(''stack'', l_Stack l), (''proto'', l_Proto l), (''addr'', l_Addr l), (''port'', itoa (unat (l_Port l)))]"

definition connect_request :: "Listen \<Rightarrow> string" where
  "connect_request l =
     ''POST /connect?'' @ encode_values (connect_values l) @ '' HTTP/1.1'' @ crlf @ ''Host: peel'' @ crlf @ crlf"

text \<open>
  The path of a request line, after its method and up to the question mark, and its query: what
  stands between the question mark and the next space.
\<close>

definition request_path :: "string \<Rightarrow> string" where
  "request_path req = takeWhile (\<lambda>c. c \<noteq> CHR ''?'' \<and> c \<noteq> CHR '' '') (tl (dropWhile (\<lambda>c. c \<noteq> CHR '' '') req))"

definition request_query :: "string \<Rightarrow> url_values" where
  "request_query req =
     parse_query (takeWhile (\<lambda>c. c \<noteq> CHR '' '') (tl (dropWhile (\<lambda>c. c \<noteq> CHR ''?'') req)))"

datatype dial_error = DialFailed | SendFailed | StatusUnreadable | ConnectRefused string | HeadersUnreadable

text \<open>\<open>ReadString('\n')\<close> on the bytes the peer sends before it closes.\<close>

definition read_string :: "string \<Rightarrow> (string \<times> string) option" where
  "read_string s =
     (case cut newline s of (l, r, ok) \<Rightarrow> if ok then Some (l @ [newline], r) else None)"

lemma read_string_shrinks: "read_string s = Some (l, r) \<Longrightarrow> length r < length s"
proof -
  assume "read_string s = Some (l, r)"
  then obtain a where "cut newline s = (a, r, True)" by (auto simp: read_string_def split: prod.splits if_splits)
  with cut_parts [of newline s] show "length r < length s" by (cases "newline \<in> set s") auto
qed

text \<open>Header lines up to the empty one.\<close>

function skip_headers :: "string \<Rightarrow> string option" where
  "skip_headers s =
     (case read_string s of
        None \<Rightarrow> None
      | Some (line, r) \<Rightarrow> if trim_space line = [] then Some r else skip_headers r)"
  by pat_completeness auto
termination
  by (relation "measure length") (auto dest: read_string_shrinks [OF sym] read_string_shrinks)

definition read_connect_response :: "string \<Rightarrow> (dial_error, string) result" where
  "read_connect_response s =
     (case read_string s of
        None \<Rightarrow> Inl StatusUnreadable
      | Some (status, r) \<Rightarrow>
          let fs = GoStrings.fields status in
          if length fs < 2 \<or> fs ! 1 \<noteq> ''200'' then Inl (ConnectRefused (trim_space status))
          else case skip_headers r of None \<Rightarrow> Inl HeadersUnreadable | Some r' \<Rightarrow> Inr r')"

text \<open>
  \<open>dialConnect\<close>: \<open>dial\<close> and \<open>send\<close> say whether connecting to the socket and sending the request
  succeed; \<open>peer\<close> is everything the other side sends in answer to the request. The result is what
  is left to read on the tunnel.
\<close>

definition dialConnect ::
  "bool \<Rightarrow> bool \<Rightarrow> (string \<Rightarrow> string) \<Rightarrow> Listen \<Rightarrow> (dial_error, string) result"
where
  "dialConnect dial send peer l =
     (if \<not> dial then Inl DialFailed
      else if \<not> send then Inl SendFailed
      else read_connect_response (peer (connect_request l)))"

declare skip_headers.simps [simp del]

section \<open>Facts\<close>

lemma parse_port_itoa: "parse_uint (itoa (unat (p :: uint16))) 10 16 = Inr (unat p)"
proof -
  have "unat p < 65536" using unsigned_less [of p] by simp
  then show ?thesis using parse_format [of 10 "unat p" 16] by simp
qed

lemma request_query_connect:
  "request_query (connect_request l) =
     [(''addr'', l_Addr l), (''port'', itoa (unat (l_Port l))), (''proto'', l_Proto l), (''stack'', l_Stack l)]"
proof -
  let ?q = "encode_values (connect_values l)"
  have "dropWhile (\<lambda>c. c \<noteq> CHR ''?'') (connect_request l) = CHR ''?'' # ?q @ '' HTTP/1.1'' @ crlf @ ''Host: peel'' @ crlf @ crlf"
    by (simp add: connect_request_def)
  moreover have "takeWhile (\<lambda>c. c \<noteq> CHR '' '') (?q @ '' HTTP/1.1'' @ crlf @ ''Host: peel'' @ crlf @ crlf) = ?q"
    using takeWhile_append_stop [of ?q "\<lambda>c. c \<noteq> CHR '' ''" "CHR '' ''" "''HTTP/1.1'' @ crlf @ ''Host: peel'' @ crlf @ crlf"]
      encode_no_sep [of "CHR '' ''" "connect_values l"] by fastforce
  ultimately have "request_query (connect_request l) = sort_key fst (connect_values l)"
    using parse_query_encode [of "connect_values l"] by (simp add: request_query_def connect_values_def)
  then show ?thesis by (simp add: connect_values_def less_char_def)
qed

definition connectable :: "Listen \<Rightarrow> bool" where
  "connectable l \<longleftrightarrow>
     l_Stack l \<in> {V4, V6} \<and> l_Proto l \<in> {TCP, UDP} \<and>
     isLoopbackOrUnspecified (l_Addr l) \<and> addrMatchesStack (l_Stack l) (l_Addr l)"

lemma values_get_simps [simp]:
  "values_get [] k = []" "values_get ((k, v) # q) k' = (if k' = k then v else values_get q k')"
  by (simp_all add: values_get_def)

lemma parse_connect_request:
  "parseListenParams (request_query (connect_request l)) = Inr l \<longleftrightarrow> connectable l"
  by (cases l) (auto simp: request_query_connect parseListenParams_def parse_port_itoa connectable_def)

lemma parseListenParams_connectable: "parseListenParams q = Inr l \<Longrightarrow> connectable l"
  by (auto simp: parseListenParams_def connectable_def Let_def split: if_splits sum.splits)

lemma status_fields:
  "GoStrings.fields (''HTTP/1.1 200 OK'' @ crlf) = [''HTTP/1.1'', ''200'', ''OK'']"
  "GoStrings.fields (''HTTP/1.1 502 Bad Gateway'' @ crlf) = [''HTTP/1.1'', ''502'', ''Bad'', ''Gateway'']"
  by (simp_all add: GoStrings.fields_def crlf_def space_len_ascii ascii_space_def less_char_def)

text \<open>Trimming a line that starts with a printable character leaves something.\<close>

lemma space_len_end_bound:
  assumes "CHR 0x20 < c" "c < CHR 0x7F"
  shows "space_len_end (c # s) \<le> length s"
proof (cases "ascii_space (last (c # s))")
  case True
  with plain_not_space [OF assms(1)] have "s \<noteq> []" by auto
  with True show ?thesis by (cases s) (auto simp: space_len_end_def)
next
  case False
  show ?thesis
  proof (cases "find (has_suffix (c # s)) wide_spaces")
    case None
    with False show ?thesis by (simp add: space_len_end_def)
  next
    case (Some w)
    then have w: "w \<in> set wide_spaces" "has_suffix (c # s) w" by (auto simp: find_Some_iff)
    then have pre: "take (length w) (rev (c # s)) = rev w" by (simp add: has_suffix_def has_prefix_def)
    have "length w \<noteq> Suc (length s)"
    proof
      assume "length w = Suc (length s)"
      with pre have "w = c # s" by (metis length_Cons length_rev rev_rev_ident take_all_iff order_refl)
      with wide_spaces_hd [OF w(1)] assms(2) show False by simp
    qed
    moreover have "length w \<le> Suc (length s)"
      using arg_cong [OF pre, of length] by simp
    ultimately show ?thesis using Some False by (simp add: space_len_end_def)
  qed
qed

lemma trim_space_plain:
  assumes "CHR 0x20 < c" "c < CHR 0x7F"
  shows "trim_space (c # s) \<noteq> []"
proof -
  have "trim_right_space (c # s) \<noteq> []"
  proof (induction "length s" arbitrary: s rule: less_induct)
    case less
    let ?k = "space_len_end (c # s)"
    show ?case
    proof (cases "?k = 0")
      case True
      then show ?thesis by (subst trim_right_space.simps) simp
    next
      case False
      have "take (length (c # s) - ?k) (c # s) = c # take (length s - ?k) s"
        using space_len_end_bound [OF assms, of s] by (simp add: Suc_diff_le)
      moreover have "length (take (length s - ?k) s) < length s"
        using False space_len_end_bound [OF assms, of s] by simp
      ultimately show ?thesis using less False by (subst trim_right_space.simps) simp
    qed
  qed
  moreover have "trim_left_space (c # s) = c # s"
    using space_len_ascii [OF assms(2)] plain_not_space [OF assms(1)] by (subst trim_left_space.simps) simp
  ultimately show ?thesis by (simp add: trim_space_def)
qed

lemma trim_space_crlf: "trim_space crlf = []"
proof -
  have "trim_left_space crlf = []"
    by (simp add: trim_left_space.simps crlf_def space_len_ascii ascii_space_def less_char_def)
  moreover have "trim_right_space [] = []" by (simp add: trim_right_space.simps space_len_end_def)
  ultimately show ?thesis by (simp add: trim_space_def)
qed

lemma read_string_line: "newline \<notin> set a \<Longrightarrow> read_string (a @ crlf @ r) = Some (a @ crlf, r)"
  using cut_found [of newline "a @ [carriage_return]" r]
  by (simp add: read_string_def crlf_def newline_def carriage_return_def)

lemma skip_headers_line:
  "read_string s = Some (line, r) \<Longrightarrow> trim_space line \<noteq> [] \<Longrightarrow> skip_headers s = skip_headers r"
  "read_string s = Some (line, r) \<Longrightarrow> trim_space line = [] \<Longrightarrow> skip_headers s = Some r"
  by (simp_all add: skip_headers.simps [of s])

lemma headers_skipped: "skip_headers (''Connection: close'' @ crlf @ crlf @ r) = Some r"
proof -
  have 1: "read_string (''Connection: close'' @ crlf @ crlf @ r) = Some (''Connection: close'' @ crlf, crlf @ r)"
    by (rule read_string_line) (simp add: newline_def)
  have 2: "read_string (crlf @ r) = Some (crlf, r)" using read_string_line [of "[]" r] by (simp add: newline_def)
  have "trim_space (''Connection: close'' @ crlf) \<noteq> []"
    using trim_space_plain [of "CHR ''C''"] by (simp add: less_char_def)
  from skip_headers_line(1) [OF 1 this] skip_headers_line(2) [OF 2 trim_space_crlf] show ?thesis
    by (rule trans)
qed

lemma read_ok_response: "read_connect_response (ok_response @ payload) = Inr payload"
proof -
  have "read_string (ok_response @ payload) =
      Some (''HTTP/1.1 200 OK'' @ crlf, ''Connection: close'' @ crlf @ crlf @ payload)"
    unfolding ok_response_def append_assoc by (rule read_string_line) (simp add: newline_def)
  then show ?thesis
    using status_fields(1) headers_skipped by (simp add: read_connect_response_def)
qed

lemma read_bad_gateway: "\<exists>why. read_connect_response (bad_gateway err) = Inl (ConnectRefused why)"
proof -
  have "read_string (bad_gateway err) =
      Some (''HTTP/1.1 502 Bad Gateway'' @ crlf, ''Connection: close'' @ crlf @ crlf @ err @ [CHR 0x0A])"
    unfolding bad_gateway_def append_assoc by (rule read_string_line) (simp add: newline_def)
  then show ?thesis using status_fields(2) by (simp add: read_connect_response_def)
qed

section \<open>Properties\<close>

text \<open>
  What a query may ask for, in terms of the query's own text: the network and the host:port
  to dial. The host is the address of the query, a loopback address, or the loopback address of
  the family if the query names the unspecified address; either is of the family asked for.
\<close>

definition asks_for :: "url_values \<Rightarrow> string \<Rightarrow> string \<Rightarrow> bool" where
  "asks_for q network target \<longleftrightarrow>
     (\<exists>v6 port ip host. values_get q ''stack'' = (if v6 then ''v6'' else ''v4'') \<and>
        values_get q ''proto'' \<in> {''tcp'', ''udp''} \<and>
        parse_uint (values_get q ''port'') 10 16 = Inr port \<and>
        ParseIP (values_get q ''addr'') = Some ip \<and> (To4 ip = None) = v6 \<and>
        (if IsUnspecified ip then host = (if v6 then ''::1'' else ''127.0.0.1'')
         else IsLoopback ip \<and> host = values_get q ''addr'') \<and>
        network = values_get q ''proto'' @ (if v6 then ''6'' else ''4'') \<and>
        target = (if v6 then ''['' @ host @ '']:'' @ itoa port else host @ '':'' @ itoa port))"

definition loopback_target :: "string \<Rightarrow> bool" where
  "loopback_target target \<longleftrightarrow>
     (\<exists>ip host port. ParseIP host = Some ip \<and> IsLoopback ip \<and>
        target = (if To4 ip = None then ''['' @ host @ '']:'' @ itoa port else host @ '':'' @ itoa port))"

lemma asks_for_loopback:
  assumes "asks_for q network target"
  shows "loopback_target target"
proof -
  have "IP_String IPv6loopback = ''::1''" "IP_String [127, 0, 0, 1] = ''127.0.0.1''"
    "IsLoopback (To16 IPv6loopback)" "IsLoopback (To16 [127, 0, 0, 1])" "length IPv6loopback = 16"
    "To4 (To16 IPv6loopback) = None" "To4 (To16 [127, 0, 0, 1]) \<noteq> None" by code_simp+
  with ParseIP_String [of IPv6loopback] ParseIP_String [of "[127, 0, 0, 1]"]
  have "\<exists>ip. ParseIP ''::1'' = Some ip \<and> IsLoopback ip \<and> To4 ip = None"
    "\<exists>ip. ParseIP ''127.0.0.1'' = Some ip \<and> IsLoopback ip \<and> To4 ip \<noteq> None" by auto
  then obtain a6 a4 where lo: "ParseIP ''::1'' = Some a6" "IsLoopback a6" "To4 a6 = None"
    "ParseIP ''127.0.0.1'' = Some a4" "IsLoopback a4" "To4 a4 \<noteq> None" by blast
  from assms obtain v6 port ip host where A: "ParseIP (values_get q ''addr'') = Some ip" "(To4 ip = None) = v6"
    "if IsUnspecified ip then host = (if v6 then ''::1'' else ''127.0.0.1'') else IsLoopback ip \<and> host = values_get q ''addr''"
    "target = (if v6 then ''['' @ host @ '']:'' @ itoa port else host @ '':'' @ itoa port)"
    by (auto simp only: asks_for_def)
  have "\<exists>ip'. ParseIP host = Some ip' \<and> IsLoopback ip' \<and> (To4 ip' = None) = v6"
    using A(1-3) lo by (cases "IsUnspecified ip"; cases v6) auto
  with A(4) show ?thesis unfolding loopback_target_def by blast
qed

text \<open>What a request that passes the checks dials, spelled out.\<close>

lemma dialed_text:
  assumes "parse_uint s 10 16 = Inr port" "ParseIP addr = Some ip" "stack \<in> {V4, V6}"
  shows "dialNetwork stack proto = proto @ (if stack = V6 then ''6'' else ''4'')"
    "dialTarget (Listen stack proto addr (word_of_nat port)) =
       (let host = (if IsUnspecified ip then (if stack = V6 then ''::1'' else ''127.0.0.1'') else addr)
        in if stack = V6 then ''['' @ host @ '']:'' @ itoa port else host @ '':'' @ itoa port)"
proof -
  have "unat (word_of_nat port :: uint16) = port"
    using parse_uint_bound [OF assms(1)] by (simp add: unat_of_nat)
  then show "dialTarget (Listen stack proto addr (word_of_nat port)) =
       (let host = (if IsUnspecified ip then (if stack = V6 then ''::1'' else ''127.0.0.1'') else addr)
        in if stack = V6 then ''['' @ host @ '']:'' @ itoa port else host @ '':'' @ itoa port)"
    using assms(2) by (simp add: dialTarget_def hostPort_def isUnspecified_def)
qed (simp add: dialNetwork_def)

lemma parsed_asks_for:
  assumes "parseListenParams q = Inr l"
  shows "asks_for q (dialNetwork (l_Stack l) (l_Proto l)) (dialTarget l)"
proof -
  obtain port where p: "parse_uint (values_get q ''port'') 10 16 = Inr port"
    and l: "l = Listen (values_get q ''stack'') (values_get q ''proto'') (values_get q ''addr'') (word_of_nat port)"
    and ok: "values_get q ''stack'' \<in> {V4, V6}" "values_get q ''proto'' \<in> {TCP, UDP}"
      "isLoopbackOrUnspecified (values_get q ''addr'')" "addrMatchesStack (values_get q ''stack'') (values_get q ''addr'')"
    using assms by (auto simp: parseListenParams_def Let_def split: if_splits sum.splits)
  obtain ip where ip: "ParseIP (values_get q ''addr'') = Some ip" using ok(3)
    by (auto simp: isLoopbackOrUnspecified_def split: option.splits)
  let ?v6 = "values_get q ''stack'' = V6"
  have "(To4 ip = None) = ?v6" "values_get q ''stack'' = (if ?v6 then ''v6'' else ''v4'')"
    using ok(1,4) ip by (auto simp: addrMatchesStack_def stack_proto_defs)
  moreover have "values_get q ''proto'' \<in> {''tcp'', ''udp''}" using ok(2) by (simp add: stack_proto_defs)
  moreover have "\<not> IsUnspecified ip \<longrightarrow> IsLoopback ip" using ok(3) ip by (auto simp: isLoopbackOrUnspecified_def)
  ultimately show ?thesis
    unfolding asks_for_def l Listen.sel dialed_text [OF p ip ok(1)] Let_def
    using p ip
    by (intro exI [of _ ?v6] exI [of _ port] exI [of _ ip]
        exI [of _ "if IsUnspecified ip then (if ?v6 then ''::1'' else ''127.0.0.1'') else values_get q ''addr''"]) simp
qed

lemma asks_for_parsed:
  assumes "asks_for q network target"
  shows "\<exists>l. parseListenParams q = Inr l"
proof -
  from assms obtain v6 port ip host where "values_get q ''stack'' = (if v6 then ''v6'' else ''v4'')"
    "values_get q ''proto'' \<in> {''tcp'', ''udp''}" "parse_uint (values_get q ''port'') 10 16 = Inr port"
    and A: "ParseIP (values_get q ''addr'') = Some ip" "(To4 ip = None) = v6" "IsUnspecified ip \<or> IsLoopback ip"
    unfolding asks_for_def by metis
  moreover from this have "isLoopbackOrUnspecified (values_get q ''addr'')"
    "addrMatchesStack (values_get q ''stack'') (values_get q ''addr'')"
    by (auto simp: isLoopbackOrUnspecified_def addrMatchesStack_def stack_proto_defs)
  ultimately show ?thesis by (auto simp: parseListenParams_def stack_proto_defs)
qed

text \<open>
  C11. \<open>/connect\<close> reaches local services only, and the one asked for. When the handler forwards,
  it has dialed, with the protocol of the query, the port of the query at the address of the query, a
  loopback address of the family of the query, or at that family's loopback address if the query
  names the unspecified one; what it reports as refused is such a target too. A query that asks for
  no such target is answered with status 400, and nothing is dialed.
\<close>

theorem connect_only_local:
  "case handleConnect q (Some True) dial of
     Tunnel proto network target resp \<Rightarrow>
       proto = values_get q ''proto'' \<and> asks_for q network target \<and> loopback_target target \<and>
       dial network target = Inr ()
   | DialRefused resp \<Rightarrow>
       (\<exists>network target err. asks_for q network target \<and> loopback_target target \<and>
          dial network target = Inl err \<and> resp = bad_gateway err)
   | HttpError code \<Rightarrow> code = 400 \<and> (\<nexists>network target. asks_for q network target)
   | HijackFailed \<Rightarrow> False"
proof (cases "parseListenParams q")
  case (Inl e)
  then have "\<not> asks_for q network target" for network target using asks_for_parsed [of q network target] by auto
  with Inl show ?thesis by (simp add: handleConnect_def)
next
  case (Inr l)
  let ?n = "dialNetwork (l_Stack l) (l_Proto l)"
  have a: "asks_for q ?n (dialTarget l)" using Inr by (rule parsed_asks_for)
  moreover have "l_Proto l = values_get q ''proto''"
    using Inr by (auto simp: parseListenParams_def Let_def split: if_splits sum.splits)
  ultimately show ?thesis
    using Inr asks_for_loopback [OF a]
    by (cases "dial ?n (dialTarget l)") (auto simp: handleConnect_def)
qed

text \<open>What the handler's side sends in answer to a request, and then forwards.\<close>

definition connect_peer :: "(string \<Rightarrow> string \<Rightarrow> (string, unit) result) \<Rightarrow> string \<Rightarrow> string \<Rightarrow> string" where
  "connect_peer dial payload req =
     (if Handler (request_path req) \<noteq> Serve ConnectEndpoint then ''HTTP/1.1 404 Not Found'' @ crlf @ crlf
      else
        case handleConnect (request_query req) (Some True) dial of
          Tunnel proto network target resp \<Rightarrow> resp @ payload
        | DialRefused resp \<Rightarrow> resp
        | _ \<Rightarrow> ''HTTP/1.1 400 Bad Request'' @ crlf @ crlf)"

lemma connect_routed: "Handler (request_path (connect_request l)) = Serve ConnectEndpoint"
proof -
  have "request_path (connect_request l) = ''/connect''" by (simp add: request_path_def connect_request_def)
  moreover have "Handler ''/connect'' = Serve ConnectEndpoint" by code_simp
  ultimately show ?thesis by simp
qed

text \<open>
  The two ends of \<open>/connect\<close> agree. For a socket that can be asked for (a known family and
  protocol, a loopback or unspecified address of that family) the request \<open>dialConnect\<close> sends is
  read by the peer's handler as exactly that socket; if the peer's dial succeeds the caller gets a
  tunnel whose first byte is the first one the peer forwards, and if it fails the caller sees a
  refusal.
\<close>

lemma connect_end_to_end:
  assumes "connectable l"
  shows "handleConnect (request_query (connect_request l)) (Some True) dial =
      (case dial (dialNetwork (l_Stack l) (l_Proto l)) (dialTarget l) of
         Inl err \<Rightarrow> DialRefused (bad_gateway err)
       | Inr _ \<Rightarrow> Tunnel (l_Proto l) (dialNetwork (l_Stack l) (l_Proto l)) (dialTarget l) ok_response) \<and>
    (case dial (dialNetwork (l_Stack l) (l_Proto l)) (dialTarget l) of
       Inl err \<Rightarrow> (\<exists>why. dialConnect True True (connect_peer dial payload) l = Inl (ConnectRefused why))
     | Inr _ \<Rightarrow> dialConnect True True (connect_peer dial payload) l = Inr payload)"
proof -
  have "parseListenParams (request_query (connect_request l)) = Inr l"
    using assms parse_connect_request by blast
  then show ?thesis
    using read_ok_response read_bad_gateway
    by (auto simp: handleConnect_def dialConnect_def connect_peer_def connect_routed split: sum.splits)
qed

text \<open>
  C31. What one container reads from its kernel another can connect to: a socket found in the
  table of its own address family is accepted by \<open>/connect\<close> unless it is an IPv4-mapped IPv6
  address. Such an address (\<open>::ffff:127.0.0.1\<close>, a dual-stack socket bound to the IPv4 loopback) is
  announced as a v6 socket with a dotted IPv4 address, and \<open>/connect\<close> rejects every request for
  it.
\<close>

theorem scanned_sockets_connectable:
  assumes "GoStrings.fields line = f0 # (kernel_ip ip @ '':'' @ kernel_port port) # f2 # st # rest"
    and "length ip = (if stack = V4 then 4 else 16)" "stack \<in> {V4, V6}" "proto \<in> {TCP, UDP}"
    and "parseProcNetLine line proto stack = Inr (Some l)"
  shows "parseListenParams (request_query (connect_request l)) = Inr l \<longleftrightarrow> stack = V4 \<or> To4 ip = None"
proof -
  have len: "length ip = 4 \<or> length ip = 16" using assms(2) by (simp split: if_splits)
  then have "length ip mod 4 = 0" by auto
  with kernel_line [OF assms(1)] assms(5) have loc: "IsLoopback ip \<or> IsUnspecified ip" and
    l: "l = Listen stack proto (IP_String ip) port"
    by (auto split: if_splits)
  have "V4 \<noteq> V6" by (simp add: stack_proto_defs)
  then show ?thesis
    unfolding parse_connect_request
    using assms(2-4) loc l String_tests [OF len] by (auto simp: connectable_def To4_def split: if_splits)
qed

lemma scanned_sockets_connectable_witness:
  "parseListenParams (request_query (connect_request (Listen V4 TCP ''127.0.0.1'' 8080))) =
     Inr (Listen V4 TCP ''127.0.0.1'' 8080)"
proof -
  have "parseProcNetLine demo_line TCP V4 = Inr (Some (Listen V4 TCP ''127.0.0.1'' 8080))"
    using kernel_line [OF demo_line_fields, of TCP V4] demo_line_parsed by simp
  from scanned_sockets_connectable [OF demo_line_fields _ _ _ this] show ?thesis by simp
qed

text \<open>The same on a dual-stack socket bound to the IPv4 loopback address.\<close>

lemma mapped_loopback_rejected:
  assumes "ip = v4InV6Prefix @ [127, 0, 0, 1]"
    and "GoStrings.fields line = f0 # (kernel_ip ip @ '':'' @ kernel_port port) # f2 # ''0A'' # rest"
  shows "\<exists>l. parseProcNetLine line TCP V6 = Inr (Some l) \<and> l_Stack l = V6 \<and> l_Addr l = ''127.0.0.1'' \<and>
    parseListenParams (request_query (connect_request l)) \<noteq> Inr l"
proof -
  have *: "right_state TCP ''0A''" "IsLoopback ip" "IP_String ip = ''127.0.0.1''" "length ip = 16" "To4 ip \<noteq> None"
    unfolding assms(1) by code_simp+
  then have "length ip mod 4 = 0" by simp
  from kernel_line [OF assms(2) this, of TCP V6] * have
    p: "parseProcNetLine line TCP V6 = Inr (Some (Listen V6 TCP ''127.0.0.1'' port))" by simp
  have "V4 \<noteq> V6" by (simp add: stack_proto_defs)
  then have "\<not> connectable (Listen V6 TCP ''127.0.0.1'' port)"
    using String_tests(3) [of ip V6] * by (auto simp: connectable_def)
  with p parse_connect_request show ?thesis by auto
qed

end
