(* ===== verification/LoFrame.thy ===== *)
theory LoFrame
  imports Prelude "HOL-Library.Sublist"
begin

text \<open>
  Framing of UDP datagrams over a tunnel connection: \<open>internal/lo/frame.go\<close>, and the two
  forwarding loops of \<open>pipeUDPServer\<close> in \<open>internal/lo/pipe.go\<close>.

  A connection is seen from its two ends. The writing end (\<open>writer\<close>) keeps the bytes that went
  out and how many more it takes before it fails; a write that does not fit goes out in part,
  as a broken connection's does. The reading end is the list of bytes still to come, after which
  the connection is closed. \<open>readFrame\<close> returns a slice of the caller's buffer; every caller
  uses it up before the next read, so only the buffer's length is modelled.
\<close>

section \<open>The interface of a self-delimiting codec\<close>

text \<open>
  What a forwarding loop relies on: decoding what was encoded gives the value back and leaves
  the bytes behind it alone, and a strict prefix of an encoding never decodes.
\<close>

locale stream_codec =
  fixes enc :: "'a \<Rightarrow> byte list"
    and dec :: "byte list \<Rightarrow> ('e, 'a) result \<times> byte list"
    and ok :: "'a \<Rightarrow> bool"
  assumes dec_enc: "ok a \<Longrightarrow> dec (enc a @ rest) = (Inr a, rest)"
    and dec_cut: "ok a \<Longrightarrow> k < length (enc a) \<Longrightarrow> \<exists>e rest. dec (take k (enc a)) = (Inl e, rest)"
    and dec_shrinks: "dec s = (Inr a, rest) \<Longrightarrow> length rest < length s"
begin

text \<open>Decoding until the first error: the values read.\<close>

function dec_all :: "byte list \<Rightarrow> 'a list" where
  "dec_all s = (case dec s of (Inl e, _) \<Rightarrow> [] | (Inr a, rest) \<Rightarrow> a # dec_all rest)"
  by pat_completeness auto
termination
  by (relation "measure length") (auto intro: dec_shrinks [OF sym])

declare dec_all.simps [simp del]

lemma dec_all_enc: "ok a \<Longrightarrow> dec_all (enc a @ rest) = a # dec_all rest"
  by (subst dec_all.simps) (simp add: dec_enc)

lemma dec_all_concat:
  "\<forall>a \<in> set xs. ok a \<Longrightarrow> dec_all (concat (map enc xs) @ rest) = xs @ dec_all rest"
  by (induction xs) (auto simp: dec_all_enc)

lemma dec_all_cut: "ok a \<Longrightarrow> k < length (enc a) \<Longrightarrow> dec_all (take k (enc a)) = []"
  by (subst dec_all.simps) (auto dest: dec_cut)

text \<open>However a stream of encoded values is cut, what decodes is a prefix of the values.\<close>

lemma dec_all_prefix:
  "\<forall>a \<in> set xs. ok a \<Longrightarrow> prefix (dec_all (take k (concat (map enc xs)))) xs"
proof (induction xs arbitrary: k)
  case Nil
  have "dec_all [] = []"
    by (subst dec_all.simps) (auto split: prod.splits sum.splits dest: dec_shrinks)
  then show ?case by simp
next
  case (Cons a xs)
  then have a: "ok a" by simp
  show ?case
  proof (cases "k < length (enc a)")
    case True
    then show ?thesis by (simp add: dec_all_cut [OF a])
  next
    case False
    then have "take k (concat (map enc (a # xs))) =
        enc a @ take (k - length (enc a)) (concat (map enc xs))"
      by simp
    with Cons show ?thesis by (simp add: dec_all_enc [OF a])
  qed
qed

end

section \<open>Connections\<close>

record writer =
  w_out :: "byte list"
  w_room :: "nat option"

text \<open>One \<open>Write\<close> call: whether it succeeded, and the connection after it.\<close>

definition conn_write :: "writer \<Rightarrow> byte list \<Rightarrow> bool \<times> writer" where
  "conn_write w b =
     (case w_room w of
        None \<Rightarrow> (True, w\<lparr>w_out := w_out w @ b\<rparr>)
      | Some r \<Rightarrow>
          (length b \<le> r, w\<lparr>w_out := w_out w @ take r b, w_room := Some (r - length b)\<rparr>))"

datatype frame_error =
    FrameWriteFailed
  | FrameEOF
  | FrameUnexpectedEOF
  | FrameTooLarge nat nat

text \<open>\<open>io.ReadFull\<close> into a slice of \<open>n\<close> bytes.\<close>

definition read_full :: "nat \<Rightarrow> byte list \<Rightarrow> (frame_error, byte list) result \<times> byte list" where
  "read_full n s =
     (if n \<le> length s then (Inr (take n s), drop n s)
      else if s = [] then (Inl FrameEOF, [])
      else (Inl FrameUnexpectedEOF, []))"

section \<open>frame.go\<close>

definition maxDatagram :: nat where
  "maxDatagram = 65535"

text \<open>\<open>binary.BigEndian.PutUint32\<close> and \<open>Uint32\<close>.\<close>

definition put_uint32 :: "uint32 \<Rightarrow> byte list" where
  "put_uint32 v = [ucast (drop_bit 24 v), ucast (drop_bit 16 v), ucast (drop_bit 8 v), ucast v]"

definition get_uint32 :: "byte list \<Rightarrow> uint32" where
  "get_uint32 b =
     ucast (b ! 3) OR push_bit 8 (ucast (b ! 2)) OR push_bit 16 (ucast (b ! 1))
       OR push_bit 24 (ucast (b ! 0))"

definition writeFrame :: "writer \<Rightarrow> byte list \<Rightarrow> frame_error option \<times> writer" where
  "writeFrame w b =
     (let hdr = put_uint32 (word_of_nat (length b)) in
      case conn_write w hdr of
        (False, w1) \<Rightarrow> (Some FrameWriteFailed, w1)
      | (True, w1) \<Rightarrow>
          if length b = 0 then (None, w1)
          else case conn_write w1 b of
                 (False, w2) \<Rightarrow> (Some FrameWriteFailed, w2)
               | (True, w2) \<Rightarrow> (None, w2))"

definition readFrame :: "nat \<Rightarrow> byte list \<Rightarrow> (frame_error, byte list) result \<times> byte list" where
  "readFrame buflen s =
     (case read_full 4 s of
        (Inl e, s1) \<Rightarrow> (Inl e, s1)
      | (Inr hdr, s1) \<Rightarrow>
          let n = unat (get_uint32 hdr) in
          if n > buflen then (Inl (FrameTooLarge n buflen), s1)
          else if n = 0 then (Inr [], s1)
          else case read_full n s1 of
                 (Inl e, s2) \<Rightarrow> (Inl e, s2)
               | (Inr b, s2) \<Rightarrow> (Inr b, s2))"

section \<open>The forwarding loops\<close>

lemma readFrame_shrinks: "readFrame m s = (Inr b, rest) \<Longrightarrow> length rest < length s"
  by (auto simp: readFrame_def read_full_def Let_def split: prod.splits sum.splits if_splits)

text \<open>
  The reading loop of \<open>pipeUDPServer\<close> and of \<open>udpReturnLoop\<close>: frames are read from the tunnel and
  written to the socket until a read or a write fails. \<open>ws\<close> is how many writes to the socket
  succeed before one fails (\<open>None\<close>: all do).
\<close>

function tunnel_to_socket :: "nat option \<Rightarrow> byte list \<Rightarrow> byte list list" where
  "tunnel_to_socket ws s =
     (case readFrame maxDatagram s of
        (Inl e, _) \<Rightarrow> []
      | (Inr b, rest) \<Rightarrow>
          (case ws of
             None \<Rightarrow> b # tunnel_to_socket None rest
           | Some 0 \<Rightarrow> []
           | Some (Suc m) \<Rightarrow> b # tunnel_to_socket (Some m) rest))"
  by pat_completeness auto
termination
  by (relation "measure (\<lambda>(ws, s). length s)") (auto intro: readFrame_shrinks [OF sym])

declare tunnel_to_socket.simps [simp del]

text \<open>
  The writing loop of \<open>pipeUDPServer\<close>: each datagram the socket receives (cut to the buffer, as
  \<open>Read\<close> does) is framed onto the tunnel, until the socket or the tunnel fails.
\<close>

fun socket_to_tunnel :: "byte list list \<Rightarrow> writer \<Rightarrow> writer" where
  "socket_to_tunnel [] w = w"
| "socket_to_tunnel (d # ds) w =
     (case writeFrame w (take maxDatagram d) of
        (Some e, w1) \<Rightarrow> w1
      | (None, w1) \<Rightarrow> socket_to_tunnel ds w1)"

section \<open>A frame and its bytes\<close>

definition frame_bytes :: "byte list \<Rightarrow> byte list" where
  "frame_bytes b = put_uint32 (word_of_nat (length b)) @ b"

lemma length_put_uint32 [simp]: "length (put_uint32 v) = 4"
  by (simp add: put_uint32_def)

lemma get_put_uint32 [simp]: "get_uint32 (put_uint32 v @ s) = v"
proof (rule bit_word_eqI)
  fix n :: nat
  assume "n < LENGTH(32)"
  then consider "n < 8" | "8 \<le> n" "n < 16" | "16 \<le> n" "n < 24" | "24 \<le> n" "n < 32"
    by fastforce
  then show "bit (get_uint32 (put_uint32 v @ s)) n = bit v n"
    by cases (simp_all add: get_uint32_def put_uint32_def bit_simps less_diff_conv2, arith?)
qed

lemma readFrame_frame_bytes:
  assumes "length b \<le> m" and "length b < 2 ^ 32"
  shows "readFrame m (frame_bytes b @ rest) = (Inr b, rest)"
proof -
  have "unat (word_of_nat (length b) :: uint32) = length b"
    using assms(2) by (simp add: unat_of_nat_small)
  moreover have "read_full 4 (frame_bytes b @ rest) = (Inr (put_uint32 (word_of_nat (length b))), b @ rest)"
    by (simp add: read_full_def frame_bytes_def)
  ultimately show ?thesis
    using assms(1) get_put_uint32 [of "word_of_nat (length b)" "[]"]
    by (auto simp: readFrame_def read_full_def Let_def)
qed

lemma readFrame_cut:
  assumes "length b < 2 ^ 32" and "k < length (frame_bytes b)"
  shows "\<exists>e rest. readFrame m (take k (frame_bytes b)) = (Inl e, rest)"
proof (cases "k < 4")
  case True
  then show ?thesis
    by (auto simp: readFrame_def read_full_def frame_bytes_def)
next
  case False
  have n: "unat (word_of_nat (length b) :: uint32) = length b"
    using assms(1) by (simp add: unat_of_nat_small)
  from False have "read_full 4 (take k (frame_bytes b)) =
      (Inr (put_uint32 (word_of_nat (length b))), take (k - 4) b)"
    by (simp add: read_full_def frame_bytes_def min_def)
  moreover have "k - 4 < length b" using False assms(2) by (simp add: frame_bytes_def)
  ultimately show ?thesis
    using n get_put_uint32 [of "word_of_nat (length b)" "[]"]
    by (auto simp: readFrame_def read_full_def Let_def)
qed

interpretation frame: stream_codec frame_bytes "readFrame maxDatagram" "\<lambda>b. length b \<le> maxDatagram"
proof unfold_locales
  show "readFrame maxDatagram (frame_bytes a @ rest) = (Inr a, rest)"
    if "length a \<le> maxDatagram" for a rest
    using that by (intro readFrame_frame_bytes) (auto simp: maxDatagram_def)
  show "\<exists>e rest. readFrame maxDatagram (take k (frame_bytes a)) = (Inl e, rest)"
    if "length a \<le> maxDatagram" "k < length (frame_bytes a)" for a k
    using that by (intro readFrame_cut) (auto simp: maxDatagram_def)
qed (rule readFrame_shrinks)

lemma writeFrame_unlimited:
  "w_room w = None \<Longrightarrow> writeFrame w b = (None, w\<lparr>w_out := w_out w @ frame_bytes b\<rparr>)"
  by (simp add: writeFrame_def conn_write_def frame_bytes_def Let_def)

lemma tunnel_to_socket_all: "tunnel_to_socket None s = frame.dec_all s"
proof (induction s rule: frame.dec_all.induct)
  case (1 s)
  then show ?case
    by (subst tunnel_to_socket.simps, subst frame.dec_all.simps)
      (auto split: prod.splits sum.splits)
qed

lemma tunnel_to_socket_prefix: "prefix (tunnel_to_socket ws s) (frame.dec_all s)"
proof (induction ws s rule: tunnel_to_socket.induct)
  case (1 ws s)
  show ?case
    apply (subst tunnel_to_socket.simps, subst frame.dec_all.simps)
    using 1 by (auto split: prod.splits sum.splits option.splits nat.splits)
qed

text \<open>What the writing loop leaves on the tunnel: whole frames, the last one possibly cut.\<close>

lemma writeFrame_out:
  "\<exists>k. w_out (snd (writeFrame w b)) = w_out w @ take k (frame_bytes b) \<and>
     (fst (writeFrame w b) = None \<longrightarrow> length (frame_bytes b) \<le> k)"
proof (cases "w_room w")
  case None
  then show ?thesis
    by (intro exI [of _ "length (frame_bytes b)"]) (simp add: writeFrame_unlimited)
next
  case (Some r)
  then show ?thesis
    by (intro exI [of _ r])
      (auto simp: writeFrame_def conn_write_def frame_bytes_def Let_def split: bool.splits)
qed

lemma socket_to_tunnel_out:
  "\<exists>k. w_out (socket_to_tunnel ds w) =
     w_out w @ take k (concat (map (\<lambda>d. frame_bytes (take maxDatagram d)) ds))"
proof (induction ds arbitrary: w)
  case (Cons d ds)
  let ?b = "take maxDatagram d"
  obtain r w1 where wf: "writeFrame w ?b = (r, w1)" by fastforce
  from writeFrame_out [of w ?b] wf obtain k where
    k: "w_out w1 = w_out w @ take k (frame_bytes ?b)" "r = None \<longrightarrow> length (frame_bytes ?b) \<le> k"
    by auto
  show ?case
  proof (cases r)
    case None
    from Cons.IH [of w1] obtain k' where
      "w_out (socket_to_tunnel ds w1) = w_out w1 @ take k' (concat (map (\<lambda>d. frame_bytes (take maxDatagram d)) ds))"
      by blast
    with None k wf show ?thesis
      by (intro exI [of _ "length (frame_bytes ?b) + k'"]) simp
  next
    case (Some e)
    with k wf show ?thesis
      by (intro exI [of _ "min k (length (frame_bytes ?b))"]) (simp add: min_def)
  qed
qed simp

text \<open>However a stream of frames is cut and whenever the socket fails, whole datagrams come out, in order.\<close>

lemma cut_frames_prefix:
  "prefix (tunnel_to_socket ws (take k (concat (map (\<lambda>d. frame_bytes (take maxDatagram d)) ds)))) (map (take maxDatagram) ds)"
proof -
  have "prefix (frame.dec_all (take k (concat (map frame_bytes (map (take maxDatagram) ds))))) (map (take maxDatagram) ds)"
    by (rule frame.dec_all_prefix) auto
  then show ?thesis by (auto simp: comp_def intro: prefix_order.trans [OF tunnel_to_socket_prefix])
qed

lemma cut_tunnel_prefix:
  "prefix (tunnel_to_socket ws (take k (w_out (socket_to_tunnel ds \<lparr>w_out = [], w_room = room\<rparr>))))
     (map (take maxDatagram) ds)"
proof -
  obtain j where "w_out (socket_to_tunnel ds \<lparr>w_out = [], w_room = room\<rparr>) =
      take j (concat (map (\<lambda>d. frame_bytes (take maxDatagram d)) ds))"
    using socket_to_tunnel_out [of ds "\<lparr>w_out = [], w_room = room\<rparr>"] by auto
  then show ?thesis using cut_frames_prefix [of ws "min k j" ds] by simp
qed

section \<open>Properties\<close>

text \<open>
  C24. Datagram framing round trip. Whatever list of datagrams of at most \<open>maxDatagram\<close> bytes the
  writing loop frames onto a tunnel that takes every byte, the reading loop at the other end
  writes exactly those datagrams, in order and with their boundaries, to its socket.
\<close>

theorem udp_tunnel_roundtrip:
  assumes "\<forall>d \<in> set ds. length d \<le> maxDatagram"
  shows "tunnel_to_socket None (w_out (socket_to_tunnel ds \<lparr>w_out = [], w_room = None\<rparr>)) = ds"
proof -
  have "w_out (socket_to_tunnel ds w) = w_out w @ concat (map frame_bytes ds)"
    if "w_room w = None" for w
    using that assms by (induction ds arbitrary: w) (auto simp: writeFrame_unlimited)
  then have "w_out (socket_to_tunnel ds \<lparr>w_out = [], w_room = None\<rparr>) = concat (map frame_bytes ds) @ []"
    by simp
  moreover have "frame.dec_all [] = []"
    by (subst frame.dec_all.simps) (simp add: readFrame_def read_full_def)
  ultimately show ?thesis
    using assms frame.dec_all_concat [of ds "[]"] by (simp add: tunnel_to_socket_all)
qed

theorem udp_tunnel_roundtrip_witness:
  "tunnel_to_socket None
     (w_out (socket_to_tunnel [[1, 2, 3], [], [255]] \<lparr>w_out = [], w_room = None\<rparr>)) =
   [[1, 2, 3], [], [255]]"
  by (rule udp_tunnel_roundtrip) (simp add: maxDatagram_def)

text \<open>What one frame costs, and how long it can be.\<close>

lemma readFrame_bounds: "readFrame m s = (Inr b, rest) \<Longrightarrow> length b \<le> m \<and> length s = 4 + length b + length rest"
  by (auto simp: readFrame_def read_full_def Let_def split: prod.splits sum.splits if_splits)

text \<open>
  C26. Frames are bounded. Whatever bytes a peer sends, no datagram longer than the buffer is
  delivered and nothing is delivered that was not received: the datagrams and their headers take
  no more bytes than came. The length a frame announces is that of the datagram, so that the
  conversion to 32 bits never wraps around on the sending side.
\<close>

theorem frames_bounded:
  "list_all (\<lambda>b. length b \<le> maxDatagram) (tunnel_to_socket ws s) \<and>
   sum_list (map (\<lambda>b. 4 + length b) (tunnel_to_socket ws s)) \<le> length s \<and>
   unat (get_uint32 (w_out (snd (writeFrame \<lparr>w_out = [], w_room = None\<rparr> (take maxDatagram d))))) =
     length (take maxDatagram d)"
proof -
  have "list_all (\<lambda>b. length b \<le> maxDatagram) (tunnel_to_socket ws s) \<and>
      sum_list (map (\<lambda>b. 4 + length b) (tunnel_to_socket ws s)) \<le> length s"
  proof (induction ws s rule: tunnel_to_socket.induct)
    case (1 ws s)
    obtain r rest where r: "readFrame maxDatagram s = (r, rest)" by fastforce
    show ?case
    proof (cases r)
      case (Inl e)
      with r show ?thesis by (subst (1 2) tunnel_to_socket.simps) simp
    next
      case (Inr b)
      note B = readFrame_bounds [OF r [unfolded Inr]]
      show ?thesis using 1(1,2) [OF r [symmetric] Inr] B r Inr
        by (subst (1 2) tunnel_to_socket.simps) (auto split: option.split nat.split)
    qed
  qed
  moreover have "length (take maxDatagram d) < 2 ^ 32" by (simp add: maxDatagram_def)
  then have "unat (word_of_nat (length (take maxDatagram d)) :: uint32) = length (take maxDatagram d)"
    by (intro unat_of_nat_small) simp
  ultimately show ?thesis by (simp add: writeFrame_unlimited frame_bytes_def)
qed

end
