(* ===== verification/LoProxy.thy ===== *)
theory LoProxy
  imports LoWatcher LoConnect LoFrame
begin

text \<open>
  Proxies, \<open>internal/lo/proxy.go\<close>: a local listener that stands for a socket of a peer. Starting one
  excludes the socket from the watcher's reports, closing it includes it again. The operating
  system's answer to a bind is an argument (\<open>can_bind\<close>, by network and address). TCP connections are
  accepted or rejected one by one; UDP datagrams are sorted into sessions, one tunnel per source
  address. Each round of a goroutine is one step: a tunnel that another goroutine closes between
  the release of the session table's mutex and the write of the frame is, in the model, a tunnel
  whose writer fails.
\<close>

section \<open>Starting and closing\<close>

record Proxy =
  p_listen :: Listen
  p_peer :: string

datatype proxy_error = BindFailed string string | UnknownProto Proto

definition StartProxy ::
  "(string \<Rightarrow> string \<Rightarrow> bool) \<Rightarrow> string \<Rightarrow> Listen \<Rightarrow> Watcher \<Rightarrow> (proxy_error, Proxy) result \<times> Watcher"
where
  "StartProxy can_bind peerSock l w =
     (let w1 = Exclude l w;
          fail = (\<lambda>e. (Inl e, Unexclude l w1));
          p = \<lparr>p_listen = l, p_peer = peerSock\<rparr>;
          addr = bindAddr l
      in if l_Proto l = TCP then
           (if can_bind (dialNetwork (l_Stack l) TCP) addr then (Inr p, w1)
            else fail (BindFailed (dialNetwork (l_Stack l) TCP) addr))
         else if l_Proto l = UDP then
           (if can_bind (dialNetwork (l_Stack l) UDP) addr then (Inr p, w1)
            else fail (BindFailed (dialNetwork (l_Stack l) UDP) addr))
         else fail (UnknownProto (l_Proto l)))"

definition proxy_Close :: "Proxy \<Rightarrow> Watcher \<Rightarrow> Watcher" where
  "proxy_Close p w = Unexclude (p_listen p) w"

section \<open>TCP\<close>

definition rejectsRemote :: "Proxy \<Rightarrow> net_addr \<Rightarrow> bool" where
  "rejectsRemote p remote \<longleftrightarrow> isUnspecified (l_Addr (p_listen p)) \<and> \<not> isLocalPeer remote"

text \<open>
  \<open>acceptLoop\<close> on what \<open>Accept\<close> returns, until it fails. A connection that is not rejected is served
  with the tunnel \<open>dialConnect\<close> gives, if it gives one.
\<close>

datatype accept = Accepted net_addr "(dial_error, string) result" | AcceptFailed

datatype served = Rejected net_addr | TunnelFailed net_addr dial_error | Piped net_addr

fun acceptLoop :: "Proxy \<Rightarrow> accept list \<Rightarrow> served list" where
  "acceptLoop p [] = []"
| "acceptLoop p (AcceptFailed # as) = []"
| "acceptLoop p (Accepted remote dialed # as) =
     (if rejectsRemote p remote then Rejected remote
      else case dialed of Inl e \<Rightarrow> TunnelFailed remote e | Inr _ \<Rightarrow> Piped remote) # acceptLoop p as"

section \<open>UDP\<close>

text \<open>
  A session: the source address it belongs to, its tunnel (the writing end, and whether it is
  open) and the time of the last traffic. Sessions live in a table; \<open>u_sessions\<close> is the map from
  address strings, as an association list, in which a session may be missing that still exists. \<open>u_replies\<close> is what went
  out of the local socket.
\<close>

record session =
  s_addr :: net_addr
  s_tunnel :: writer
  s_open :: bool
  s_lastActive :: int

record udp =
  u_sessions :: "(string \<times> nat) list"
  u_table :: "nat \<rightharpoonup> session"
  u_next :: nat
  u_replies :: "(net_addr \<times> byte list) list"
  u_running :: bool

definition udp_start :: udp where
  "udp_start = \<lparr>u_sessions = [], u_table = Map.empty, u_next = 0, u_replies = [], u_running = True\<rparr>"

definition udpSessionIdle :: int where "udpSessionIdle = 2 * 60 * 1000000000"
definition udpSessionSweep :: int where "udpSessionSweep = 30 * 1000000000"

definition upd_session :: "nat \<Rightarrow> (session \<Rightarrow> session) \<Rightarrow> udp \<Rightarrow> udp" where
  "upd_session i f u = u\<lparr>u_table := (u_table u)(i := map_option f (u_table u i))\<rparr>"

definition touch :: "int \<Rightarrow> nat \<Rightarrow> udp \<Rightarrow> udp" where
  "touch now i u = upd_session i (\<lambda>s. s\<lparr>s_lastActive := now\<rparr>) u"

definition close_tunnel :: "nat \<Rightarrow> udp \<Rightarrow> udp" where
  "close_tunnel i u = upd_session i (\<lambda>s. s\<lparr>s_open := False\<rparr>) u"

text \<open>\<open>if sessions[key] == sess { delete(sessions, key) }\<close>.\<close>

definition forget :: "string \<Rightarrow> nat \<Rightarrow> udp \<Rightarrow> udp" where
  "forget key i u =
     (if map_of (u_sessions u) key = Some i then
        u\<lparr>u_sessions := filter (\<lambda>e. fst e \<noteq> key) (u_sessions u)\<rparr>
      else u)"

text \<open>
  One datagram read by \<open>udpLoop\<close>. \<open>dialed\<close> is the new tunnel \<open>dialConnect\<close> would give (the writing
  end), \<open>None\<close> if it fails. The buffer holds \<open>maxDatagram\<close> bytes. Writing to a closed tunnel fails.
\<close>

definition find_session :: "net_addr \<Rightarrow> writer option \<Rightarrow> udp \<Rightarrow> (nat \<times> udp) option" where
  "find_session addr dialed u =
     (case map_of (u_sessions u) (net_addr_String addr) of
        Some i \<Rightarrow> Some (i, u)
      | None \<Rightarrow>
          (case dialed of
             None \<Rightarrow> None
           | Some t \<Rightarrow>
               Some (u_next u,
                 u\<lparr>u_sessions := u_sessions u @ [(net_addr_String addr, u_next u)],
                   u_table := (u_table u)(u_next u \<mapsto>
                     \<lparr>s_addr = addr, s_tunnel = t, s_open = True, s_lastActive = 0\<rparr>),
                   u_next := Suc (u_next u)\<rparr>)))"

definition send_frame :: "nat \<Rightarrow> byte list \<Rightarrow> udp \<Rightarrow> bool \<times> udp" where
  "send_frame i payload u =
     (case u_table u i of
        None \<Rightarrow> (False, u)
      | Some s \<Rightarrow>
          if \<not> s_open s then (False, u)
          else case writeFrame (s_tunnel s) payload of
            (e, t) \<Rightarrow> (e = None, upd_session i (\<lambda>s. s\<lparr>s_tunnel := t\<rparr>) u))"

text \<open>
  When sending fails, the session is deleted under the mutex and its tunnel closed after it; both are
  one step here, as no packet finds the session any more once it is deleted.
\<close>

definition udp_packet :: "Proxy \<Rightarrow> int \<Rightarrow> net_addr \<Rightarrow> byte list \<Rightarrow> writer option \<Rightarrow> udp \<Rightarrow> udp" where
  "udp_packet p now addr datagram dialed u =
     (if rejectsRemote p addr then u
      else
        (case find_session addr dialed u of
           None \<Rightarrow> u
         | Some (i, u1) \<Rightarrow>
             (case send_frame i (take maxDatagram datagram) (touch now i u1) of
                (True, u2) \<Rightarrow> u2
              | (False, u2) \<Rightarrow> close_tunnel i (forget (net_addr_String addr) i u2))))"

text \<open>A failing read ends \<open>udpLoop\<close>: it closes the tunnels of all sessions in the map.\<close>

definition udp_read_error :: "udp \<Rightarrow> udp" where
  "udp_read_error u =
     u\<lparr>u_running := False,
       u_table := (\<lambda>i. map_option (\<lambda>s. if i \<in> snd ` set (u_sessions u) then s\<lparr>s_open := False\<rparr> else s) (u_table u i))\<rparr>"

text \<open>
  One round of \<open>udpReturnLoop\<close> for session \<open>i\<close>: a frame came back over the tunnel, and writing it
  to the socket succeeds or not; or reading the tunnel failed. After a failure the session is
  forgotten and its tunnel closed.
\<close>

datatype return_event = Frame "byte list" bool | ReadFailed

definition udp_return :: "int \<Rightarrow> nat \<Rightarrow> return_event \<Rightarrow> udp \<Rightarrow> udp" where
  "udp_return now i ev u =
     (case u_table u i of
        None \<Rightarrow> u
      | Some s \<Rightarrow>
          let finish = (\<lambda>u. close_tunnel i (forget (net_addr_String (s_addr s)) i u)) in
          (case ev of
             ReadFailed \<Rightarrow> finish u
           | Frame b ok \<Rightarrow>
               let u1 = touch now i u in
               if ok then u1\<lparr>u_replies := u_replies u1 @ [(s_addr s, b)]\<rparr> else finish u1))"

text \<open>One sweep of \<open>reapIdleSessions\<close>.\<close>

definition idle :: "int \<Rightarrow> udp \<Rightarrow> nat \<Rightarrow> bool" where
  "idle now u i \<longleftrightarrow>
     (case u_table u i of None \<Rightarrow> False | Some s \<Rightarrow> s_lastActive s < now - udpSessionIdle)"

definition reapIdleSessions :: "int \<Rightarrow> udp \<Rightarrow> udp" where
  "reapIdleSessions now u =
     u\<lparr>u_sessions := filter (\<lambda>e. \<not> idle now u (snd e)) (u_sessions u),
       u_table := (\<lambda>i. map_option (\<lambda>s. if i \<in> snd ` set (u_sessions u) \<and> idle now u i then s\<lparr>s_open := False\<rparr> else s)
         (u_table u i))\<rparr>"


section \<open>Invariant of the sessions\<close>

abbreviation key_of :: "session \<Rightarrow> string" where
  "key_of s \<equiv> net_addr_String (s_addr s)"

definition udp_inv :: "Proxy \<Rightarrow> udp \<Rightarrow> bool" where
  "udp_inv p u \<longleftrightarrow>
     distinct (map fst (u_sessions u)) \<and>
     (\<forall>k i. (k, i) \<in> set (u_sessions u) \<longrightarrow> (\<exists>s. u_table u i = Some s \<and> k = key_of s \<and> (u_running u \<longrightarrow> s_open s))) \<and>
     (\<forall>i s. u_table u i = Some s \<longrightarrow>
        i < u_next u \<and> \<not> rejectsRemote p (s_addr s) \<and>
        (s_open s \<longrightarrow> u_running u \<and> (key_of s, i) \<in> set (u_sessions u))) \<and>
     (\<forall>a b. (a, b) \<in> set (u_replies u) \<longrightarrow> \<not> rejectsRemote p a)"

inductive udp_step :: "Proxy \<Rightarrow> udp \<Rightarrow> udp \<Rightarrow> bool" where
  u_packet: "u_running u \<Longrightarrow> udp_step p u (udp_packet p now addr datagram dialed u)"
| u_frame: "u_table u i = Some s \<Longrightarrow> s_open s \<Longrightarrow> udp_step p u (udp_return now i (Frame b ok) u)"
| u_failed: "udp_step p u (udp_return now i ReadFailed u)"
| u_sweep: "udp_step p u (reapIdleSessions now u)"
| u_error: "udp_step p u (udp_read_error u)"

lemma udp_invI:
  assumes "distinct (map fst (u_sessions u))"
    and "\<And>k i. (k, i) \<in> set (u_sessions u) \<Longrightarrow> \<exists>s. u_table u i = Some s \<and> k = key_of s \<and> (u_running u \<longrightarrow> s_open s)"
    and "\<And>i s. u_table u i = Some s \<Longrightarrow> i < u_next u \<and> \<not> rejectsRemote p (s_addr s) \<and>
        (s_open s \<longrightarrow> u_running u \<and> (key_of s, i) \<in> set (u_sessions u))"
    and "\<And>a b. (a, b) \<in> set (u_replies u) \<Longrightarrow> \<not> rejectsRemote p a"
  shows "udp_inv p u"
  using assms unfolding udp_inv_def by blast

lemma udp_invD:
  assumes "udp_inv p u"
  shows "distinct (map fst (u_sessions u))"
    "(k, i) \<in> set (u_sessions u) \<Longrightarrow> \<exists>s. u_table u i = Some s \<and> k = key_of s \<and> (u_running u \<longrightarrow> s_open s)"
    "u_table u i = Some s \<Longrightarrow> i < u_next u \<and> \<not> rejectsRemote p (s_addr s) \<and>
        (s_open s \<longrightarrow> u_running u \<and> (key_of s, i) \<in> set (u_sessions u))"
    "(a, b) \<in> set (u_replies u) \<Longrightarrow> \<not> rejectsRemote p a"
  using assms unfolding udp_inv_def by auto

text \<open>A change of one session that keeps its address and whether it is open.\<close>

lemma udp_inv_upd:
  assumes "udp_inv p u" "\<And>s. s_addr (f s) = s_addr s" "\<And>s. s_open (f s) = s_open s"
  shows "udp_inv p (upd_session i f u)"
proof (rule udp_invI)
  show "distinct (map fst (u_sessions (upd_session i f u)))"
    using udp_invD(1) [OF assms(1)] by (simp add: upd_session_def)
  show "\<exists>s. u_table (upd_session i f u) j = Some s \<and> k = key_of s \<and> (u_running (upd_session i f u) \<longrightarrow> s_open s)"
    if "(k, j) \<in> set (u_sessions (upd_session i f u))" for k j
    using udp_invD(2) [OF assms(1), of k j] that assms(2,3) by (auto simp: upd_session_def)
  show "j < u_next (upd_session i f u) \<and> \<not> rejectsRemote p (s_addr s) \<and>
      (s_open s \<longrightarrow> u_running (upd_session i f u) \<and> (key_of s, j) \<in> set (u_sessions (upd_session i f u)))"
    if "u_table (upd_session i f u) j = Some s" for j s
    using udp_invD(3) [OF assms(1), of j] that assms(2,3) by (auto simp: upd_session_def split: if_splits)
  show "\<not> rejectsRemote p a" if "(a, b) \<in> set (u_replies (upd_session i f u))" for a b
    using udp_invD(4) [OF assms(1)] that by (simp add: upd_session_def)
qed

lemma touch_inv: "udp_inv p u \<Longrightarrow> udp_inv p (touch now i u)"
  unfolding touch_def by (rule udp_inv_upd) simp_all

text \<open>Forgetting a session and closing its tunnel belong together.\<close>

lemma map_of_in_set: "distinct (map fst xs) \<Longrightarrow> map_of xs k = Some v \<longleftrightarrow> (k, v) \<in> set xs"
  by (simp add: map_of_eq_Some_iff)

lemma finish_inv:
  assumes "udp_inv p u" "u_table u i = Some s" "key = key_of s"
  shows "udp_inv p (close_tunnel i (forget key i u))"
proof -
  note D = udp_invD [OF assms(1)]
  let ?u = "close_tunnel i (forget key i u)"
  have ss: "u_sessions ?u = (if (key, i) \<in> set (u_sessions u) then filter (\<lambda>e. fst e \<noteq> key) (u_sessions u) else u_sessions u)"
    using map_of_in_set [OF D(1)] by (simp add: close_tunnel_def upd_session_def forget_def)
  have tb: "u_table ?u = (u_table u)(i \<mapsto> s\<lparr>s_open := False\<rparr>)"
    and same: "u_next ?u = u_next u" "u_running ?u = u_running u" "u_replies ?u = u_replies u"
    using assms(2) by (auto simp: close_tunnel_def upd_session_def forget_def)
  have mem: "(k, j) \<in> set (u_sessions ?u) \<Longrightarrow> (k, j) \<in> set (u_sessions u) \<and> j \<noteq> i" for k j
    using D(2) [of k j] assms(2,3) ss by (auto split: if_splits)
  have keep: "(k, j) \<in> set (u_sessions u) \<Longrightarrow> j \<noteq> i \<Longrightarrow> (k, j) \<in> set (u_sessions ?u)" for k j
    using eq_key_imp_eq_value [OF D(1)] ss by (auto split: if_splits)
  show ?thesis
  proof (rule udp_invI)
    show "distinct (map fst (u_sessions ?u))"
      using D(1) by (simp add: ss distinct_map_filter)
    show "\<exists>t. u_table ?u j = Some t \<and> k = key_of t \<and> (u_running ?u \<longrightarrow> s_open t)"
      if "(k, j) \<in> set (u_sessions ?u)" for k j
      using D(2) mem [OF that] by (simp add: tb same)
    show "j < u_next ?u \<and> \<not> rejectsRemote p (s_addr t) \<and>
        (s_open t \<longrightarrow> u_running ?u \<and> (key_of t, j) \<in> set (u_sessions ?u))"
      if "u_table ?u j = Some t" for j t
      using D(3) [of j] D(3) [OF assms(2)] that keep by (auto simp: tb same split: if_splits)
    show "\<not> rejectsRemote p a" if "(a, b) \<in> set (u_replies ?u)" for a b
      using D(4) that by (simp add: same)
  qed
qed

lemma find_session_inv:
  assumes "udp_inv p u" "u_running u" "\<not> rejectsRemote p addr" "find_session addr dialed u = Some (i, u1)"
  shows "udp_inv p u1" "\<exists>s. u_table u1 i = Some s \<and> key_of s = net_addr_String addr \<and> s_open s"
proof -
  note D = udp_invD [OF assms(1)]
  have "udp_inv p u1 \<and> (\<exists>s. u_table u1 i = Some s \<and> key_of s = net_addr_String addr \<and> s_open s)"
  proof (cases "map_of (u_sessions u) (net_addr_String addr)")
    case (Some j)
    with assms(4) have "u1 = u" "i = j" by (auto simp: find_session_def)
    moreover from Some have "(net_addr_String addr, j) \<in> set (u_sessions u)" by (rule map_of_SomeD)
    ultimately show ?thesis using assms(1,2) D(2) by fastforce
  next
    case None
    with assms(4) obtain t where i: "i = u_next u"
      and u1: "u1 = u\<lparr>u_sessions := u_sessions u @ [(net_addr_String addr, i)],
        u_table := (u_table u)(i \<mapsto> \<lparr>s_addr = addr, s_tunnel = t, s_open = True, s_lastActive = 0\<rparr>),
        u_next := Suc i\<rparr>"
      by (auto simp: find_session_def split: option.splits)
    have new: "u_table u i = None" using D(3) [of i] i by (cases "u_table u i") auto
    have old: "(k, j) \<in> set (u_sessions u) \<Longrightarrow> j \<noteq> i" for k j using D(2) [of k j] new by auto
    have "udp_inv p u1"
    proof (rule udp_invI)
      show "distinct (map fst (u_sessions u1))"
        using D(1) None by (auto simp: u1 map_of_eq_None_iff)
      show "\<exists>s. u_table u1 j = Some s \<and> k = key_of s \<and> (u_running u1 \<longrightarrow> s_open s)"
        if "(k, j) \<in> set (u_sessions u1)" for k j
        using that D(2) [of k j] old [of k j] by (auto simp: u1)
      show "j < u_next u1 \<and> \<not> rejectsRemote p (s_addr s) \<and>
          (s_open s \<longrightarrow> u_running u1 \<and> (key_of s, j) \<in> set (u_sessions u1))"
        if "u_table u1 j = Some s" for j s
        using that D(3) [of j s] assms(2,3) i by (auto simp: u1 split: if_splits)
      show "\<not> rejectsRemote p a" if "(a, b) \<in> set (u_replies u1)" for a b
        using that D(4) by (simp add: u1)
    qed
    then show ?thesis by (simp add: u1)
  qed
  then show "udp_inv p u1" "\<exists>s. u_table u1 i = Some s \<and> key_of s = net_addr_String addr \<and> s_open s" by auto
qed

lemma send_frame_inv:
  assumes "udp_inv p u" "send_frame i b u = (ok, u')"
  shows "udp_inv p u'" "u_table u i = Some s \<Longrightarrow> \<exists>s'. u_table u' i = Some s' \<and> key_of s' = key_of s"
proof -
  have "u' = u \<or> (\<exists>t. u' = upd_session i (\<lambda>s. s\<lparr>s_tunnel := t\<rparr>) u)"
    using assms(2) by (auto simp: send_frame_def split: option.splits if_splits prod.splits)
  with assms(1) show "udp_inv p u'" by (auto intro: udp_inv_upd)
  assume "u_table u i = Some s"
  with \<open>u' = u \<or> _\<close> show "\<exists>s'. u_table u' i = Some s' \<and> key_of s' = key_of s"
    by (auto simp: upd_session_def)
qed

lemma touch_table: "u_table u i = Some s \<Longrightarrow> u_table (touch now i u) i = Some (s\<lparr>s_lastActive := now\<rparr>)"
  by (simp add: touch_def upd_session_def)

lemma udp_packet_inv:
  assumes "udp_inv p u" "u_running u"
  shows "udp_inv p (udp_packet p now addr datagram dialed u)"
proof (cases "rejectsRemote p addr \<or> find_session addr dialed u = None")
  case True
  with assms(1) show ?thesis by (auto simp: udp_packet_def)
next
  case False
  then obtain i u1 where fs: "find_session addr dialed u = Some (i, u1)" and nr: "\<not> rejectsRemote p addr" by auto
  note F = find_session_inv [OF assms nr fs]
  from F(2) obtain s where s: "u_table u1 i = Some s" "key_of s = net_addr_String addr" by blast
  obtain ok u2 where sf: "send_frame i (take maxDatagram datagram) (touch now i u1) = (ok, u2)" by fastforce
  note S = send_frame_inv [OF touch_inv [OF F(1)] sf]
  from S(2) [OF touch_table [OF s(1)]] s(2) obtain s' where s': "u_table u2 i = Some s'" "net_addr_String addr = key_of s'"
    by auto
  have "udp_packet p now addr datagram dialed u =
      (if ok then u2 else close_tunnel i (forget (net_addr_String addr) i u2))"
    using nr fs sf by (simp add: udp_packet_def)
  with S(1) finish_inv [OF S(1) s'] show ?thesis by simp
qed

lemma udp_return_inv:
  assumes "udp_inv p u"
  shows "udp_inv p (udp_return now i ev u)"
proof (cases "u_table u i")
  case None
  with assms show ?thesis by (simp add: udp_return_def)
next
  case (Some s)
  show ?thesis
  proof (cases ev)
    case (Frame b ok)
    have t: "udp_inv p (touch now i u)" by (rule touch_inv [OF assms])
    have nr: "\<not> rejectsRemote p (s_addr s)" using udp_invD(3) [OF assms Some] by simp
    have "udp_inv p ((touch now i u)\<lparr>u_replies := u_replies (touch now i u) @ [(s_addr s, b)]\<rparr>)"
      using t nr unfolding udp_inv_def by auto
    moreover have "udp_inv p (close_tunnel i (forget (key_of s) i (touch now i u)))"
      by (rule finish_inv [OF t touch_table [OF Some]]) simp
    ultimately show ?thesis using Frame Some by (simp add: udp_return_def Let_def)
  next
    case ReadFailed
    with Some finish_inv [OF assms Some refl] show ?thesis by (simp add: udp_return_def)
  qed
qed

lemma reap_inv:
  assumes "udp_inv p u"
  shows "udp_inv p (reapIdleSessions now u)"
proof -
  note D = udp_invD [OF assms]
  have uniq: "(k, i) \<in> set (u_sessions u) \<Longrightarrow> (k', i) \<in> set (u_sessions u) \<Longrightarrow> k = k'" for k k' i
    using D(2) [of k i] D(2) [of k' i] by auto
  show ?thesis
  proof (rule udp_invI)
    show "distinct (map fst (u_sessions (reapIdleSessions now u)))"
      using D(1) by (simp add: reapIdleSessions_def distinct_map_filter)
    show "\<exists>s. u_table (reapIdleSessions now u) i = Some s \<and> k = key_of s \<and> (u_running (reapIdleSessions now u) \<longrightarrow> s_open s)"
      if "(k, i) \<in> set (u_sessions (reapIdleSessions now u))" for k i
      using that D(2) [of k i] by (auto simp: reapIdleSessions_def)
    show "i < u_next (reapIdleSessions now u) \<and> \<not> rejectsRemote p (s_addr s) \<and>
        (s_open s \<longrightarrow> u_running (reapIdleSessions now u) \<and> (key_of s, i) \<in> set (u_sessions (reapIdleSessions now u)))"
      if "u_table (reapIdleSessions now u) i = Some s" for i s
    proof -
      from that obtain s0 where s0: "u_table u i = Some s0" "s_addr s = s_addr s0"
        and op: "s_open s \<longrightarrow> s_open s0 \<and> \<not> (i \<in> snd ` set (u_sessions u) \<and> idle now u i)"
        by (auto simp: reapIdleSessions_def)
      have "s_open s0 \<longrightarrow> i \<in> snd ` set (u_sessions u)" using D(3) [OF s0(1)] by force
      with D(3) [OF s0(1)] s0(2) op show ?thesis by (auto simp: reapIdleSessions_def)
    qed
    show "\<not> rejectsRemote p a" if "(a, b) \<in> set (u_replies (reapIdleSessions now u))" for a b
      using that D(4) by (simp add: reapIdleSessions_def)
  qed
qed

lemma read_error_inv:
  assumes "udp_inv p u"
  shows "udp_inv p (udp_read_error u)"
proof -
  note D = udp_invD [OF assms]
  have closed: "\<not> s_open s" if "u_table (udp_read_error u) i = Some s" for i s
  proof -
    from that obtain s0 where "u_table u i = Some s0" "s_open s \<longrightarrow> s_open s0 \<and> i \<notin> snd ` set (u_sessions u)"
      by (auto simp: udp_read_error_def)
    with D(3) [of i s0] show ?thesis by force
  qed
  show ?thesis
  proof (rule udp_invI)
    show "distinct (map fst (u_sessions (udp_read_error u)))" using D(1) by (simp add: udp_read_error_def)
    show "\<exists>s. u_table (udp_read_error u) i = Some s \<and> k = key_of s \<and> (u_running (udp_read_error u) \<longrightarrow> s_open s)"
      if "(k, i) \<in> set (u_sessions (udp_read_error u))" for k i
    proof -
      from that have ki: "(k, i) \<in> set (u_sessions u)" by (simp add: udp_read_error_def)
      then have "i \<in> snd ` set (u_sessions u)" by force
      with D(2) [OF ki] show ?thesis by (auto simp: udp_read_error_def)
    qed
    show "i < u_next (udp_read_error u) \<and> \<not> rejectsRemote p (s_addr s) \<and>
        (s_open s \<longrightarrow> u_running (udp_read_error u) \<and> (key_of s, i) \<in> set (u_sessions (udp_read_error u)))"
      if "u_table (udp_read_error u) i = Some s" for i s
      using that D(3) [of i] closed [OF that] by (auto simp: udp_read_error_def split: if_splits)
    show "\<not> rejectsRemote p a" if "(a, b) \<in> set (u_replies (udp_read_error u))" for a b
      using that D(4) by (simp add: udp_read_error_def)
  qed
qed

lemma udp_step_inv: "udp_step p u u' \<Longrightarrow> udp_inv p u \<Longrightarrow> udp_inv p u'"
  by (induction rule: udp_step.induct)
    (auto intro: udp_packet_inv udp_return_inv reap_inv read_error_inv)

lemma udp_steps_inv: "(udp_step p)\<^sup>*\<^sup>* u u' \<Longrightarrow> udp_inv p u \<Longrightarrow> udp_inv p u'"
  by (induction rule: rtranclp_induct) (auto intro: udp_step_inv)


section \<open>Properties\<close>

text \<open>
  C32. A wildcard-bound proxy serves local clients only. When the proxied socket is bound to all
  interfaces, a connection from an IPv4 or IPv6 address (without a zone) is rejected exactly when
  the address is neither loopback nor unspecified; so no other connection the accept loop sees is
  ever forwarded. A proxy on a specific loopback address rejects nothing.
\<close>

theorem wildcard_serves_local_only:
  assumes "length (na_ip remote) = 4 \<or> length (na_ip remote) = 16" "na_zone remote = []"
  shows "(isUnspecified (l_Addr (p_listen p)) \<longrightarrow>
      (rejectsRemote p remote \<longleftrightarrow> \<not> IsLoopback (na_ip remote) \<and> \<not> IsUnspecified (na_ip remote)) \<and>
      (Piped remote \<in> set (acceptLoop p as) \<longrightarrow> IsLoopback (na_ip remote) \<or> IsUnspecified (na_ip remote))) \<and>
    (\<not> isUnspecified (l_Addr (p_listen p)) \<longrightarrow> \<not> rejectsRemote p remote)"
proof -
  have "Piped remote \<in> set (acceptLoop p as) \<Longrightarrow> \<not> rejectsRemote p remote"
    by (induction p as rule: acceptLoop.induct) (auto split: if_splits sum.splits)
  then show ?thesis using isLocalPeer_iff [OF assms] by (auto simp: rejectsRemote_def)
qed

lemma wildcard_serves_local_only_witness:
  "rejectsRemote \<lparr>p_listen = Listen V4 TCP (IP_String [0, 0, 0, 0]) 80, p_peer = ''x''\<rparr>
     \<lparr>na_ip = [10, 0, 0, 7], na_port = 4000, na_zone = []\<rparr>"
proof -
  have "length [0, 0, 0, 0 :: byte] = 4 \<or> length [0, 0, 0, 0 :: byte] = 16" by simp
  moreover have "IsUnspecified [0, 0, 0, 0]" "\<not> IsLoopback [10, 0, 0, 7]" "\<not> IsUnspecified [10, 0, 0, 7]" by code_simp+
  ultimately show ?thesis
    using wildcard_serves_local_only [of "\<lparr>na_ip = [10, 0, 0, 7], na_port = 4000, na_zone = []\<rparr>"
        "\<lparr>p_listen = Listen V4 TCP (IP_String [0, 0, 0, 0]) 80, p_peer = ''x''\<rparr>" "[]"]
      String_tests(1) [of "[0, 0, 0, 0]"] by simp
qed

text \<open>
  C19. UDP sessions, after any sequence of datagrams, frames coming back, tunnel failures, idle
  sweeps and the end of the loop: there is at most one session per source address; a session in
  the map has an open tunnel while the loop runs; every open tunnel belongs to a session in the
  map, so none is leaked, and after the loop has ended none is open; and nothing was ever sent
  back to an address the proxy rejects.
\<close>

theorem udp_sessions_sound:
  assumes "(udp_step p)\<^sup>*\<^sup>* udp_start u"
  shows "distinct (map fst (u_sessions u)) \<and> distinct (map snd (u_sessions u)) \<and>
    (\<forall>k i. (k, i) \<in> set (u_sessions u) \<longrightarrow>
       (\<exists>s. u_table u i = Some s \<and> net_addr_String (s_addr s) = k \<and> (u_running u \<longrightarrow> s_open s))) \<and>
    (\<forall>i s. u_table u i = Some s \<and> s_open s \<longrightarrow>
       u_running u \<and> (net_addr_String (s_addr s), i) \<in> set (u_sessions u)) \<and>
    (\<forall>a b. (a, b) \<in> set (u_replies u) \<longrightarrow> \<not> rejectsRemote p a)"
proof -
  have "udp_inv p udp_start" by (simp add: udp_inv_def udp_start_def)
  with assms have inv: "udp_inv p u" by (rule udp_steps_inv)
  note D = udp_invD [OF inv]
  have "inj_on snd (set (u_sessions u))"
  proof (rule inj_onI)
    fix x y assume *: "x \<in> set (u_sessions u)" "y \<in> set (u_sessions u)" "snd x = snd y"
    obtain k i k' where "x = (k, i)" "y = (k', i)" using *(3) by (metis prod.collapse)
    with * D(2) [of k i] D(2) [of k' i] show "x = y" by auto
  qed
  moreover have "distinct (u_sessions u)" using D(1) by (simp add: distinct_map)
  ultimately have "distinct (map snd (u_sessions u))" by (simp add: distinct_map)
  with D show ?thesis by metis
qed

definition demo_proxy :: Proxy where
  "demo_proxy = \<lparr>p_listen = Listen V4 UDP ''127.0.0.1'' 53, p_peer = ''x''\<rparr>"

definition demo_addr :: net_addr where
  "demo_addr = \<lparr>na_ip = [127, 0, 0, 1], na_port = 4000, na_zone = []\<rparr>"

definition demo_udp :: udp where
  "demo_udp = udp_packet demo_proxy 5 demo_addr [1, 2] (Some \<lparr>w_out = [], w_room = None\<rparr>) udp_start"

lemma demo_not_rejected: "\<not> rejectsRemote demo_proxy demo_addr"
proof -
  have "IP_String [127, 0, 0, 1] = ''127.0.0.1''" "\<not> IsUnspecified [127, 0, 0, 1]" by code_simp+
  with String_tests(1) [of "[127, 0, 0, 1]"] show ?thesis by (simp add: rejectsRemote_def demo_proxy_def)
qed

lemma demo_udp_state:
  "u_sessions demo_udp = [(net_addr_String demo_addr, 0)]" "u_running demo_udp"
  "u_table demo_udp 0 = Some \<lparr>s_addr = demo_addr, s_tunnel = \<lparr>w_out = frame_bytes [1, 2], w_room = None\<rparr>,
     s_open = True, s_lastActive = 5\<rparr>"
  using demo_not_rejected writeFrame_unlimited [of "\<lparr>w_out = [], w_room = None\<rparr>" "[1, 2]"]
  by (simp_all add: demo_udp_def udp_packet_def find_session_def send_frame_def touch_def upd_session_def
      udp_start_def maxDatagram_def)

lemma udp_sessions_sound_witness:
  "\<exists>s. u_table demo_udp 0 = Some s \<and> s_open s \<and> net_addr_String (s_addr s) = net_addr_String demo_addr \<and> u_running demo_udp"
proof -
  have "udp_step demo_proxy udp_start demo_udp"
    unfolding demo_udp_def by (rule u_packet) (simp add: udp_start_def)
  then have st: "(udp_step demo_proxy)\<^sup>*\<^sup>* udp_start demo_udp" by blast
  have "(net_addr_String demo_addr, 0) \<in> set (u_sessions demo_udp)" using demo_udp_state(1) by simp
  with udp_sessions_sound [OF st] demo_udp_state(2) show ?thesis by blast
qed

text \<open>
  A datagram goes to its own session: when the source address has a session with a working
  tunnel, exactly that tunnel receives the datagram (cut to the largest datagram) as one more
  frame and its session's time is refreshed; no other session, and no entry of the map, changes.
  A datagram from a rejected address changes nothing.
\<close>

theorem udp_packet_routed:
  assumes "map_of (u_sessions u) (net_addr_String addr) = Some i" "u_table u i = Some s" "s_open s"
    and "w_room (s_tunnel s) = None"
  shows "udp_packet p now addr datagram dialed u =
    (if rejectsRemote p addr then u
     else u\<lparr>u_table := (u_table u)(i \<mapsto>
       s\<lparr>s_lastActive := now,
         s_tunnel := (s_tunnel s)\<lparr>w_out := w_out (s_tunnel s) @ frame_bytes (take maxDatagram datagram)\<rparr>\<rparr>)\<rparr>)"
  using assms writeFrame_unlimited [OF assms(4)]
  by (simp add: udp_packet_def find_session_def send_frame_def touch_def upd_session_def)

lemma udp_packet_routed_witness:
  "map_option (\<lambda>s. w_out (s_tunnel s)) (u_table (udp_packet demo_proxy 6 demo_addr [7] None demo_udp) 0) =
   Some (frame_bytes [1, 2] @ frame_bytes (take maxDatagram [7]))"
proof -
  have "map_of (u_sessions demo_udp) (net_addr_String demo_addr) = Some 0"
    using demo_udp_state(1) by simp
  from udp_packet_routed [OF this demo_udp_state(3)] demo_not_rejected show ?thesis by simp
qed

section \<open>Excluding while a proxy runs\<close>

text \<open>
  A proxy holds exactly one exclusion of its socket while it runs: a start that succeeds adds
  one, a start that fails leaves the counts as they were, and closing takes it back.
\<close>

lemma proxy_holds_exclusion:
  assumes "excluded_ok w" "StartProxy can_bind peer l w = (r, w')"
  shows "excluded_ok w' \<and>
    (case r of
       Inl e \<Rightarrow> (\<forall>k. excluded_count w' k = excluded_count w k)
     | Inr p \<Rightarrow> p_listen p = l \<and> (\<forall>k. excluded_count w' k = excluded_count w k + (if k = l then 1 else 0)) \<and>
         excluded_ok (proxy_Close p w') \<and> (\<forall>k. excluded_count (proxy_Close p w') k = excluded_count w k))"
  using assms(2) excl.ok_inc [OF assms(1)] excl.ok_dec [OF excl.ok_inc [OF assms(1)]]
    excl.inc_dec [OF assms(1)] excl.count_inc [OF assms(1)]
  by (auto simp: StartProxy_def proxy_Close_def Let_def split: if_splits)

end
