(* ===== verification/LoPipe.thy ===== *)
theory LoPipe
  imports LoFrame
begin

text \<open>
  The two pipes of \<open>internal/lo/pipe.go\<close>.

  \<open>pipeTCP\<close>: two goroutines copy between two connections, one in each direction; the first whose
  copy ends closes both connections, so that the other, which may be blocked in a read or a
  write, ends too. A step of the pipe is one read, one write, one \<open>Close\<close> or one way on of a
  goroutine; beside it the two other ends send, stop sending, break and stop reading as they like.
\<close>

section \<open>State\<close>

text \<open>
  The other end of a connection: open, finished (everything it sent can still be read, then
  reading gives the end of the stream), or broken (reading and writing fail). A goroutine copies,
  is on its way out through its deferred \<open>closeBoth\<close>, or has ended. The body of \<open>sync.Once\<close> has not
  been started, is about to close a, is about to close b, or is done.
\<close>

datatype link_state = Up | Fin | Broken
datatype goroutine = Copying | Leaving | Ended
datatype once = Fresh | ClosingA | ClosingB | OnceDone

text \<open>
  For each side the bytes sent to it and not yet passed on, the bytes written to it, the state of
  its other end, whether that end has stopped reading, and how often it was closed. \<open>pp_ab\<close> is the
  goroutine copying from a to b, \<open>pp_ba\<close> the other one; of the bytes of \<open>pp_a_in\<close> the first
  \<open>pp_ab_read\<close> have been read and are being written.
\<close>

record pipe =
  pp_a_in :: "byte list"
  pp_b_in :: "byte list"
  pp_a_out :: "byte list"
  pp_b_out :: "byte list"
  pp_a_link :: link_state
  pp_b_link :: link_state
  pp_a_stalled :: bool
  pp_b_stalled :: bool
  pp_a_closes :: nat
  pp_b_closes :: nat
  pp_ab :: goroutine
  pp_ba :: goroutine
  pp_ab_read :: nat
  pp_ba_read :: nat
  pp_once :: once

definition pipe_start :: "byte list \<Rightarrow> byte list \<Rightarrow> pipe" where
  "pipe_start a b =
     \<lparr>pp_a_in = a, pp_b_in = b, pp_a_out = [], pp_b_out = [], pp_a_link = Up, pp_b_link = Up,
      pp_a_stalled = False, pp_b_stalled = False, pp_a_closes = 0, pp_b_closes = 0,
      pp_ab = Copying, pp_ba = Copying, pp_ab_read = 0, pp_ba_read = 0, pp_once = Fresh\<rparr>"

section \<open>Steps\<close>

text \<open>\<open>io.Copy\<close> writes what it read, in one or several writes, before it reads again.\<close>

definition copy_ab :: "nat \<Rightarrow> pipe \<Rightarrow> pipe" where
  "copy_ab n p =
     p\<lparr>pp_b_out := pp_b_out p @ take n (pp_a_in p), pp_a_in := drop n (pp_a_in p), pp_ab_read := pp_ab_read p - n\<rparr>"

definition copy_ba :: "nat \<Rightarrow> pipe \<Rightarrow> pipe" where
  "copy_ba n p =
     p\<lparr>pp_a_out := pp_a_out p @ take n (pp_b_in p), pp_b_in := drop n (pp_b_in p), pp_ba_read := pp_ba_read p - n\<rparr>"

text \<open>A read or write on a connection that was closed under the goroutine fails, too.\<close>

definition read_ends_a :: "pipe \<Rightarrow> bool" where
  "read_ends_a p \<longleftrightarrow> 0 < pp_a_closes p \<or> pp_a_link p = Broken \<or> pp_a_link p = Fin \<and> pp_a_in p = []"

definition read_ends_b :: "pipe \<Rightarrow> bool" where
  "read_ends_b p \<longleftrightarrow> 0 < pp_b_closes p \<or> pp_b_link p = Broken \<or> pp_b_link p = Fin \<and> pp_b_in p = []"

definition write_fails_a :: "pipe \<Rightarrow> bool" where
  "write_fails_a p \<longleftrightarrow> 0 < pp_a_closes p \<or> pp_a_link p = Broken"

definition write_fails_b :: "pipe \<Rightarrow> bool" where
  "write_fails_b p \<longleftrightarrow> 0 < pp_b_closes p \<or> pp_b_link p = Broken"

text \<open>
  \<open>closeBoth\<close>, one step at a time: the first to come starts the body, which closes a and then b;
  whoever called \<open>once.Do\<close> gets on when the body is done.
\<close>

definition closeBoth :: "pipe \<Rightarrow> pipe" where
  "closeBoth p =
     (case pp_once p of
        Fresh \<Rightarrow> p\<lparr>pp_once := ClosingA\<rparr>
      | ClosingA \<Rightarrow> p\<lparr>pp_a_closes := pp_a_closes p + 1, pp_once := ClosingB\<rparr>
      | ClosingB \<Rightarrow> p\<lparr>pp_b_closes := pp_b_closes p + 1, pp_once := OnceDone\<rparr>
      | OnceDone \<Rightarrow> p)"

inductive own_step :: "pipe \<Rightarrow> pipe \<Rightarrow> bool" where
  read_ab: "pp_ab p = Copying \<Longrightarrow> pp_ab_read p = 0 \<Longrightarrow> pp_a_closes p = 0 \<Longrightarrow> 0 < n \<Longrightarrow> n \<le> length (pp_a_in p) \<Longrightarrow>
    own_step p (p\<lparr>pp_ab_read := n\<rparr>)"
| read_ba: "pp_ba p = Copying \<Longrightarrow> pp_ba_read p = 0 \<Longrightarrow> pp_b_closes p = 0 \<Longrightarrow> 0 < n \<Longrightarrow> n \<le> length (pp_b_in p) \<Longrightarrow>
    own_step p (p\<lparr>pp_ba_read := n\<rparr>)"
| write_ab: "pp_ab p = Copying \<Longrightarrow> 0 < n \<Longrightarrow> n \<le> pp_ab_read p \<Longrightarrow> \<not> write_fails_b p \<Longrightarrow> \<not> pp_b_stalled p \<Longrightarrow>
    own_step p (copy_ab n p)"
| write_ba: "pp_ba p = Copying \<Longrightarrow> 0 < n \<Longrightarrow> n \<le> pp_ba_read p \<Longrightarrow> \<not> write_fails_a p \<Longrightarrow> \<not> pp_a_stalled p \<Longrightarrow>
    own_step p (copy_ba n p)"
| read_end_ab: "pp_ab p = Copying \<Longrightarrow> pp_ab_read p = 0 \<Longrightarrow> read_ends_a p \<Longrightarrow> own_step p (p\<lparr>pp_ab := Leaving\<rparr>)"
| read_end_ba: "pp_ba p = Copying \<Longrightarrow> pp_ba_read p = 0 \<Longrightarrow> read_ends_b p \<Longrightarrow> own_step p (p\<lparr>pp_ba := Leaving\<rparr>)"
| write_fail_ab: "pp_ab p = Copying \<Longrightarrow> 0 < pp_ab_read p \<Longrightarrow> write_fails_b p \<Longrightarrow> own_step p (p\<lparr>pp_ab := Leaving\<rparr>)"
| write_fail_ba: "pp_ba p = Copying \<Longrightarrow> 0 < pp_ba_read p \<Longrightarrow> write_fails_a p \<Longrightarrow> own_step p (p\<lparr>pp_ba := Leaving\<rparr>)"
| close_both: "pp_ab p = Leaving \<or> pp_ba p = Leaving \<Longrightarrow> pp_once p \<noteq> OnceDone \<Longrightarrow> own_step p (closeBoth p)"
| end_ab: "pp_ab p = Leaving \<Longrightarrow> pp_once p = OnceDone \<Longrightarrow> own_step p (p\<lparr>pp_ab := Ended\<rparr>)"
| end_ba: "pp_ba p = Leaving \<Longrightarrow> pp_once p = OnceDone \<Longrightarrow> own_step p (p\<lparr>pp_ba := Ended\<rparr>)"

text \<open>What the other ends do: finish, break, stop reading and go on reading.\<close>

inductive env_step :: "pipe \<Rightarrow> pipe \<Rightarrow> bool" where
  finish_a: "pp_a_link p = Up \<Longrightarrow> env_step p (p\<lparr>pp_a_link := Fin\<rparr>)"
| finish_b: "pp_b_link p = Up \<Longrightarrow> env_step p (p\<lparr>pp_b_link := Fin\<rparr>)"
| break_a: "env_step p (p\<lparr>pp_a_link := Broken\<rparr>)"
| break_b: "env_step p (p\<lparr>pp_b_link := Broken\<rparr>)"
| stall_a: "env_step p (p\<lparr>pp_a_stalled := s\<rparr>)"
| stall_b: "env_step p (p\<lparr>pp_b_stalled := s\<rparr>)"

inductive_cases own_stepE: "own_step p q"
inductive_cases env_stepE: "env_step p q"

definition pipe_step :: "pipe \<Rightarrow> pipe \<Rightarrow> bool" where
  "pipe_step p q \<longleftrightarrow> own_step p q \<or> env_step p q"

text \<open>\<open>wg.Wait\<close> returns when both goroutines have ended.\<close>

definition pipe_returned :: "pipe \<Rightarrow> bool" where
  "pipe_returned p \<longleftrightarrow> pp_ab p = Ended \<and> pp_ba p = Ended"

lemmas pipe_op_defs = copy_ab_def copy_ba_def closeBoth_def read_ends_a_def read_ends_b_def write_fails_a_def write_fails_b_def

section \<open>Properties\<close>

text \<open>
  What holds throughout: no byte is lost or invented, the two connections have been closed as far as
  the body of the once has got, a goroutine has ended only if both have been, and as long as both
  other ends are there both goroutines copy.
\<close>

definition pipe_inv :: "byte list \<Rightarrow> byte list \<Rightarrow> pipe \<Rightarrow> bool" where
  "pipe_inv a b p \<longleftrightarrow>
     pp_b_out p @ pp_a_in p = a \<and> pp_a_out p @ pp_b_in p = b \<and>
     pp_ab_read p \<le> length (pp_a_in p) \<and> pp_ba_read p \<le> length (pp_b_in p) \<and>
     pp_a_closes p = (if pp_once p \<in> {Fresh, ClosingA} then 0 else 1) \<and>
     pp_b_closes p = (if pp_once p = OnceDone then 1 else 0) \<and>
     (pp_once p = Fresh \<or> pp_ab p \<noteq> Copying \<or> pp_ba p \<noteq> Copying) \<and>
     (pp_once p \<noteq> OnceDone \<longrightarrow> pp_ab p \<noteq> Ended \<and> pp_ba p \<noteq> Ended) \<and>
     (pp_a_link p = Up \<and> pp_b_link p = Up \<longrightarrow> pp_ab p = Copying \<and> pp_ba p = Copying)"

lemma own_step_inv: "own_step p q \<Longrightarrow> pipe_inv a b p \<Longrightarrow> pipe_inv a b q"
  by (erule own_stepE) (auto simp: pipe_inv_def pipe_op_defs split: once.splits if_splits)

lemma env_step_inv: "env_step p q \<Longrightarrow> pipe_inv a b p \<Longrightarrow> pipe_inv a b q"
  by (erule env_stepE) (auto simp: pipe_inv_def)

lemma pipe_steps_inv: "pipe_step\<^sup>*\<^sup>* p q \<Longrightarrow> pipe_inv a b p \<Longrightarrow> pipe_inv a b q"
  by (induction rule: rtranclp_induct) (auto simp: pipe_step_def intro: own_step_inv env_step_inv)

text \<open>What the pipe itself has left to do, as far as the other ends let it.\<close>

definition pipe_left :: "pipe \<Rightarrow> nat" where
  "pipe_left p =
     2 * length (pp_a_in p) + of_bool (pp_ab_read p = 0) + 2 * length (pp_b_in p) + of_bool (pp_ba_read p = 0) +
     (case pp_ab p of Copying \<Rightarrow> 2 | Leaving \<Rightarrow> 1 | Ended \<Rightarrow> 0) +
     (case pp_ba p of Copying \<Rightarrow> 2 | Leaving \<Rightarrow> 1 | Ended \<Rightarrow> 0) +
     (case pp_once p of Fresh \<Rightarrow> 3 | ClosingA \<Rightarrow> 2 | ClosingB \<Rightarrow> 1 | OnceDone \<Rightarrow> 0)"

lemma own_step_left:
  assumes "own_step p q" "pipe_inv a b p"
  shows "pipe_left q < pipe_left p"
  using assms by (induction rule: own_step.induct) (auto simp: pipe_left_def pipe_inv_def pipe_op_defs split: once.splits)

lemma env_step_left: "env_step p q \<Longrightarrow> pipe_left q = pipe_left p"
  by (erule env_stepE) (simp_all add: pipe_left_def)

text \<open>Why a goroutine that copies may have to wait: nothing to read, or nobody takes what was read.\<close>

definition waits_ab :: "pipe \<Rightarrow> bool" where
  "waits_ab p \<longleftrightarrow> pp_ab p = Copying \<and>
     (pp_a_in p = [] \<and> pp_a_link p = Up \<or> pp_a_in p \<noteq> [] \<and> pp_b_stalled p \<and> pp_b_link p \<noteq> Broken)"

definition waits_ba :: "pipe \<Rightarrow> bool" where
  "waits_ba p \<longleftrightarrow> pp_ba p = Copying \<and>
     (pp_b_in p = [] \<and> pp_b_link p = Up \<or> pp_b_in p \<noteq> [] \<and> pp_a_stalled p \<and> pp_a_link p \<noteq> Broken)"

lemma copying_stuck_ab:
  assumes "\<nexists>q. own_step p q" "pipe_inv a b p" "pp_ab p = Copying"
  shows "waits_ab p" "pp_a_closes p = 0 \<or> pp_b_closes p = 0"
proof -
  have "\<not> read_ends_a p" if "pp_ab_read p = 0" using that assms(1,3) read_end_ab by blast
  moreover have "pp_a_in p = []" if "pp_ab_read p = 0" "pp_a_closes p = 0"
    using that assms(1,3) read_ab [of p "length (pp_a_in p)"] by auto
  moreover have "\<not> write_fails_b p" "pp_b_stalled p" if "0 < pp_ab_read p"
    using that assms(1,3) write_fail_ab [of p] write_ab [of p "pp_ab_read p"] by blast+
  ultimately show "waits_ab p" "pp_a_closes p = 0 \<or> pp_b_closes p = 0"
    using assms(2,3) by (cases "pp_ab_read p = 0"; cases "pp_a_link p"; force simp: waits_ab_def pipe_inv_def pipe_op_defs)+
qed

lemma copying_stuck_ba:
  assumes "\<nexists>q. own_step p q" "pipe_inv a b p" "pp_ba p = Copying"
  shows "waits_ba p" "pp_a_closes p = 0 \<or> pp_b_closes p = 0"
proof -
  have "\<not> read_ends_b p" if "pp_ba_read p = 0" using that assms(1,3) read_end_ba by blast
  moreover have "pp_b_in p = []" if "pp_ba_read p = 0" "pp_b_closes p = 0"
    using that assms(1,3) read_ba [of p "length (pp_b_in p)"] by auto
  moreover have "\<not> write_fails_a p" "pp_a_stalled p" if "0 < pp_ba_read p"
    using that assms(1,3) write_fail_ba [of p] write_ba [of p "pp_ba_read p"] by blast+
  ultimately show "waits_ba p" "pp_a_closes p = 0 \<or> pp_b_closes p = 0"
    using assms(2,3) by (cases "pp_ba_read p = 0"; cases "pp_b_link p"; force simp: waits_ba_def pipe_inv_def pipe_op_defs)+
qed

lemma pipe_stuck:
  assumes "\<nexists>q. own_step p q" "pipe_inv a b p"
  shows "pipe_returned p \<or> waits_ab p \<and> waits_ba p"
proof -
  have "pp_ab p \<noteq> Leaving" "pp_ba p \<noteq> Leaving" using assms(1) close_both end_ab end_ba by blast+
  moreover have "pp_ab p = Copying \<longleftrightarrow> pp_ba p = Copying"
    using copying_stuck_ab(2) [OF assms] copying_stuck_ba(2) [OF assms] assms(2) calculation
    by (cases "pp_ab p"; cases "pp_ba p") (auto simp: pipe_inv_def split: if_splits)
  ultimately show ?thesis
    using copying_stuck_ab(1) [OF assms] copying_stuck_ba(1) [OF assms]
    by (cases "pp_ab p"; cases "pp_ba p") (auto simp: pipe_returned_def)
qed

text \<open>
  C29. Forwarding a TCP connection. However the two goroutines interleave and whatever the two other
  ends do, each side receives a prefix of what the other sent, in order; as long as both other ends
  are there, neither connection is closed and both directions are copied. There is no half-open
  connection: the pipe can be stuck only while both directions are being copied and each either has
  nothing to read or is blocked by a receiver that has stopped reading. In particular, once one
  direction has ended, the other is not left blocked, and there is a next step until the pipe
  returns. When it returns, each connection has been closed, and exactly once. The pipe makes no
  more steps than twice the bytes to copy and nine; what the other ends do does not add to them.
\<close>

theorem pipeTCP_correct:
  assumes "pipe_step\<^sup>*\<^sup>* (pipe_start a b) p"
  shows "prefix (pp_b_out p) a \<and> prefix (pp_a_out p) b \<and>
    (pp_a_link p = Up \<and> pp_b_link p = Up \<longrightarrow>
       pp_a_closes p = 0 \<and> pp_b_closes p = 0 \<and> pp_ab p = Copying \<and> pp_ba p = Copying) \<and>
    (pipe_returned p \<or> (\<exists>q. own_step p q) \<or> waits_ab p \<and> waits_ba p) \<and>
    (pp_ab p \<noteq> Copying \<or> pp_ba p \<noteq> Copying \<longrightarrow> pipe_returned p \<or> (\<exists>q. own_step p q)) \<and>
    (pipe_returned p \<longrightarrow> pp_a_closes p = 1 \<and> pp_b_closes p = 1) \<and>
    (\<forall>q. own_step p q \<longrightarrow> pipe_left q < pipe_left p) \<and> (\<forall>q. env_step p q \<longrightarrow> pipe_left q = pipe_left p) \<and>
    pipe_left p \<le> 2 * length a + 2 * length b + 9"
proof -
  let ?s = "pipe_start a b"
  have start: "pipe_inv a b ?s" "pipe_left ?s = 2 * length a + 2 * length b + 9"
    by (simp_all add: pipe_inv_def pipe_left_def pipe_start_def)
  from assms start(1) have inv: "pipe_inv a b p" by (rule pipe_steps_inv)
  have left: "pipe_left p \<le> pipe_left ?s"
    using assms
  proof (induction rule: rtranclp_induct)
    case (step q r)
    with own_step_left [of q r a b] pipe_steps_inv [OF step(1) start(1)] env_step_left [of q r] show ?case
      by (auto simp: pipe_step_def)
  qed simp
  note stuck = pipe_stuck [OF _ inv]
  have "prefix (pp_b_out p) a \<and> prefix (pp_a_out p) b" using inv by (auto simp: pipe_inv_def)
  moreover have "pp_a_link p = Up \<and> pp_b_link p = Up \<longrightarrow>
      pp_a_closes p = 0 \<and> pp_b_closes p = 0 \<and> pp_ab p = Copying \<and> pp_ba p = Copying"
    using inv by (auto simp: pipe_inv_def)
  moreover have "pipe_returned p \<longrightarrow> pp_a_closes p = 1 \<and> pp_b_closes p = 1"
    using inv by (auto simp: pipe_inv_def pipe_returned_def split: if_splits)
  moreover have "pp_ab p \<noteq> Copying \<or> pp_ba p \<noteq> Copying \<longrightarrow> pipe_returned p \<or> (\<exists>q. own_step p q)"
    using stuck by (auto simp: waits_ab_def waits_ba_def)
  ultimately show ?thesis using stuck own_step_left [OF _ inv] env_step_left left start(2) by auto
qed

text \<open>One end hangs up with an answer still on its way: the pipe closes both connections and returns.\<close>

definition hung_up :: pipe where
  "hung_up = (pipe_start [] [4])\<lparr>pp_a_link := Fin, pp_ab := Leaving\<rparr>"

lemma pipeTCP_correct_witness:
  "pipe_step\<^sup>*\<^sup>* (pipe_start [] [4]) hung_up \<and> (pipe_returned hung_up \<or> (\<exists>q. own_step hung_up q))"
proof -
  have "env_step (pipe_start [] [4]) ((pipe_start [] [4])\<lparr>pp_a_link := Fin\<rparr>)"
    by (rule finish_a) (simp add: pipe_start_def)
  moreover have "own_step ((pipe_start [] [4])\<lparr>pp_a_link := Fin\<rparr>) hung_up"
    unfolding hung_up_def by (rule read_end_ab) (simp_all add: pipe_start_def read_ends_a_def)
  ultimately have "pipe_step\<^sup>*\<^sup>* (pipe_start [] [4]) hung_up"
    by (meson pipe_step_def converse_rtranclp_into_rtranclp rtranclp.rtrancl_refl)
  with pipeTCP_correct [OF this] show ?thesis by (auto simp: hung_up_def)
qed

section \<open>Datagrams\<close>









text \<open>
  What holds throughout: the tunnel has the frames of a part of the datagrams received, the last
  possibly cut if it is closed; and what was sent, followed by what the rest of the tunnel decodes
  to, is what the whole tunnel decodes to.
\<close>

definition framed :: "byte list list \<Rightarrow> byte list" where
  "framed ds = concat (map (\<lambda>d. frame_bytes (take maxDatagram d)) ds)"


lemma framed_simps [simp]: "framed [] = []" "framed (d # ds) = frame_bytes (take maxDatagram d) @ framed ds"
  by (simp_all add: framed_def)









end
