(* ===== verification/LoShare.thy ===== *)
theory LoShare
  imports LoProxy LoPipe
begin

text \<open>
  A connection to a shared socket from end to end. A process of one container connects to the
  proxy (\<open>acceptLoop\<close> in \<open>internal/lo/proxy.go\<close>), which asks the other container for the socket
  (\<open>dialConnect\<close>) and forwards to the tunnel it gets (\<open>pipeTCP\<close>); there the handler dials the
  service and forwards between tunnel and service (\<open>handleConnect\<close> in \<open>server.go\<close>, \<open>pipeTCP\<close>).
\<close>

section \<open>The two pipes and the tunnel between them\<close>

text \<open>
  \<open>sh_near\<close> forwards between the process (its a side) and the tunnel (its b side), \<open>sh_far\<close> between
  the tunnel (a) and the service (b). \<open>sh_there\<close> and \<open>sh_back\<close> count the bytes of the tunnel that
  have arrived at the far and the near end.
\<close>

record shared =
  sh_near :: pipe
  sh_far :: pipe
  sh_there :: nat
  sh_back :: nat

definition shared_start :: "byte list \<Rightarrow> byte list \<Rightarrow> shared" where
  "shared_start c g = \<lparr>sh_near = pipe_start c [], sh_far = pipe_start [] g, sh_there = 0, sh_back = 0\<rparr>"

definition carry_there :: "nat \<Rightarrow> shared \<Rightarrow> shared" where
  "carry_there k s =
     s\<lparr>sh_far := (sh_far s)\<lparr>pp_a_in := pp_a_in (sh_far s) @ take k (drop (sh_there s) (pp_b_out (sh_near s)))\<rparr>,
       sh_there := sh_there s + k\<rparr>"

definition carry_back :: "nat \<Rightarrow> shared \<Rightarrow> shared" where
  "carry_back k s =
     s\<lparr>sh_near := (sh_near s)\<lparr>pp_b_in := pp_b_in (sh_near s) @ take k (drop (sh_back s) (pp_a_out (sh_far s)))\<rparr>,
       sh_back := sh_back s + k\<rparr>"

text \<open>
  The tunnel carries bytes in any portions; its ends, the process and the service may finish, break or
  stall at any time (the other steps of the two pipes).
\<close>

inductive share_step :: "shared \<Rightarrow> shared \<Rightarrow> bool" where
  sh_near_step: "pipe_step (sh_near s) p \<Longrightarrow> share_step s (s\<lparr>sh_near := p\<rparr>)"
| sh_far_step: "pipe_step (sh_far s) p \<Longrightarrow> share_step s (s\<lparr>sh_far := p\<rparr>)"
| sh_there_step: "sh_there s + k \<le> length (pp_b_out (sh_near s)) \<Longrightarrow> share_step s (carry_there k s)"
| sh_back_step: "sh_back s + k \<le> length (pp_a_out (sh_far s)) \<Longrightarrow> share_step s (carry_back k s)"

definition share_inv :: "byte list \<Rightarrow> byte list \<Rightarrow> shared \<Rightarrow> bool" where
  "share_inv c g s \<longleftrightarrow>
     pp_b_out (sh_near s) @ pp_a_in (sh_near s) = c \<and>
     pp_a_out (sh_near s) @ pp_b_in (sh_near s) = take (sh_back s) (pp_a_out (sh_far s)) \<and>
     pp_b_out (sh_far s) @ pp_a_in (sh_far s) = take (sh_there s) (pp_b_out (sh_near s)) \<and>
     pp_a_out (sh_far s) @ pp_b_in (sh_far s) = g \<and>
     sh_there s \<le> length (pp_b_out (sh_near s)) \<and> sh_back s \<le> length (pp_a_out (sh_far s))"

text \<open>What a pipe does to its four streams.\<close>

lemma pipe_step_streams:
  assumes "pipe_step p q"
  shows "pp_b_out q @ pp_a_in q = pp_b_out p @ pp_a_in p" "pp_a_out q @ pp_b_in q = pp_a_out p @ pp_b_in p"
    "prefix (pp_b_out p) (pp_b_out q)" "prefix (pp_a_out p) (pp_a_out q)"
  using assms unfolding pipe_step_def
  by (auto elim!: own_stepE env_stepE simp: pipe_op_defs split: once.splits)

lemma prefix_take: "prefix xs ys \<Longrightarrow> k \<le> length xs \<Longrightarrow> take k ys = take k xs \<and> k \<le> length ys"
  by (auto simp: prefix_def)

lemma share_step_inv: "share_step s t \<Longrightarrow> share_inv c g s \<Longrightarrow> share_inv c g t"
proof (induction rule: share_step.induct)
  case (sh_near_step s p)
  note P = pipe_step_streams [OF sh_near_step(1)]
  from sh_near_step(2) P prefix_take [OF P(3), of "sh_there s"] show ?case by (auto simp: share_inv_def)
next
  case (sh_far_step s p)
  note P = pipe_step_streams [OF sh_far_step(1)]
  from sh_far_step(2) P prefix_take [OF P(4), of "sh_back s"] show ?case by (auto simp: share_inv_def)
next
  case (sh_there_step s k)
  then show ?case by (simp add: share_inv_def carry_there_def take_add append_assoc [symmetric] del: append_assoc)
next
  case (sh_back_step s k)
  then show ?case by (simp add: share_inv_def carry_back_def take_add append_assoc [symmetric] del: append_assoc)
qed

lemma share_inv_prefix:
  assumes "share_inv c g s"
  shows "prefix (pp_b_out (sh_far s)) c \<and> prefix (pp_a_out (sh_near s)) (pp_a_out (sh_far s)) \<and> prefix (pp_a_out (sh_near s)) g"
proof -
  have "prefix (pp_b_out (sh_far s)) (take (sh_there s) (pp_b_out (sh_near s)))" "prefix (pp_b_out (sh_near s)) c"
    "prefix (pp_a_out (sh_near s)) (take (sh_back s) (pp_a_out (sh_far s)))" "prefix (pp_a_out (sh_far s)) g"
    using assms by (auto simp: share_inv_def prefix_def intro: sym)
  then show ?thesis using take_is_prefix prefix_order.trans by metis
qed

section \<open>Everything can get through\<close>

text \<open>A goroutine whose connections are fine can pass on everything there is: one read, one write.\<close>

lemma pipe_copy_all:
  "pp_ab p = Copying \<Longrightarrow> pp_ab_read p = 0 \<Longrightarrow> pp_a_closes p = 0 \<Longrightarrow> \<not> write_fails_b p \<Longrightarrow> \<not> pp_b_stalled p \<Longrightarrow>
     pipe_step\<^sup>*\<^sup>* p (copy_ab (length (pp_a_in p)) p)"
  "pp_ba p = Copying \<Longrightarrow> pp_ba_read p = 0 \<Longrightarrow> pp_b_closes p = 0 \<Longrightarrow> \<not> write_fails_a p \<Longrightarrow> \<not> pp_a_stalled p \<Longrightarrow>
     pipe_step\<^sup>*\<^sup>* p (copy_ba (length (pp_b_in p)) p)"
proof -
  let ?n = "length (pp_a_in p)" and ?m = "length (pp_b_in p)"
  let ?p = "p\<lparr>pp_ab_read := ?n\<rparr>" and ?q = "p\<lparr>pp_ba_read := ?m\<rparr>"
  show "pipe_step\<^sup>*\<^sup>* p (copy_ab ?n p)" if "pp_ab p = Copying" "pp_ab_read p = 0" "pp_a_closes p = 0"
    "\<not> write_fails_b p" "\<not> pp_b_stalled p"
  proof (cases "?n = 0")
    case False
    have "own_step p ?p" by (rule read_ab) (use that False in simp_all)
    moreover have "own_step ?p (copy_ab ?n ?p)" by (rule write_ab) (use that False in \<open>simp_all add: write_fails_b_def\<close>)
    moreover have "copy_ab ?n ?p = copy_ab ?n p" using that by (simp add: copy_ab_def)
    ultimately show ?thesis by (metis pipe_step_def converse_rtranclp_into_rtranclp rtranclp.rtrancl_refl)
  next
    case True
    then have "copy_ab ?n p = p" using that by (simp add: copy_ab_def)
    then show ?thesis by simp
  qed
  show "pipe_step\<^sup>*\<^sup>* p (copy_ba ?m p)" if "pp_ba p = Copying" "pp_ba_read p = 0" "pp_b_closes p = 0"
    "\<not> write_fails_a p" "\<not> pp_a_stalled p"
  proof (cases "?m = 0")
    case False
    have "own_step p ?q" by (rule read_ba) (use that False in simp_all)
    moreover have "own_step ?q (copy_ba ?m ?q)" by (rule write_ba) (use that False in \<open>simp_all add: write_fails_a_def\<close>)
    moreover have "copy_ba ?m ?q = copy_ba ?m p" using that by (simp add: copy_ba_def)
    ultimately show ?thesis by (metis pipe_step_def converse_rtranclp_into_rtranclp rtranclp.rtrancl_refl)
  next
    case True
    then have "copy_ba ?m p = p" using that by (simp add: copy_ba_def)
    then show ?thesis by simp
  qed
qed

lemma share_lift:
  "pipe_step\<^sup>*\<^sup>* (sh_near s) p \<Longrightarrow> share_step\<^sup>*\<^sup>* s (s\<lparr>sh_near := p\<rparr>)"
  "pipe_step\<^sup>*\<^sup>* (sh_far s) p \<Longrightarrow> share_step\<^sup>*\<^sup>* s (s\<lparr>sh_far := p\<rparr>)"
proof -
  show "share_step\<^sup>*\<^sup>* s (s\<lparr>sh_near := p\<rparr>)" if "pipe_step\<^sup>*\<^sup>* (sh_near s) p"
    using that
  proof (induction rule: rtranclp_induct)
    case (step q r)
    have "share_step (s\<lparr>sh_near := q\<rparr>) (s\<lparr>sh_near := q, sh_near := r\<rparr>)" by (rule sh_near_step) (simp add: step)
    with step show ?case by simp
  qed simp
  show "share_step\<^sup>*\<^sup>* s (s\<lparr>sh_far := p\<rparr>)" if "pipe_step\<^sup>*\<^sup>* (sh_far s) p"
    using that
  proof (induction rule: rtranclp_induct)
    case (step q r)
    have "share_step (s\<lparr>sh_far := q\<rparr>) (s\<lparr>sh_far := q, sh_far := r\<rparr>)" by (rule sh_far_step) (simp add: step)
    with step show ?case by simp
  qed simp
qed

lemma share_delivers:
  "\<exists>s. share_step\<^sup>*\<^sup>* (shared_start c g) s \<and> pp_b_out (sh_far s) = c \<and> pp_a_out (sh_near s) = g"
proof -
  define s1 where "s1 = (shared_start c g)\<lparr>sh_near := copy_ab (length c) (pipe_start c [])\<rparr>"
  define s2 where "s2 = carry_there (length c) s1"
  define s3 where "s3 = s2\<lparr>sh_far := copy_ab (length c) (sh_far s2)\<rparr>"
  define s4 where "s4 = s3\<lparr>sh_far := copy_ba (length g) (sh_far s3)\<rparr>"
  define s5 where "s5 = carry_back (length g) s4"
  define s6 where "s6 = s5\<lparr>sh_near := copy_ba (length g) (sh_near s5)\<rparr>"
  note D = s6_def s5_def s4_def s3_def s2_def s1_def shared_start_def pipe_start_def carry_there_def carry_back_def
    copy_ab_def copy_ba_def write_fails_a_def write_fails_b_def
  have "share_step\<^sup>*\<^sup>* (shared_start c g) s1" using share_lift(1) [OF pipe_copy_all(1), of "shared_start c g"] by (simp add: D)
  also have "share_step\<^sup>*\<^sup>* s1 s2" unfolding s2_def by (intro r_into_rtranclp sh_there_step) (simp add: D)
  also have "share_step\<^sup>*\<^sup>* s2 s3" using share_lift(2) [OF pipe_copy_all(1), of s2] by (simp add: D)
  also have "share_step\<^sup>*\<^sup>* s3 s4" using share_lift(2) [OF pipe_copy_all(2), of s3] by (simp add: D)
  also have "share_step\<^sup>*\<^sup>* s4 s5" unfolding s5_def by (intro r_into_rtranclp sh_back_step) (simp add: D)
  also have "share_step\<^sup>*\<^sup>* s5 s6" using share_lift(1) [OF pipe_copy_all(2), of s5] by (simp add: D)
  finally have "share_step\<^sup>*\<^sup>* (shared_start c g) s6" .
  moreover have "pp_b_out (sh_far s6) = c \<and> pp_a_out (sh_near s6) = g" by (simp add: D)
  ultimately show ?thesis by blast
qed

section \<open>From a process to the service\<close>

text \<open>
  C12. A shared TCP socket behaves like a local one. When a process connects to the proxy of a socket
  another container shares (from an address the proxy accepts), the other container's handler
  reads the proxy's request as that socket and dials it. If nobody listens, the proxy's
  connection ends with a refusal. If the service accepts, the proxy's tunnel starts with the first
  byte the service sent, and at every moment, however the goroutines at both ends and the tunnel
  interleave and wherever one fails, the service has received a prefix of what the process sent
  and the process a prefix of what the service sent; and there is a run that delivers everything.
\<close>

theorem shared_connection:
  assumes "connectable l" "l_Proto l = TCP" "p_listen p = l" "\<not> rejectsRemote p remote"
    and "share_step\<^sup>*\<^sup>* (shared_start c g) s"
    and "dialed = dialConnect True True (connect_peer dial (text_of (pp_a_out (sh_far s)))) l"
  shows "case dial (dialNetwork (l_Stack l) TCP) (dialTarget l) of
      Inl err \<Rightarrow> \<exists>why. acceptLoop p [Accepted remote dialed] = [TunnelFailed remote (ConnectRefused why)]
    | Inr _ \<Rightarrow>
        handleConnect (request_query (connect_request l)) (Some True) dial =
          Tunnel TCP (dialNetwork (l_Stack l) TCP) (dialTarget l) ok_response \<and>
        acceptLoop p [Accepted remote dialed] = [Piped remote] \<and>
        dialed = Inr (text_of (pp_a_out (sh_far s))) \<and>
        prefix (pp_b_out (sh_far s)) c \<and> prefix (pp_a_out (sh_near s)) (pp_a_out (sh_far s)) \<and> prefix (pp_a_out (sh_near s)) g \<and>
        (\<exists>t. share_step\<^sup>*\<^sup>* (shared_start c g) t \<and> pp_b_out (sh_far t) = c \<and> pp_a_out (sh_near t) = g)"
proof -
  have "share_inv c g (shared_start c g)" by (simp add: share_inv_def shared_start_def pipe_start_def)
  with assms(5) have "share_inv c g s"
    by (induction rule: rtranclp_induct) (auto intro: share_step_inv)
  note S = share_inv_prefix [OF this] share_delivers [of c g]
  show ?thesis
    using connect_end_to_end [OF assms(1), of dial "text_of (pp_a_out (sh_far s))"] assms(2-4,6) S
    by (cases "dial (dialNetwork (l_Stack l) TCP) (dialTarget l)") auto
qed

lemma shared_connection_witness:
  "\<exists>t. share_step\<^sup>*\<^sup>* (shared_start [1, 2] [3]) t \<and> pp_b_out (sh_far t) = [1, 2] \<and> pp_a_out (sh_near t) = [3]"
proof -
  let ?l = "Listen V4 TCP (IP_String [127, 0, 0, 1]) 80"
  have "length [127, 0, 0, 1 :: byte] = 4 \<or> length [127, 0, 0, 1 :: byte] = 16" by simp
  note st = String_tests [OF this]
  have "IsLoopback [127, 0, 0, 1]" "To4 [127, 0, 0, 1] \<noteq> None" "\<not> IsUnspecified [127, 0, 0, 1]" by code_simp+
  then have "connectable ?l" "\<not> rejectsRemote \<lparr>p_listen = ?l, p_peer = ''/peel/lo/b''\<rparr> remote" for remote
    using st by (simp_all add: connectable_def rejectsRemote_def)
  from shared_connection [OF this(1) _ _ this(2) rtranclp.rtrancl_refl refl, of demo_addr "\<lambda>_ _. Inr ()"] show ?thesis
    by simp
qed

end
