(* ===== verification/LoWatch.thy ===== *)
theory LoWatch
  imports LoWatcher
begin

text \<open>
  The \<open>/watch\<close> endpoint, \<open>handleWatch\<close> of \<open>internal/lo/server.go\<close>: each request subscribes to the
  watcher and streams the snapshot, a sync marker and then events. Any number of requests run
  beside the watcher's scans and the proxies' excluding of sockets; \<open>sv_step\<close> is one step of any
  of them, and the theorem here is about all states such steps reach.
\<close>

section \<open>One request\<close>

text \<open>
  \<open>wc_sent\<close> are the lines written to the response; \<open>wc_room\<close> is how many more can be written
  before a write fails.
\<close>

record watch_conn =
  wc_chan :: nat
  wc_sent :: "Event list"
  wc_room :: nat
  wc_done :: bool

definition encode_line :: "Event \<Rightarrow> watch_conn \<Rightarrow> watch_conn option" where
  "encode_line ev c =
     (if wc_room c = 0 then None
      else Some (c\<lparr>wc_sent := wc_sent c @ [ev], wc_room := wc_room c - 1\<rparr>))"

fun encode_lines :: "Event list \<Rightarrow> watch_conn \<Rightarrow> bool \<times> watch_conn" where
  "encode_lines [] c = (True, c)"
| "encode_lines (ev # evs) c =
     (case encode_line ev c of None \<Rightarrow> (False, c) | Some c1 \<Rightarrow> encode_lines evs c1)"

text \<open>The handler up to its loop; without a flushable response it answers 500 at once.\<close>

definition handleWatch_open ::
  "bool \<Rightarrow> Listen iteration \<Rightarrow> nat \<Rightarrow> Watcher \<Rightarrow> watch_conn option \<times> Watcher"
where
  "handleWatch_open flusher it room w =
     (if \<not> flusher then (None, w)
      else
        let (ch, snapshot, w1) = Subscribe it w;
            (ok, c) = encode_lines (map add_event snapshot @ [sync_event])
              \<lparr>wc_chan = ch, wc_sent = [], wc_room = room, wc_done = False\<rparr>
        in if ok then (Some c, w1) else (Some (c\<lparr>wc_done := True\<rparr>), cancel_sub ch w1))"

text \<open>One round of its loop: the select statement picks the channel or the end of the request.\<close>

datatype select = SelEvent | SelDone

definition handleWatch_round :: "select \<Rightarrow> watch_conn \<Rightarrow> Watcher \<Rightarrow> watch_conn \<times> Watcher" where
  "handleWatch_round sel c w =
     (let ended = (\<lambda>w. (c\<lparr>wc_done := True\<rparr>, cancel_sub (wc_chan c) w)) in
      case sel of
        SelDone \<Rightarrow> ended w
      | SelEvent \<Rightarrow>
          (case recv_sub (wc_chan c) w of
             (RecvBlocks, w1) \<Rightarrow> (c, w1)
           | (RecvClosed, w1) \<Rightarrow> ended w1
           | (Received ev, w1) \<Rightarrow>
               (case encode_line ev c of None \<Rightarrow> ended w1 | Some c1 \<Rightarrow> (c1, w1))))"

section \<open>All requests\<close>

record server =
  sv_watcher :: Watcher
  sv_conns :: "nat \<rightharpoonup> watch_conn"

definition server0 :: server where
  "server0 = \<lparr>sv_watcher = NewWatcher, sv_conns = Map.empty\<rparr>"

inductive sv_step :: "server \<Rightarrow> server \<Rightarrow> bool" where
  sv_scan: "visits it1 \<Longrightarrow> visits it2 \<Longrightarrow> (\<forall>ls. raw = Inr ls \<longrightarrow> finite ls) \<Longrightarrow>
     sv_step s (s\<lparr>sv_watcher := scanOnce it1 it2 (raw :: (string, Listen set) result) (sv_watcher s)\<rparr>)"
| sv_exclude: "sv_step s (s\<lparr>sv_watcher := Exclude l (sv_watcher s)\<rparr>)"
| sv_unexclude: "sv_step s (s\<lparr>sv_watcher := Unexclude l (sv_watcher s)\<rparr>)"
| sv_open: "visits it \<Longrightarrow> handleWatch_open flusher it room (sv_watcher s) = (c, w) \<Longrightarrow> sv_conns s i = None \<Longrightarrow>
     sv_step s (s\<lparr>sv_watcher := w, sv_conns := (sv_conns s)(i := c)\<rparr>)"
| sv_round: "sv_conns s i = Some c \<Longrightarrow> \<not> wc_done c \<Longrightarrow> handleWatch_round sel c (sv_watcher s) = (c', w) \<Longrightarrow>
     sv_step s (s\<lparr>sv_watcher := w, sv_conns := (sv_conns s)(i \<mapsto> c')\<rparr>)"

inductive sv_reachable :: "server \<Rightarrow> bool" where
  sv_init: "sv_reachable server0"
| sv_next: "sv_reachable s \<Longrightarrow> sv_step s s' \<Longrightarrow> sv_reachable s'"

section \<open>The stream is faithful\<close>

text \<open>
  A request whose subscription is alive: what it sent and what waits in its channel replays to the
  current set. One that was dropped has a closed channel.
\<close>

definition conn_ok :: "Watcher \<Rightarrow> watch_conn \<Rightarrow> bool" where
  "conn_ok w c \<longleftrightarrow>
     (case w_chans w (wc_chan c) of
        None \<Rightarrow> False
      | Some ch \<Rightarrow>
          if wc_chan c \<in> set (w_subs w) then replay (wc_sent c @ c_buf ch) {} = w_current w
          else c_closed ch)"

definition sv_inv :: "server \<Rightarrow> bool" where
  "sv_inv s \<longleftrightarrow>
     wf_watcher (sv_watcher s) \<and>
     (\<forall>i c. sv_conns s i = Some c \<and> \<not> wc_done c \<longrightarrow> conn_ok (sv_watcher s) c) \<and>
     (\<forall>i j c d. sv_conns s i = Some c \<and> sv_conns s j = Some d \<and> \<not> wc_done c \<and> \<not> wc_done d \<and>
        wc_chan c = wc_chan d \<longrightarrow> i = j)"

lemma conn_ok_chan: "conn_ok w c \<Longrightarrow> w_chans w (wc_chan c) \<noteq> None"
  by (auto simp: conn_ok_def split: option.splits)

lemma conn_ok_other:
  assumes "conn_ok w c" "w_chans w' (wc_chan c) = w_chans w (wc_chan c)" "w_current w' = w_current w"
    and "wc_chan c \<in> set (w_subs w') \<longleftrightarrow> wc_chan c \<in> set (w_subs w)"
  shows "conn_ok w' c"
  using assms(1) unfolding conn_ok_def assms(2-4) .

lemma conn_ok_Exclude: "conn_ok (Exclude l w) c = conn_ok w c" "conn_ok (Unexclude l w) c = conn_ok w c"
  unfolding conn_ok_def Exclude_other by (rule refl)+

lemma conn_ok_scan:
  assumes "wf_watcher w" "visits it1" "visits it2" "\<forall>ls. raw = Inr ls \<longrightarrow> finite ls" "conn_ok w c"
  shows "conn_ok (scanOnce it1 it2 raw w) c"
proof (cases raw)
  case (Inl e)
  with assms(5) show ?thesis by (simp add: scanOnce_def)
next
  case (Inr ls)
  define evs where "evs = scan_events it1 it2 (w_current w) (visible w ls)"
  note pa = publish_all [OF assms(1), of evs]
  have w': "scanOnce it1 it2 raw w = (fold publish evs w)\<lparr>w_current := visible w ls\<rparr>"
    using scanOnce_publishes [OF assms(1)] Inr by (simp add: evs_def)
  have "replay evs (w_current w) = visible w ls"
    unfolding evs_def
    by (rule replay_scan [OF assms(2,3)]) (use assms(1,4) Inr in \<open>auto simp: wf_watcher_def visible_def\<close>)
  moreover from assms(5) obtain ch where ch: "w_chans w (wc_chan c) = Some ch"
    using conn_ok_chan by auto
  ultimately show ?thesis
    using assms(5) pa(5,6) by (auto simp: conn_ok_def w' has_room_def pushed_def)
qed

lemma encode_lines_sent:
  "encode_lines evs c = (ok, c') \<Longrightarrow> wc_chan c' = wc_chan c \<and> (ok \<longrightarrow> wc_sent c' = wc_sent c @ evs)
    \<and> wc_done c' = wc_done c"
  by (induction evs arbitrary: c) (auto simp: encode_line_def split: option.splits if_splits)

lemma handleWatch_open_ok:
  assumes "wf_watcher w" "visits it" "handleWatch_open flusher it room w = (c, w')"
  shows "wf_watcher w'"
    "\<And>d. c = Some d \<Longrightarrow> \<not> wc_done d \<Longrightarrow> conn_ok w' d \<and> w_chans w (wc_chan d) = None"
    "\<And>d. conn_ok w d \<Longrightarrow> conn_ok w' d"
proof -
  obtain ch snap w1 where sub: "Subscribe it w = (ch, snap, w1)" by (metis prod_cases3)
  obtain ok c1 where enc: "encode_lines (map add_event snap @ [sync_event])
      \<lparr>wc_chan = ch, wc_sent = [], wc_room = room, wc_done = False\<rparr> = (ok, c1)" by fastforce
  note S = Subscribe_wf [OF assms(1) sub] and E = encode_lines_sent [OF enc]
  have fin: "finite (w_current w)" using assms(1) by (simp add: wf_watcher_def)
  have cases: "(c = None \<and> w' = w) \<or> (c = Some c1 \<and> w' = w1 \<and> ok) \<or>
      (c = Some (c1\<lparr>wc_done := True\<rparr>) \<and> w' = cancel_sub ch w1)"
    using assms(3) sub enc by (auto simp: handleWatch_open_def split: if_splits)
  show "wf_watcher w'" using cases assms(1) S(1) cancel_sub_wf by auto
  show "conn_ok w' d \<and> w_chans w (wc_chan d) = None" if "c = Some d" "\<not> wc_done d" for d
  proof -
    from that cases have "w' = w1" "d = c1" "ok" by auto
    with E S(4,5,7,2,10) visits_set [OF assms(2) fin] show ?thesis by (simp add: conn_ok_def)
  qed
  show "conn_ok w' d" if d: "conn_ok w d" for d
  proof -
    have ne: "wc_chan d \<noteq> ch" using conn_ok_chan [OF d] S(4) by metis
    have d1: "conn_ok w1 d"
      by (rule conn_ok_other [OF d]) (use S(6,7,8) ne in auto)
    have "conn_ok (cancel_sub ch w1) d"
      by (rule conn_ok_other [OF d1]) (use cancel_sub_other ne in auto)
    with cases d d1 show ?thesis by auto
  qed
qed

lemma handleWatch_round_ok:
  assumes "wf_watcher w" "conn_ok w c" "\<not> wc_done c" "handleWatch_round sel c w = (c', w')"
  shows "wf_watcher w'" "wc_chan c' = wc_chan c" "\<not> wc_done c' \<Longrightarrow> conn_ok w' c'"
    "\<And>d. conn_ok w d \<Longrightarrow> wc_chan d \<noteq> wc_chan c \<Longrightarrow> conn_ok w' d"
proof -
  obtain r w1 where rc: "recv_sub (wc_chan c) w = (r, w1)" by fastforce
  note O = recv_sub_other [OF rc]
  have wf1: "wf_watcher w1" by (rule recv_sub_wf [OF assms(1) rc])
  from assms(2) obtain ch where ch: "w_chans w (wc_chan c) = Some ch" using conn_ok_chan by auto
  have cases: "(wc_done c' \<and> wc_chan c' = wc_chan c \<and> (w' = cancel_sub (wc_chan c) w \<or> w' = cancel_sub (wc_chan c) w1)) \<or>
     (c' = c \<and> r = RecvBlocks \<and> w' = w1) \<or>
     (\<exists>ev. r = Received ev \<and> w' = w1 \<and> encode_line ev c = Some c')"
    using assms(4) rc
    by (auto simp: handleWatch_round_def Let_def split: select.splits recv.splits option.splits)
  show "wf_watcher w'" using cases assms(1) wf1 cancel_sub_wf by auto
  show "wc_chan c' = wc_chan c"
    using cases by (auto simp: encode_line_def split: if_splits)
  show "conn_ok w' c'" if nd: "\<not> wc_done c'"
  proof -
    from cases nd consider "c' = c" "r = RecvBlocks" "w' = w1"
      | ev where "r = Received ev" "w' = w1" "encode_line ev c = Some c'" by blast
    then show ?thesis
    proof cases
      case 1
      with rc ch have "w1 = w" by (auto simp: recv_sub_def split: list.splits if_splits)
      with 1 assms(2) show ?thesis by simp
    next
      case (2 ev)
      with rc ch obtain evs where evs: "c_buf ch = ev # evs"
        and w1: "w1 = w\<lparr>w_chans := (w_chans w)(wc_chan c \<mapsto> ch\<lparr>c_buf := evs\<rparr>)\<rparr>"
        by (auto simp: recv_sub_def split: list.splits if_splits)
      from 2(3) have c': "wc_chan c' = wc_chan c" "wc_sent c' = wc_sent c @ [ev]"
        by (auto simp: encode_line_def split: if_splits)
      have "wc_chan c \<in> set (w_subs w) \<longrightarrow> replay (wc_sent c @ c_buf ch) {} = w_current w"
        "wc_chan c \<notin> set (w_subs w) \<longrightarrow> c_closed ch"
        using assms(2) ch by (simp_all add: conn_ok_def split: if_splits)
      with c' evs show ?thesis unfolding conn_ok_def 2(2) w1 by simp
    qed
  qed
  show "conn_ok w' d" if d: "conn_ok w d" "wc_chan d \<noteq> wc_chan c" for d
  proof -
    have d1: "conn_ok w1 d" by (rule conn_ok_other [OF d(1)]) (use O d(2) in auto)
    have "conn_ok (cancel_sub (wc_chan c) v) d" if "conn_ok v d" for v
      by (rule conn_ok_other [OF that]) (use cancel_sub_other d(2) in auto)
    with cases d(1) d1 show ?thesis by auto
  qed
qed

lemma sv_inv_update:
  assumes "sv_inv s" "wf_watcher w"
    and old: "\<And>j d. j \<noteq> i \<Longrightarrow> sv_conns s j = Some d \<Longrightarrow> \<not> wc_done d \<Longrightarrow> conn_ok w d"
    and new: "\<And>d. c = Some d \<Longrightarrow> \<not> wc_done d \<Longrightarrow> conn_ok w d"
    and ne: "\<And>j d e. j \<noteq> i \<Longrightarrow> sv_conns s j = Some d \<Longrightarrow> \<not> wc_done d \<Longrightarrow> c = Some e \<Longrightarrow> \<not> wc_done e \<Longrightarrow>
      wc_chan d \<noteq> wc_chan e"
  shows "sv_inv (s\<lparr>sv_watcher := w, sv_conns := (sv_conns s)(i := c)\<rparr>)"
proof -
  let ?cs = "(sv_conns s)(i := c)"
  have "conn_ok w d" if "?cs j = Some d" "\<not> wc_done d" for j d
    using that old [of j d] new [of d] by (cases "j = i") simp_all
  moreover have "j = k" if "?cs j = Some d" "?cs k = Some e" "\<not> wc_done d" "\<not> wc_done e" "wc_chan d = wc_chan e" for j k d e
  proof (cases "j = i \<or> k = i")
    case True
    with that ne show ?thesis by (metis fun_upd_apply)
  next
    case False
    with that assms(1) show ?thesis unfolding sv_inv_def by auto
  qed
  ultimately show ?thesis using assms(2) unfolding sv_inv_def by (simp del: fun_upd_apply) blast
qed

lemma sv_step_inv:
  assumes "sv_step s s'" "sv_inv s"
  shows "sv_inv s'"
  using assms(1)
proof cases
  case (sv_scan it1 it2 raw)
  have wf: "wf_watcher (sv_watcher s)" using assms(2) by (simp add: sv_inv_def)
  note sc = conn_ok_scan [OF wf sv_scan(2-4)] scanOnce_wf [OF wf, of raw it1 it2, OF sv_scan(4)]
  with assms(2) show ?thesis unfolding sv_inv_def sv_scan(1) by auto
next
  case (sv_exclude l)
  with assms(2) show ?thesis by (auto simp: sv_inv_def conn_ok_Exclude)
next
  case (sv_unexclude l)
  with assms(2) show ?thesis by (auto simp: sv_inv_def conn_ok_Exclude)
next
  case (sv_open it flusher room c w i)
  have wf: "wf_watcher (sv_watcher s)" using assms(2) by (simp add: sv_inv_def)
  note H = handleWatch_open_ok [OF wf sv_open(2,3)]
  have new: "wc_chan d \<noteq> wc_chan e" if "sv_conns s j = Some d" "\<not> wc_done d" "c = Some e" "\<not> wc_done e" for j d e
  proof -
    have "conn_ok (sv_watcher s) d" using assms(2) that(1,2) unfolding sv_inv_def by blast
    with conn_ok_chan [OF this] H(2) [OF that(3,4)] show ?thesis by metis
  qed
  show ?thesis
    unfolding sv_open(1)
  proof (rule sv_inv_update [OF assms(2) H(1)])
    fix j d assume "sv_conns s j = Some d" "\<not> wc_done d"
    with assms(2) have "conn_ok (sv_watcher s) d" unfolding sv_inv_def by blast
    then show "conn_ok w d" by (rule H(3))
  qed (use H(2) new in blast)+
next
  case (sv_round i c sel c' w)
  have wf: "wf_watcher (sv_watcher s)" "conn_ok (sv_watcher s) c"
    using assms(2) sv_round(2,3) unfolding sv_inv_def by blast+
  note H = handleWatch_round_ok [OF wf sv_round(3,4)]
  have "conn_ok w d" if "sv_conns s j = Some d" "\<not> wc_done d" "j \<noteq> i" for j d
  proof (rule H(4))
    show "conn_ok (sv_watcher s) d" using assms(2) that(1,2) unfolding sv_inv_def by blast
    show "wc_chan d \<noteq> wc_chan c" using assms(2) that sv_round(2,3) unfolding sv_inv_def by blast
  qed
  with H(2,3) show ?thesis
    unfolding sv_round(1)
    by (intro sv_inv_update [OF assms(2) H(1)])
      (use assms(2) sv_round(2,3) in \<open>unfold sv_inv_def, auto\<close>)
qed

lemma sv_reachable_inv: "sv_reachable s \<Longrightarrow> sv_inv s"
proof (induction rule: sv_reachable.induct)
  case sv_init
  show ?case by (simp add: sv_inv_def server0_def NewWatcher_def wf_watcher_def)
qed (rule sv_step_inv)


text \<open>
  C5. The \<open>/watch\<close> stream is faithful. In every state that scans, excludes, new requests and
  handler rounds can reach in any order, a request still being served either is subscribed, and
  then the lines it sent so far followed by the events waiting in its channel replay to exactly
  the sockets the watcher knows, or it was dropped for lagging, and then its channel is closed and
  its handler returns.
\<close>

theorem watch_stream_faithful:
  assumes "sv_reachable s" "sv_conns s i = Some c" "\<not> wc_done c"
  shows "\<exists>ch. w_chans (sv_watcher s) (wc_chan c) = Some ch \<and>
    (if wc_chan c \<in> set (w_subs (sv_watcher s))
     then replay (wc_sent c @ c_buf ch) {} = w_current (sv_watcher s)
     else c_closed ch)"
  using sv_reachable_inv [OF assms(1)] assms(2,3) unfolding sv_inv_def conn_ok_def
  by (fastforce split: option.splits)

text \<open>A server with one scan and one request.\<close>

definition demo_listen :: Listen where
  "demo_listen = Listen ''v4'' ''tcp'' ''127.0.0.1'' 8080"

definition demo_watcher :: Watcher where
  "demo_watcher =
     scanOnce sorted_list_of_set sorted_list_of_set (Inr {demo_listen} :: (string, Listen set) result) NewWatcher"

definition demo_server :: server where
  "demo_server =
     (let (c, w) = handleWatch_open True sorted_list_of_set 10 demo_watcher
      in \<lparr>sv_watcher = w, sv_conns = Map.empty(0 := c)\<rparr>)"

lemma demo_server_reachable: "sv_reachable demo_server"
proof -
  let ?s = "\<lparr>sv_watcher = demo_watcher, sv_conns = Map.empty\<rparr>"
  have "sv_step server0 (server0\<lparr>sv_watcher := scanOnce sorted_list_of_set sorted_list_of_set
      (Inr {demo_listen} :: (string, Listen set) result) (sv_watcher server0)\<rparr>)"
    by (rule sv_scan) (simp_all add: visits_sorted)
  then have "sv_reachable ?s"
    using sv_init sv_next by (simp add: server0_def demo_watcher_def)
  moreover obtain c w where "handleWatch_open True sorted_list_of_set 10 demo_watcher = (c, w)" by fastforce
  with sv_open [of sorted_list_of_set True 10 ?s c w 0] have "sv_step ?s demo_server"
    by (simp add: visits_sorted demo_server_def)
  ultimately show ?thesis by (rule sv_next)
qed

lemma watch_stream_faithful_witness:
  "\<exists>c ch. sv_conns demo_server 0 = Some c \<and> w_chans (sv_watcher demo_server) (wc_chan c) = Some ch \<and>
     replay (wc_sent c @ c_buf ch) {} = {demo_listen}"
proof -
  have "map_option wc_done (sv_conns demo_server 0) = Some False"
    "map_option (\<lambda>c. wc_chan c \<in> set (w_subs (sv_watcher demo_server))) (sv_conns demo_server 0) = Some True"
    by code_simp+
  then obtain c where c: "sv_conns demo_server 0 = Some c" "\<not> wc_done c"
    "wc_chan c \<in> set (w_subs (sv_watcher demo_server))" by auto
  have "w_current (sv_watcher demo_server) = {demo_listen}" by code_simp
  with watch_stream_faithful [OF demo_server_reachable c(1,2)] c(1,3) show ?thesis by auto
qed

section \<open>A dropped stream ends\<close>

fun handleWatch_rounds :: "nat \<Rightarrow> watch_conn \<Rightarrow> Watcher \<Rightarrow> watch_conn \<times> Watcher" where
  "handleWatch_rounds n c w =
     (if wc_done c then (c, w)
      else case n of
        0 \<Rightarrow> (c, w)
      | Suc m \<Rightarrow> (let (c', w') = handleWatch_round SelEvent c w in handleWatch_rounds m c' w'))"

declare handleWatch_rounds.simps [simp del]

text \<open>
  C17. Once the watcher has dropped a subscriber, its handler does not wait forever: after as many
  rounds as its channel holds events, and one more, it has returned, having written the events
  left in the channel in order as far as the response took them.
\<close>

theorem dropped_stream_ends:
  assumes "w_chans w (wc_chan c) = Some ch" "c_closed ch" "\<not> wc_done c"
  shows "wc_done (fst (handleWatch_rounds (Suc (length (c_buf ch))) c w)) \<and>
    wc_sent (fst (handleWatch_rounds (Suc (length (c_buf ch))) c w)) = wc_sent c @ take (wc_room c) (c_buf ch)"
  using assms
proof (induction "c_buf ch" arbitrary: ch c w)
  case Nil
  then show ?case
    by (simp add: handleWatch_rounds.simps handleWatch_round_def recv_sub_def Let_def)
next
  case (Cons ev evs)
  let ?ch = "ch\<lparr>c_buf := evs\<rparr>" and ?w = "w\<lparr>w_chans := (w_chans w)(wc_chan c \<mapsto> ch\<lparr>c_buf := evs\<rparr>)\<rparr>"
  have rc: "recv_sub (wc_chan c) w = (Received ev, ?w)"
    using Cons.prems(1) Cons.hyps(2) by (simp add: recv_sub_def flip: Cons.hyps(2))
  show ?case
  proof (cases "wc_room c")
    case 0
    then have "handleWatch_round SelEvent c w = (c\<lparr>wc_done := True\<rparr>, cancel_sub (wc_chan c) ?w)"
      using rc by (simp add: handleWatch_round_def encode_line_def Let_def)
    with 0 Cons.prems(3) show ?thesis by (simp add: handleWatch_rounds.simps)
  next
    case (Suc r)
    let ?c = "c\<lparr>wc_sent := wc_sent c @ [ev], wc_room := r\<rparr>"
    have "handleWatch_round SelEvent c w = (?c, ?w)"
      using rc Suc by (simp add: handleWatch_round_def encode_line_def Let_def)
    moreover note Cons.hyps(1) [of ?ch ?w ?c]
    ultimately show ?thesis
      using Suc Cons.prems(2,3) by (simp add: handleWatch_rounds.simps [of _ c w] flip: Cons.hyps(2))
  qed
qed

lemma dropped_stream_ends_witness:
  "wc_done (fst (handleWatch_rounds 2 \<lparr>wc_chan = 0, wc_sent = [], wc_room = 9, wc_done = False\<rparr>
     (NewWatcher\<lparr>w_chans := [0 \<mapsto> \<lparr>c_buf = [sync_event], c_closed = True\<rparr>]\<rparr>)))"
  using dropped_stream_ends [of "NewWatcher\<lparr>w_chans := [0 \<mapsto> \<lparr>c_buf = [sync_event], c_closed = True\<rparr>]\<rparr>"
      "\<lparr>wc_chan = 0, wc_sent = [], wc_room = 9, wc_done = False\<rparr>" "\<lparr>c_buf = [sync_event], c_closed = True\<rparr>"]
  by (simp add: numeral_2_eq_2)

section \<open>Excluding is not retroactive\<close>

text \<open>
  A subscription made after \<open>Exclude\<close> but before the next scan still has the socket in its
  snapshot.
\<close>

lemma exclude_snapshot_stale:
  assumes "wf_watcher w" "visits it" "l \<in> w_current w" "Subscribe it (Exclude l w) = (c, snap, w')"
  shows "l \<in> set snap"
proof -
  have "finite (w_current w)" using assms(1) by (simp add: wf_watcher_def)
  with assms(3) visits_set [OF assms(2)] have "l \<in> set (it (w_current (Exclude l w)))" by simp
  moreover have "snap = sort_key listen_String (it (w_current (Exclude l w)))"
    using assms(4) by (auto simp: Subscribe_def Let_def)
  ultimately show ?thesis by simp
qed

end
