(* ===== verification/LoPeer.thy ===== *)
theory LoPeer
  imports LoProxy LoWatch
begin

text \<open>
  Peers, \<open>internal/lo/peer.go\<close>: a manager per peer follows the peer's \<open>/watch\<close> stream and keeps one
  proxy for every socket it reports. The watcher is shared by all managers. JSON decoding of a line
  is an argument (\<open>decode\<close>), and each line comes with the operating system's answers to binds at
  that time.
\<close>

section \<open>State\<close>

record peerManager =
  pm_name :: string
  pm_sockPath :: string
  pm_proxies :: "(Listen \<times> Proxy) list"

definition newPeerManager :: "string \<Rightarrow> string \<Rightarrow> peerManager" where
  "newPeerManager name sockPath = \<lparr>pm_name = name, pm_sockPath = sockPath, pm_proxies = []\<rparr>"

definition pm_keys :: "peerManager \<Rightarrow> Listen set" where
  "pm_keys pm = fst ` set (pm_proxies pm)"

section \<open>Operations\<close>

type_synonym bind_answer = "string \<Rightarrow> string \<Rightarrow> bool"

definition pm_add :: "bind_answer \<Rightarrow> Listen \<Rightarrow> peerManager \<times> Watcher \<Rightarrow> peerManager \<times> Watcher" where
  "pm_add can_bind l st =
     (case st of (pm, w) \<Rightarrow>
        (case map_of (pm_proxies pm) l of
           Some _ \<Rightarrow> (pm, w)
         | None \<Rightarrow>
             (case StartProxy can_bind (pm_sockPath pm) l w of
                (Inl e, w1) \<Rightarrow> (pm, w1)
              | (Inr proxy, w1) \<Rightarrow> (pm\<lparr>pm_proxies := pm_proxies pm @ [(l, proxy)]\<rparr>, w1))))"

text \<open>
  The entry is deleted under the manager's mutex and the proxy closed after it; both are one step here,
  as only the manager's own goroutine removes proxies.
\<close>

definition pm_remove :: "Listen \<Rightarrow> peerManager \<times> Watcher \<Rightarrow> peerManager \<times> Watcher" where
  "pm_remove l st =
     (case st of (pm, w) \<Rightarrow>
        (case map_of (pm_proxies pm) l of
           None \<Rightarrow> (pm, w)
         | Some proxy \<Rightarrow>
             (pm\<lparr>pm_proxies := filter (\<lambda>e. fst e \<noteq> l) (pm_proxies pm)\<rparr>, proxy_Close proxy w)))"

definition pm_reconcile :: "Listen iteration \<Rightarrow> Listen set \<Rightarrow> peerManager \<times> Watcher \<Rightarrow> peerManager \<times> Watcher" where
  "pm_reconcile it seen st =
     (let stale = filter (\<lambda>l. l \<notin> seen) (it (pm_keys (fst st))) in fold pm_remove stale st)"

text \<open>\<open>stopAll\<close> empties the map first and then closes the proxies it held.\<close>

definition pm_stopAll :: "peerManager \<times> Watcher \<Rightarrow> peerManager \<times> Watcher" where
  "pm_stopAll st =
     (case st of (pm, w) \<Rightarrow>
        (pm\<lparr>pm_proxies := []\<rparr>, fold (\<lambda>(l, proxy) w. proxy_Close proxy w) (pm_proxies pm) w))"

section \<open>Following a stream\<close>

text \<open>The loop body of \<open>watchOnce\<close>: the sockets seen before the sync marker, and whether it came.\<close>

record watching =
  wt_seen :: "Listen set"
  wt_synced :: bool

definition watch_event ::
  "Listen iteration \<Rightarrow> bind_answer \<Rightarrow> Event \<Rightarrow> watching \<times> peerManager \<times> Watcher \<Rightarrow> watching \<times> peerManager \<times> Watcher"
where
  "watch_event it can_bind ev s =
     (case s of (wt, st) \<Rightarrow>
        if ev_Op ev = ''sync'' then (wt\<lparr>wt_synced := True\<rparr>, pm_reconcile it (wt_seen wt) st)
        else if ev_Op ev = ''add'' then
          (if wt_synced wt then wt else wt\<lparr>wt_seen := insert (ev_Listen ev) (wt_seen wt)\<rparr>,
           pm_add can_bind (ev_Listen ev) st)
        else if ev_Op ev = ''remove'' then (wt, pm_remove (ev_Listen ev) st)
        else s)"

fun watch_lines ::
  "(string \<Rightarrow> Event option) \<Rightarrow> Listen iteration \<Rightarrow> (string \<times> bind_answer) list \<Rightarrow>
     watching \<times> peerManager \<times> Watcher \<Rightarrow> watching \<times> peerManager \<times> Watcher"
where
  "watch_lines decode it [] s = s"
| "watch_lines decode it ((line, can_bind) # ls) s =
     (case decode line of
        None \<Rightarrow> watch_lines decode it ls s
      | Some ev \<Rightarrow> watch_lines decode it ls (watch_event it can_bind ev s))"

text \<open>One connection: it fails, answers with another status than 200, or streams lines.\<close>

datatype watch_response = RequestFailed | BadStatus | Stream "(string \<times> bind_answer) list" bool

definition watchOnce ::
  "(string \<Rightarrow> Event option) \<Rightarrow> Listen iteration \<Rightarrow> watch_response \<Rightarrow> peerManager \<times> Watcher \<Rightarrow>
     (unit, unit) result \<times> peerManager \<times> Watcher"
where
  "watchOnce decode it resp st =
     (case resp of
        RequestFailed \<Rightarrow> (Inl (), st)
      | BadStatus \<Rightarrow> (Inl (), st)
      | Stream ls ok \<Rightarrow>
          (if ok then Inr () else Inl (),
           snd (watch_lines decode it ls (\<lparr>wt_seen = {}, wt_synced = False\<rparr>, st))))"

text \<open>\<open>run\<close>: connections one after another until the context ends, then \<open>stopAll\<close>.\<close>

definition pm_run ::
  "(string \<Rightarrow> Event option) \<Rightarrow> Listen iteration \<Rightarrow> watch_response list \<Rightarrow> peerManager \<times> Watcher \<Rightarrow> peerManager \<times> Watcher"
where
  "pm_run decode it resps st = pm_stopAll (fold (\<lambda>r st. snd (watchOnce decode it r st)) resps st)"

section \<open>Mirrors\<close>

text \<open>
  The contract of a component that keeps a set of resources in step with announced additions and
  removals: removing takes exactly one out, adding puts in at most the one announced (starting it
  may fail).
\<close>

locale set_mirror =
  fixes view :: "'s \<Rightarrow> 'a set" and add :: "'a \<Rightarrow> 's \<Rightarrow> 's" and remove :: "'a \<Rightarrow> 's \<Rightarrow> 's" and ok :: "'s \<Rightarrow> bool"
  assumes ok_add: "ok s \<Longrightarrow> ok (add x s)"
    and ok_remove: "ok s \<Longrightarrow> ok (remove x s)"
    and view_add: "ok s \<Longrightarrow> view s \<subseteq> view (add x s) \<and> view (add x s) \<subseteq> insert x (view s)"
    and view_remove: "ok s \<Longrightarrow> view (remove x s) = view s - {x}"
begin

definition mirror_step :: "'a + 'a \<Rightarrow> 's \<Rightarrow> 's" where
  "mirror_step d s = (case d of Inl x \<Rightarrow> add x s | Inr x \<Rightarrow> remove x s)"

definition target_step :: "'a + 'a \<Rightarrow> 'a set \<Rightarrow> 'a set" where
  "target_step d S = (case d of Inl x \<Rightarrow> insert x S | Inr x \<Rightarrow> S - {x})"

lemma step_ok: "ok s \<Longrightarrow> ok (mirror_step d s)"
  by (simp add: mirror_step_def ok_add ok_remove split: sum.splits)

lemma step_subset: "ok s \<Longrightarrow> view s \<subseteq> S \<Longrightarrow> view (mirror_step d s) \<subseteq> target_step d S"
  using view_add [of s] view_remove [of s] by (fastforce simp: mirror_step_def target_step_def split: sum.splits)

lemma steps_subset:
  "ok s \<Longrightarrow> view s \<subseteq> S \<Longrightarrow> view (fold mirror_step ds s) \<subseteq> fold target_step ds S \<and> ok (fold mirror_step ds s)"
proof (induction ds arbitrary: s S)
  case (Cons d ds)
  from Cons.IH [OF step_ok step_subset] Cons.prems show ?case by simp
qed simp

lemma removes_view: "ok s \<Longrightarrow> view (fold remove xs s) = view s - set xs \<and> ok (fold remove xs s)"
  by (induction xs arbitrary: s) (auto simp: view_remove ok_remove)

lemma step_exact:
  assumes "ok s" "view s = S" "\<And>x. d = Inl x \<Longrightarrow> x \<in> view (add x s)"
  shows "view (mirror_step d s) = target_step d S"
  using assms view_add [of s] view_remove [of s] by (fastforce simp: mirror_step_def target_step_def split: sum.splits)

end


section \<open>The peer manager is a mirror\<close>

definition pm_ok :: "peerManager \<Rightarrow> bool" where
  "pm_ok pm \<longleftrightarrow> distinct (map fst (pm_proxies pm)) \<and> (\<forall>l p. (l, p) \<in> set (pm_proxies pm) \<longrightarrow> p_listen p = l)"

definition st_ok :: "peerManager \<times> Watcher \<Rightarrow> bool" where
  "st_ok st \<longleftrightarrow> pm_ok (fst st) \<and> excluded_ok (snd st)"

lemma StartProxy_cases:
  assumes "excluded_ok w" "StartProxy can_bind sock l w = (r, w1)"
  shows "excluded_ok w1"
    "(\<exists>e. r = Inl e \<and> (\<forall>k. excluded_count w1 k = excluded_count w k)) \<or>
     (\<exists>p. r = Inr p \<and> p_listen p = l \<and> (\<forall>k. excluded_count w1 k = excluded_count w k + (if k = l then 1 else 0)))"
  using assms(2) excl.ok_inc [OF assms(1)] excl.ok_dec [OF excl.ok_inc [OF assms(1)]]
    excl.inc_dec [OF assms(1)] excl.count_inc [OF assms(1)]
  by (auto simp: StartProxy_def Let_def split: if_splits)

lemma keys_lookup: "l \<in> pm_keys pm \<longleftrightarrow> map_of (pm_proxies pm) l \<noteq> None"
  by (simp add: pm_keys_def map_of_eq_None_iff)

lemma finite_keys [simp]: "finite (pm_keys pm)"
  by (simp add: pm_keys_def)

lemma keys_update [simp]:
  "pm_keys (pm\<lparr>pm_proxies := ps @ [(l, p)]\<rparr>) = insert l (fst ` set ps)"
  by (simp add: pm_keys_def)

lemma count_list_distinct: "distinct xs \<Longrightarrow> count_list xs x = (if x \<in> set xs then 1 else 0)"
  by (induction xs) auto

lemma pm_add_cases:
  assumes "st_ok (pm, w)" "pm_add can_bind l (pm, w) = (pm', w')"
  shows "(pm' = pm \<and> (\<forall>k. excluded_count w' k = excluded_count w k)) \<or>
    (l \<notin> pm_keys pm \<and> pm_keys pm' = insert l (pm_keys pm) \<and>
     (\<forall>k. excluded_count w' k = excluded_count w k + (if k = l then 1 else 0)))"
    "st_ok (pm', w')"
proof -
  obtain r w1 where sp: "StartProxy can_bind (pm_sockPath pm) l w = (r, w1)" by fastforce
  have ok: "excluded_ok w" "pm_ok pm" using assms(1) by (simp_all add: st_ok_def)
  note S = StartProxy_cases [OF ok(1) sp]
  show "(pm' = pm \<and> (\<forall>k. excluded_count w' k = excluded_count w k)) \<or>
    (l \<notin> pm_keys pm \<and> pm_keys pm' = insert l (pm_keys pm) \<and>
     (\<forall>k. excluded_count w' k = excluded_count w k + (if k = l then 1 else 0)))"
    using assms(2) sp S(2) keys_lookup [of l pm]
    by (auto simp: pm_add_def pm_keys_def [of pm, symmetric] split: option.splits)
  show "st_ok (pm', w')"
    using assms(2) sp S ok keys_lookup [of l pm]
    by (auto simp: pm_add_def st_ok_def pm_ok_def pm_keys_def split: option.splits)
qed

lemma pm_remove_cases:
  assumes "st_ok (pm, w)" "pm_remove l (pm, w) = (pm', w')"
  shows "pm_keys pm' = pm_keys pm - {l}" "st_ok (pm', w')"
    "w' = (if l \<in> pm_keys pm then Unexclude l w else w)"
proof -
  have ok: "excluded_ok w" "pm_ok pm" using assms(1) by (simp_all add: st_ok_def)
  have "p_listen p = l" if "map_of (pm_proxies pm) l = Some p" for p
    using map_of_SomeD [OF that] ok(2) by (simp add: pm_ok_def)
  then show "pm_keys pm' = pm_keys pm - {l}" "st_ok (pm', w')" "w' = (if l \<in> pm_keys pm then Unexclude l w else w)"
    using assms(2) ok excl.ok_dec [OF ok(1)] keys_lookup [of l pm]
    by (auto simp: pm_remove_def pm_keys_def st_ok_def pm_ok_def proxy_Close_def distinct_map_filter split: option.splits)
qed

interpretation pmir: set_mirror "\<lambda>st. pm_keys (fst st)" "pm_add can_bind" pm_remove st_ok for can_bind
proof unfold_locales
  fix s :: "peerManager \<times> Watcher" and x :: Listen
  assume ok: "st_ok s"
  obtain pm w where s: "s = (pm, w)" by fastforce
  obtain pm' w' where a: "pm_add can_bind x (pm, w) = (pm', w')" by fastforce
  obtain pm'' w'' where r: "pm_remove x (pm, w) = (pm'', w'')" by fastforce
  note A = pm_add_cases [OF ok [unfolded s] a] and R = pm_remove_cases [OF ok [unfolded s] r]
  show "st_ok (pm_add can_bind x s)" "st_ok (pm_remove x s)" using A(2) R(2) a r s by simp_all
  show "pm_keys (fst s) \<subseteq> pm_keys (fst (pm_add can_bind x s)) \<and>
      pm_keys (fst (pm_add can_bind x s)) \<subseteq> insert x (pm_keys (fst s))"
    using A(1) a s by auto
  show "pm_keys (fst (pm_remove x s)) = pm_keys (fst s) - {x}" using R(1) r s by simp
qed

section \<open>Exclusions held\<close>

definition held :: "peerManager \<Rightarrow> Listen \<Rightarrow> int" where
  "held pm l = (if l \<in> pm_keys pm then 1 else 0)"

text \<open>The exclusions not held by this manager: those of the other ones.\<close>

definition others :: "peerManager \<times> Watcher \<Rightarrow> Listen \<Rightarrow> int" where
  "others st l = excluded_count (snd st) l - held (fst st) l"

definition st_inv :: "peerManager \<times> Watcher \<Rightarrow> bool" where
  "st_inv st \<longleftrightarrow> st_ok st \<and> (\<forall>l. 0 \<le> others st l)"

lemma pm_add_others:
  assumes "st_inv st"
  shows "st_inv (pm_add can_bind l st)" "others (pm_add can_bind l st) = others st"
proof -
  obtain pm w where s: "st = (pm, w)" by fastforce
  obtain pm' w' where a: "pm_add can_bind l (pm, w) = (pm', w')" by fastforce
  note A = pm_add_cases [OF _ a]
  have "st_ok (pm, w)" using assms s by (simp add: st_inv_def)
  note A = A [OF this]
  have "others (pm', w') k = others (pm, w) k" for k
    using A(1) by (auto simp: others_def held_def)
  then show "others (pm_add can_bind l st) = others st" using a s by (simp add: fun_eq_iff)
  with A(2) assms a s show "st_inv (pm_add can_bind l st)" by (simp add: st_inv_def)
qed

lemma pm_remove_others:
  assumes "st_inv st"
  shows "st_inv (pm_remove l st)" "others (pm_remove l st) = others st"
proof -
  obtain pm w where s: "st = (pm, w)" by fastforce
  obtain pm' w' where r: "pm_remove l (pm, w) = (pm', w')" by fastforce
  have ok: "st_ok (pm, w)" "excluded_ok w" and nn: "0 \<le> others (pm, w) l"
    using assms s by (auto simp: st_inv_def st_ok_def)
  note R = pm_remove_cases [OF ok(1) r]
  have "others (pm', w') k = others (pm, w) k" for k
    using R(1,3) nn excl.count_dec [OF ok(2), of l k] by (auto simp: others_def held_def split: if_splits)
  then show "others (pm_remove l st) = others st" using r s by (simp add: fun_eq_iff)
  with R(2) assms r s show "st_inv (pm_remove l st)" by (simp add: st_inv_def)
qed

lemma fold_others:
  assumes "\<And>x st. st_inv st \<Longrightarrow> st_inv (f x st) \<and> others (f x st) = others st"
  shows "st_inv st \<Longrightarrow> st_inv (fold f xs st) \<and> others (fold f xs st) = others st"
  using assms by (induction xs arbitrary: st) auto

lemma pm_reconcile_others:
  "st_inv st \<Longrightarrow> st_inv (pm_reconcile it seen st) \<and> others (pm_reconcile it seen st) = others st"
  unfolding pm_reconcile_def Let_def by (rule fold_others) (auto simp: pm_remove_others)

lemma pm_stopAll_others:
  assumes "st_inv st"
  shows "st_inv (pm_stopAll st)" "others (pm_stopAll st) = others st" "pm_proxies (fst (pm_stopAll st)) = []"
proof -
  obtain pm w where s: "st = (pm, w)" by fastforce
  have ok: "pm_ok pm" "excluded_ok w" and nn: "\<And>l. 0 \<le> others (pm, w) l"
    using assms s by (auto simp: st_inv_def st_ok_def)
  let ?ks = "map fst (pm_proxies pm)"
  have "fold (\<lambda>(l, proxy) w. proxy_Close proxy w) ps v = fold Unexclude (map fst ps) v"
    if "\<forall>l p. (l, p) \<in> set ps \<longrightarrow> p_listen p = l" for ps v
    using that by (induction ps arbitrary: v) (auto simp: proxy_Close_def)
  then have st': "pm_stopAll st = (pm\<lparr>pm_proxies := []\<rparr>, fold Unexclude ?ks w)"
    using ok(1) s by (simp add: pm_stopAll_def pm_ok_def)
  have cl: "int (count_list ?ks l) = held pm l" for l
    using ok(1) by (auto simp: pm_ok_def held_def pm_keys_def count_list_distinct)
  have "int (count_list ?ks l) \<le> excluded_count w l" for l using nn [of l] cl by (simp add: others_def)
  from excl.count_decs [OF ok(2) this] cl have
    c: "excluded_ok (fold Unexclude ?ks w)" "\<And>l. excluded_count (fold Unexclude ?ks w) l = others (pm, w) l"
    by (auto simp: others_def)
  show "others (pm_stopAll st) = others st" using c(2) s st' by (simp add: fun_eq_iff others_def held_def pm_keys_def)
  then show "st_inv (pm_stopAll st)" using c(1) assms st' by (simp add: st_inv_def st_ok_def pm_ok_def)
  show "pm_proxies (fst (pm_stopAll st)) = []" by (simp add: st')
qed

lemma watch_event_others:
  assumes "st_inv st"
  shows "st_inv (snd (watch_event it can_bind ev (wt, st)))" "others (snd (watch_event it can_bind ev (wt, st))) = others st"
  using assms pm_add_others pm_remove_others pm_reconcile_others by (auto simp: watch_event_def)

section \<open>All peers of a container\<close>

record lo_system =
  ls_watcher :: Watcher
  ls_peers :: "peerManager list"

definition lo_system0 :: lo_system where
  "lo_system0 = \<lparr>ls_watcher = NewWatcher, ls_peers = []\<rparr>"

text \<open>
  Scans, newly discovered peers, events of any peer's stream and the end of any peer's manager, in
  any order. What a stream has seen so far is local to its connection.
\<close>

inductive ls_step :: "lo_system \<Rightarrow> lo_system \<Rightarrow> bool" where
  ls_scan: "ls_step s (s\<lparr>ls_watcher := scanOnce it1 it2 (raw :: (string, Listen set) result) (ls_watcher s)\<rparr>)"
| ls_new: "ls_step s (s\<lparr>ls_peers := ls_peers s @ [newPeerManager name sock]\<rparr>)"
| ls_event: "i < length (ls_peers s) \<Longrightarrow>
     snd (watch_event it can_bind ev (wt, ls_peers s ! i, ls_watcher s)) = (pm, w) \<Longrightarrow>
     ls_step s (s\<lparr>ls_watcher := w, ls_peers := (ls_peers s)[i := pm]\<rparr>)"
| ls_stop: "i < length (ls_peers s) \<Longrightarrow> pm_stopAll (ls_peers s ! i, ls_watcher s) = (pm, w) \<Longrightarrow>
     ls_step s (s\<lparr>ls_watcher := w, ls_peers := (ls_peers s)[i := pm]\<rparr>)"

definition total_held :: "peerManager list \<Rightarrow> Listen \<Rightarrow> int" where
  "total_held pms l = (\<Sum>pm\<leftarrow>pms. held pm l)"

definition ls_inv :: "lo_system \<Rightarrow> bool" where
  "ls_inv s \<longleftrightarrow>
     excluded_ok (ls_watcher s) \<and> (\<forall>pm \<in> set (ls_peers s). pm_ok pm) \<and>
     (\<forall>l. excluded_count (ls_watcher s) l = total_held (ls_peers s) l)"

lemma total_held_update:
  "i < length pms \<Longrightarrow> total_held (pms[i := pm]) l = total_held pms l - held (pms ! i) l + held pm l"
  unfolding total_held_def by (induction pms arbitrary: i) (auto split: nat.splits)

lemma held_le_total: "pm \<in> set pms \<Longrightarrow> held pm l \<le> total_held pms l"
proof (induction pms)
  case (Cons q pms)
  have nn: "0 \<le> held p l" for p by (simp add: held_def)
  then have "0 \<le> total_held pms l" by (auto simp: total_held_def intro!: sum_list_nonneg)
  with Cons nn [of q] show ?case by (cases "pm = q") (auto simp: total_held_def)
qed simp

lemma ls_inv_peer:
  assumes "ls_inv s" "i < length (ls_peers s)" "st_inv (pm, w)"
    and "others (pm, w) = others (ls_peers s ! i, ls_watcher s)"
  shows "ls_inv (s\<lparr>ls_watcher := w, ls_peers := (ls_peers s)[i := pm]\<rparr>)"
proof -
  have "excluded_count w l = total_held ((ls_peers s)[i := pm]) l" for l
    using fun_cong [OF assms(4), of l] assms(1,2) total_held_update [OF assms(2)]
    by (simp add: others_def ls_inv_def)
  moreover have "\<forall>q \<in> set ((ls_peers s)[i := pm]). pm_ok q"
    using assms(1,3) set_update_subset_insert [of "ls_peers s" i pm] by (auto simp: ls_inv_def st_inv_def st_ok_def)
  ultimately show ?thesis using assms(3) by (simp add: ls_inv_def st_inv_def st_ok_def)
qed

lemma ls_inv_st:
  assumes "ls_inv s" "i < length (ls_peers s)"
  shows "st_inv (ls_peers s ! i, ls_watcher s)"
proof -
  have m: "ls_peers s ! i \<in> set (ls_peers s)" using assms(2) by simp
  then show ?thesis
    using assms(1) held_le_total [OF m] by (auto simp: st_inv_def st_ok_def others_def ls_inv_def)
qed

lemma publish_one_excluded: "w_excluded (fold (publish_one ev) cs w) = w_excluded w"
  by (induction cs arbitrary: w) auto

lemma publish_excluded: "w_excluded (publish ev w) = w_excluded w"
  by (simp add: publish_def publish_one_excluded)

lemma fold_if_excluded:
  "w_excluded (fold (\<lambda>l v. if P l v then publish (f l) v else v) xs w) = w_excluded w"
  by (induction xs arbitrary: w) (auto simp: publish_excluded)

lemma scanOnce_excluded: "w_excluded (scanOnce it1 it2 raw w) = w_excluded w"
  by (simp add: scanOnce_def Let_def fold_if_excluded split: sum.splits)

lemma excluded_cong:
  assumes "w_excluded w' = w_excluded w"
  shows "excluded_ok w' = excluded_ok w" "excluded_count w' l = excluded_count w l"
  by (simp_all add: excluded_ok_def excluded_count_def assms)

lemma ls_step_inv: "ls_step s s' \<Longrightarrow> ls_inv s \<Longrightarrow> ls_inv s'"
proof (induction rule: ls_step.induct)
  case (ls_scan s it1 it2 raw)
  then show ?case by (simp add: ls_inv_def excluded_cong [OF scanOnce_excluded])
next
  case (ls_new s name sock)
  then show ?case
    by (auto simp: ls_inv_def total_held_def held_def newPeerManager_def pm_keys_def pm_ok_def)
next
  case (ls_event i s it can_bind ev wt pm w)
  with watch_event_others [OF ls_inv_st, of s i it can_bind ev wt] ls_inv_peer show ?case by metis
next
  case (ls_stop i s pm w)
  with pm_stopAll_others [OF ls_inv_st, of s i] ls_inv_peer show ?case by metis
qed

text \<open>
  C6. Reference counting across peers: in every state scans, new peers, stream events, reconciling
  and stopping of peers can reach in any order, the exclusion count of a socket is the number of
  peers that have a proxy for it. So a scan hides a socket exactly as long as some peer's proxy
  stands for it.
\<close>

theorem exclusions_match_proxies:
  assumes "ls_step\<^sup>*\<^sup>* lo_system0 s"
  shows "excluded_count (ls_watcher s) l = int (length (filter (\<lambda>pm. l \<in> pm_keys pm) (ls_peers s))) \<and>
    (l \<in> visible (ls_watcher s) {l} \<longleftrightarrow> (\<forall>pm \<in> set (ls_peers s). l \<notin> pm_keys pm))"
proof -
  have "ls_inv s"
    using assms
  proof (induction rule: rtranclp_induct)
    case base
    show ?case
      by (simp add: ls_inv_def lo_system0_def NewWatcher_def excluded_ok_def excluded_count_def total_held_def)
  qed (rule ls_step_inv)
  moreover have "total_held pms l = int (length (filter (\<lambda>pm. l \<in> pm_keys pm) pms))" for pms
    by (induction pms) (auto simp: total_held_def held_def)
  ultimately show ?thesis by (auto simp: ls_inv_def visible_def filter_empty_conv)
qed

definition demo_system :: lo_system where
  "demo_system =
     (let s = lo_system0\<lparr>ls_peers := [newPeerManager ''b'' ''/peel/lo/b'']\<rparr>;
          (pm, w) = snd (watch_event sorted_list_of_set (\<lambda>_ _. True) (add_event demo_listen)
            (\<lparr>wt_seen = {}, wt_synced = True\<rparr>, ls_peers s ! 0, ls_watcher s))
      in s\<lparr>ls_watcher := w, ls_peers := (ls_peers s)[0 := pm]\<rparr>)"

lemma exclusions_match_proxies_witness:
  "excluded_count (ls_watcher demo_system) demo_listen = 1"
proof -
  let ?s = "lo_system0\<lparr>ls_peers := ls_peers lo_system0 @ [newPeerManager ''b'' ''/peel/lo/b'']\<rparr>"
  have 1: "ls_step lo_system0 ?s" by (rule ls_new)
  obtain pm w where e: "snd (watch_event sorted_list_of_set (\<lambda>_ _. True) (add_event demo_listen)
      (\<lparr>wt_seen = {}, wt_synced = True\<rparr>, ls_peers ?s ! 0, ls_watcher ?s)) = (pm, w)" by fastforce
  have "ls_step ?s (?s\<lparr>ls_watcher := w, ls_peers := (ls_peers ?s)[0 := pm]\<rparr>)"
    by (rule ls_event [OF _ e]) simp
  moreover have "?s\<lparr>ls_watcher := w, ls_peers := (ls_peers ?s)[0 := pm]\<rparr> = demo_system"
    using e by (simp add: demo_system_def lo_system0_def)
  ultimately have "ls_step\<^sup>*\<^sup>* lo_system0 demo_system" using 1 by (simp add: rtranclp.rtrancl_into_rtrancl r_into_rtranclp)
  moreover have "length (filter (\<lambda>pm. demo_listen \<in> pm_keys pm) (ls_peers demo_system)) = 1"
    by (simp add: demo_system_def watch_event_def add_event_def pm_add_def newPeerManager_def StartProxy_def
        demo_listen_def TCP_def pm_keys_def lo_system0_def)
  ultimately show ?thesis using exclusions_match_proxies [of demo_system demo_listen] by simp
qed

end
