(* ===== verification/LoSync.thy ===== *)
theory LoSync
  imports LoPeer
begin

text \<open>
  What following a \<open>/watch\<close> stream achieves: a peer manager that reads a stream of the form the
  server sends (the snapshot, the sync marker, then additions and removals) ends with proxies for
  exactly the sockets the stream replays to, whatever proxies it had kept from earlier
  connections. Together with the faithfulness of the stream this says that one container's
  proxies mirror another one's sockets.
\<close>

section \<open>Streams\<close>

definition delta :: "Event \<Rightarrow> bool" where
  "delta ev \<longleftrightarrow> (\<exists>l. ev = add_event l \<or> ev = remove_event l)"

definition stream_shape :: "Event list \<Rightarrow> bool" where
  "stream_shape evs \<longleftrightarrow> (\<exists>snap ds. evs = map add_event snap @ sync_event # ds \<and> list_all delta ds)"

lemma deltas_simps [simp]: "delta (add_event l)" "delta (remove_event l)"
  by (auto simp: delta_def)

lemma stream_shape_snoc: "stream_shape evs \<Longrightarrow> delta ev \<Longrightarrow> stream_shape (evs @ [ev])"
proof -
  assume "stream_shape evs" "delta ev"
  then obtain snap ds where "evs @ [ev] = map add_event snap @ sync_event # (ds @ [ev])" "list_all delta (ds @ [ev])"
    by (auto simp: stream_shape_def)
  then show ?thesis unfolding stream_shape_def by blast
qed

section \<open>The peer's side\<close>

text \<open>Lines that decode to events, each with the operating system's answers at that time.\<close>

abbreviation follow :: "Listen iteration \<Rightarrow> (Event \<times> bind_answer) list \<Rightarrow>
    watching \<times> peerManager \<times> Watcher \<Rightarrow> watching \<times> peerManager \<times> Watcher" where
  "follow it \<equiv> fold (\<lambda>(ev, can_bind). watch_event it can_bind ev)"

lemma watch_lines_follow:
  assumes "\<forall>(ev, cb) \<in> set es. decode (enc ev) = Some ev"
  shows "watch_lines decode it (map (map_prod enc id) es) s = follow it es s"
  using assms
proof (induction es arbitrary: s)
  case (Cons e es)
  then show ?case by (cases e) simp
qed simp

definition startable :: "Event \<times> bind_answer \<Rightarrow> bool" where
  "startable e \<longleftrightarrow> ev_Op (fst e) = ''add'' \<longrightarrow> l_Proto (ev_Listen (fst e)) \<in> {TCP, UDP} \<and> (\<forall>n a. snd e n a)"

lemma event_simps [simp]:
  "watch_event it cb (add_event l) (wt, st) =
     (if wt_synced wt then wt else wt\<lparr>wt_seen := insert l (wt_seen wt)\<rparr>, pm_add cb l st)"
  "watch_event it cb (remove_event l) (wt, st) = (wt, pm_remove l st)"
  "watch_event it cb sync_event (wt, st) = (wt\<lparr>wt_synced := True\<rparr>, pm_reconcile it (wt_seen wt) st)"
  by (simp_all add: watch_event_def event_defs)

lemma pm_add_started:
  assumes "startable (add_event l, cb)"
  shows "l \<in> pm_keys (fst (pm_add cb l st))"
proof (cases st)
  case (Pair pm w)
  then show ?thesis
    using assms keys_lookup [of l pm]
    by (auto simp: startable_def event_defs pm_add_def StartProxy_def Let_def split: option.splits)
qed

lemma pm_reconcile_keys:
  assumes "st_ok st" "visits it"
  shows "pm_keys (fst (pm_reconcile it seen st)) = pm_keys (fst st) \<inter> seen \<and> st_ok (pm_reconcile it seen st)"
  using pmir.removes_view [OF assms(1)] assms(2) by (auto simp: pm_reconcile_def Let_def visits_set)

lemma follow_snapshot:
  assumes "st_ok st" "map fst es = map add_event snap" "follow it es (\<lparr>wt_seen = S, wt_synced = False\<rparr>, st) = (wt, st')"
  shows "wt = \<lparr>wt_seen = S \<union> set snap, wt_synced = False\<rparr> \<and> st_ok st' \<and>
    (list_all startable es \<longrightarrow> set snap \<subseteq> pm_keys (fst st')) \<and> pm_keys (fst st) \<subseteq> pm_keys (fst st')"
  using assms
proof (induction es arbitrary: snap S st)
  case (Cons e es)
  then obtain l ls cb where e: "snap = l # ls" "e = (add_event l, cb)" by (cases snap; cases e) auto
  have ok: "st_ok (pm_add cb l st)" by (rule pmir.ok_add [OF Cons.prems(1)])
  have "follow it es (\<lparr>wt_seen = insert l S, wt_synced = False\<rparr>, pm_add cb l st) = (wt, st')"
    using Cons.prems(3) e by simp
  from Cons.IH [OF ok _ this, of ls] Cons.prems(2) e pmir.view_add [OF Cons.prems(1), of cb l] pm_add_started [of l cb st]
  show ?case by auto
qed simp

lemma follow_deltas:
  assumes "st_ok st" "list_all (delta \<circ> fst) es" "follow it es (wt, st) = (wt', st')"
    and "wt_synced wt" "pm_keys (fst st) \<subseteq> S"
  shows "st_ok st' \<and> pm_keys (fst st') \<subseteq> replay (map fst es) S \<and>
    (list_all startable es \<and> pm_keys (fst st) = S \<longrightarrow> pm_keys (fst st') = replay (map fst es) S)"
  using assms
proof (induction es arbitrary: st S)
  case (Cons e es)
  then obtain ev cb where e: "e = (ev, cb)" "delta ev" by (cases e) auto
  obtain st1 where s: "watch_event it cb ev (wt, st) = (wt, st1)" "st_ok st1"
    "pm_keys (fst st1) \<subseteq> apply_event ev S"
    "startable (ev, cb) \<and> pm_keys (fst st) = S \<longrightarrow> pm_keys (fst st1) = apply_event ev S"
    using e(2) Cons.prems(1,4,5) pmir.view_add [OF Cons.prems(1), of cb] pmir.view_remove [OF Cons.prems(1)]
      pmir.ok_add [OF Cons.prems(1), of cb] pmir.ok_remove [OF Cons.prems(1)] pm_add_started [of _ cb st]
    unfolding delta_def by fastforce
  have "follow it es (wt, st1) = (wt', st')" using Cons.prems(3) e s(1) by simp
  from Cons.IH [OF s(2) _ this Cons.prems(4) s(3)] Cons.prems(2) s(4) e show ?case by auto
qed simp

lemma follow_stream:
  assumes "st_ok st" "visits it" "map fst es = evs" "stream_shape evs"
    and "follow it es (\<lparr>wt_seen = {}, wt_synced = False\<rparr>, st) = (wt', st')"
  shows "st_ok st' \<and> pm_keys (fst st') \<subseteq> replay evs {} \<and>
    (list_all startable es \<longrightarrow> pm_keys (fst st') = replay evs {})"
proof -
  obtain snap ds where evs: "evs = map add_event snap @ sync_event # ds" "list_all delta ds"
    using assms(4) by (auto simp: stream_shape_def)
  from assms(3) evs(1) obtain es1 e es2 where es: "es = es1 @ e # es2" "map fst es1 = map add_event snap"
    "fst e = sync_event" "map fst es2 = ds"
    by (auto simp: map_eq_append_conv map_eq_Cons_conv)
  obtain wt1 st1 where f1: "follow it es1 (\<lparr>wt_seen = {}, wt_synced = False\<rparr>, st) = (wt1, st1)"
    by (meson prod.exhaust)
  note S1 = follow_snapshot [OF assms(1) es(2) f1]
  let ?st2 = "pm_reconcile it (set snap) st1"
  have "st_ok st1" using S1 by simp
  note S2 = pm_reconcile_keys [OF this assms(2), of "set snap"]
  have f2: "follow it es2 (\<lparr>wt_seen = set snap, wt_synced = True\<rparr>, ?st2) = (wt', st')"
    using assms(5) es f1 S1 by (cases e) simp
  have "list_all (delta \<circ> fst) es2" using evs(2) es(4) [symmetric] by (simp add: list.pred_map)
  from follow_deltas [OF _ this f2, of "set snap"] S1 S2 es evs show ?thesis by auto
qed

section \<open>The server's side\<close>

definition bufs_ok :: "Watcher \<Rightarrow> bool" where
  "bufs_ok w \<longleftrightarrow> (\<forall>c ch. w_chans w c = Some ch \<longrightarrow> list_all delta (c_buf ch))"

definition shape_inv :: "server \<Rightarrow> bool" where
  "shape_inv s \<longleftrightarrow> bufs_ok (sv_watcher s) \<and>
     (\<forall>i c. sv_conns s i = Some c \<and> \<not> wc_done c \<longrightarrow> stream_shape (wc_sent c))"

lemma bufs_ok_publish: "bufs_ok w \<Longrightarrow> delta ev \<Longrightarrow> bufs_ok (publish ev w)"
proof -
  have one: "bufs_ok w \<Longrightarrow> delta ev \<Longrightarrow> bufs_ok (publish_one ev c w)" for c w
    by (auto simp: bufs_ok_def publish_one_def split: option.splits)
  have "bufs_ok w \<Longrightarrow> delta ev \<Longrightarrow> bufs_ok (fold (publish_one ev) cs w)" for cs
    by (induction cs arbitrary: w) (auto simp: one)
  then show "bufs_ok w \<Longrightarrow> delta ev \<Longrightarrow> bufs_ok (publish ev w)" by (simp add: publish_def)
qed

lemma bufs_ok_fold:
  "bufs_ok w \<Longrightarrow> (\<And>l. delta (f l)) \<Longrightarrow> bufs_ok (fold (\<lambda>l v. if P l v then publish (f l) v else v) xs w)"
  by (induction xs arbitrary: w) (auto simp: bufs_ok_publish)

lemma bufs_ok_scan: "bufs_ok w \<Longrightarrow> bufs_ok (scanOnce it1 it2 raw w)"
proof -
  assume "bufs_ok w"
  then have "bufs_ok (fold (\<lambda>l v. if P' l v then publish (Event ''remove'' l) v else v) ys
      (fold (\<lambda>l v. if P l v then publish (Event ''add'' l) v else v) xs w))" for P' P xs ys
    by (intro bufs_ok_fold) (auto simp: delta_def event_defs)
  with \<open>bufs_ok w\<close> show ?thesis
    by (auto simp: scanOnce_def Let_def bufs_ok_def split: sum.splits)
qed

lemma bufs_ok_cong: "bufs_ok w \<Longrightarrow> w_chans w' = w_chans w \<Longrightarrow> bufs_ok w'"
  by (simp add: bufs_ok_def)

lemma bufs_ok_cancel: "bufs_ok w \<Longrightarrow> bufs_ok (cancel_sub c w)"
  by (auto simp: bufs_ok_def cancel_sub_def split: if_splits)

lemma recv_sub_shape:
  assumes "bufs_ok w" "recv_sub c w = (r, w')"
  shows "bufs_ok w'" "r = Received ev \<Longrightarrow> delta ev"
  using assms by (auto simp: bufs_ok_def recv_sub_def split: option.splits list.splits if_splits; fastforce)+

lemma open_shape:
  assumes "bufs_ok w" "handleWatch_open flusher it room w = (c, w')"
  shows "bufs_ok w' \<and> (\<forall>d. c = Some d \<and> \<not> wc_done d \<longrightarrow> stream_shape (wc_sent d))"
proof (cases flusher)
  case True
  obtain ch snap w1 where S: "Subscribe it w = (ch, snap, w1)" by (metis prod.exhaust)
  then have b: "bufs_ok w1" using assms(1) by (auto simp: bufs_ok_def Subscribe_def Let_def split: if_splits)
  obtain ok c1 where E: "encode_lines (map add_event snap @ [sync_event])
      \<lparr>wc_chan = ch, wc_sent = [], wc_room = room, wc_done = False\<rparr> = (ok, c1)" by (metis prod.exhaust)
  have "stream_shape (map add_event snap @ [sync_event])"
    unfolding stream_shape_def by (intro exI [of _ snap] exI [of _ "[]"]) simp
  then show ?thesis
    using assms(2) True S E b encode_lines_sent [OF E] bufs_ok_cancel [OF b]
    by (auto simp: handleWatch_open_def split: if_splits)
qed (use assms in \<open>simp add: handleWatch_open_def\<close>)

lemma round_shape:
  assumes "bufs_ok w" "stream_shape (wc_sent c)" "handleWatch_round sel c w = (c', w')"
  shows "bufs_ok w'" "stream_shape (wc_sent c')"
proof -
  obtain r w1 where r: "recv_sub (wc_chan c) w = (r, w1)" by fastforce
  note R = recv_sub_shape [OF assms(1) r]
  have "bufs_ok w' \<and> stream_shape (wc_sent c')"
    using assms r R bufs_ok_cancel [OF assms(1)] bufs_ok_cancel [OF R(1)] stream_shape_snoc [OF assms(2)]
    by (auto simp: handleWatch_round_def Let_def encode_line_def split: select.splits recv.splits if_splits)
  then show "bufs_ok w'" "stream_shape (wc_sent c')" by simp_all
qed

lemma shape_reachable: "sv_reachable s \<Longrightarrow> shape_inv s"
proof (induction rule: sv_reachable.induct)
  case sv_init
  show ?case by (simp add: shape_inv_def bufs_ok_def server0_def NewWatcher_def)
next
  case (sv_next s s')
  from sv_next.hyps(2) sv_next.IH show ?case
  proof (induction rule: sv_step.induct)
    case (sv_scan it1 it2 raw s)
    then show ?case by (auto simp: shape_inv_def bufs_ok_scan)
  next
    case (sv_exclude s l)
    then show ?case by (auto simp: shape_inv_def elim: bufs_ok_cong)
  next
    case (sv_unexclude s l)
    then show ?case by (auto simp: shape_inv_def elim: bufs_ok_cong)
  next
    case (sv_open it flusher room s c w i)
    then show ?case using open_shape [of "sv_watcher s" flusher it room c w] by (auto simp: shape_inv_def split: if_splits)
  next
    case (sv_round s i c sel c' w)
    then have "bufs_ok (sv_watcher s)" "stream_shape (wc_sent c)" by (auto simp: shape_inv_def)
    note S = round_shape [OF this sv_round(3)]
    show ?case using sv_round.prems S by (auto simp: shape_inv_def)
  qed
qed


section \<open>Two containers\<close>

lemma sv_reachable_conn: "sv_reachable s \<Longrightarrow> sv_conns s i = Some c \<Longrightarrow> \<not> wc_done c \<Longrightarrow> conn_ok (sv_watcher s) c"
  using sv_reachable_inv [of s] unfolding sv_inv_def by blast

text \<open>
  C2. One container's proxies mirror another one's sockets. Take any state the server of a
  container can reach and a \<open>/watch\<close> request of its that is subscribed and has nothing waiting in
  its channel. A peer manager that has read the lines of that request, with whatever proxies it
  had before, has proxies for no socket the watcher does not know; and if the binds succeed and
  the sockets are TCP or UDP ones, for exactly the sockets the watcher knows. JSON is an
  encoding of these events in lines that decoding inverts.
\<close>

theorem proxies_mirror_peer:
  assumes "sv_reachable s" "sv_conns s i = Some c" "\<not> wc_done c"
    and "wc_chan c \<in> set (w_subs (sv_watcher s))" "w_chans (sv_watcher s) (wc_chan c) = Some ch" "c_buf ch = []"
    and "\<forall>ev \<in> set (wc_sent c). decode (enc ev) = Some ev" "visits it" "st_ok st" "map fst es = wc_sent c"
    and "watchOnce decode it (Stream (map (map_prod enc id) es) ok) st = (r, st')"
  shows "pm_keys (fst st') \<subseteq> w_current (sv_watcher s) \<and>
    (list_all startable es \<longrightarrow> pm_keys (fst st') = w_current (sv_watcher s))"
proof -
  have "replay (wc_sent c) {} = w_current (sv_watcher s)"
    using sv_reachable_conn [OF assms(1-3)] assms(4-6) by (simp add: conn_ok_def)
  moreover have "stream_shape (wc_sent c)"
    using shape_reachable [OF assms(1)] assms(2,3) by (auto simp: shape_inv_def)
  moreover obtain wt where "follow it es (\<lparr>wt_seen = {}, wt_synced = False\<rparr>, st) = (wt, st')"
    using assms(7,11) watch_lines_follow [of es decode enc] assms(10) [symmetric]
    by (auto simp: watchOnce_def prod_eq_iff split_beta)
  ultimately show ?thesis using follow_stream [OF assms(9,8,10)] by simp
qed

text \<open>The lines of one socket's announcement and of the sync marker.\<close>

definition demo_encode :: "Event \<Rightarrow> string" where
  "demo_encode ev = ev_Op ev @ '' '' @ listen_String (ev_Listen ev)"

definition demo_decode :: "string \<Rightarrow> Event option" where
  "demo_decode line = find (\<lambda>ev. demo_encode ev = line) [add_event demo_listen, sync_event]"

lemma demo_codec: "demo_decode (demo_encode (add_event demo_listen)) = Some (add_event demo_listen)"
  "demo_decode (demo_encode sync_event) = Some sync_event"
  by (simp_all add: demo_decode_def demo_encode_def event_defs)

lemma proxies_mirror_peer_witness:
  "pm_keys (fst (snd (watchOnce demo_decode sorted_list_of_set
      (Stream (map (map_prod demo_encode id) [(add_event demo_listen, \<lambda>_ _. True), (sync_event, \<lambda>_ _. True)]) True)
      (newPeerManager ''b'' ''/peel/lo/b'', NewWatcher)))) = {demo_listen}"
proof -
  have "map_option (\<lambda>c. (wc_sent c, wc_done c, wc_chan c)) (sv_conns demo_server 0) =
      Some ([add_event demo_listen, sync_event], False, 0)"
    "w_subs (sv_watcher demo_server) = [0]" "map_option c_buf (w_chans (sv_watcher demo_server) 0) = Some []"
    "w_current (sv_watcher demo_server) = {demo_listen}"
    by code_simp+
  then obtain c ch where c: "sv_conns demo_server 0 = Some c" "wc_sent c = [add_event demo_listen, sync_event]"
    "\<not> wc_done c" "wc_chan c = 0" "w_chans (sv_watcher demo_server) 0 = Some ch" "c_buf ch = []"
    and w: "w_subs (sv_watcher demo_server) = [0]" "w_current (sv_watcher demo_server) = {demo_listen}" by auto
  let ?es = "[(add_event demo_listen, \<lambda>_ _. True), (sync_event, \<lambda>_ _. True)]"
  let ?st = "(newPeerManager ''b'' ''/peel/lo/b'', NewWatcher)"
  obtain r st' where e: "watchOnce demo_decode sorted_list_of_set (Stream (map (map_prod demo_encode id) ?es) True) ?st = (r, st')"
    by (metis prod.exhaust)
  have "st_ok ?st" by (simp add: st_ok_def pm_ok_def newPeerManager_def excluded_ok_def NewWatcher_def)
  moreover have "list_all startable ?es" by (simp add: startable_def event_defs demo_listen_def TCP_def)
  ultimately show ?thesis using proxies_mirror_peer [OF demo_server_reachable c(1,3) _ _ c(6) _ visits_sorted _ _ e] c w demo_codec e by simp
qed

end
