(* ===== verification/LoExact.thy ===== *)
theory LoExact
  imports LoSync
begin

text \<open>
  Streams of a \<open>/watch\<close> request are exact: they never add a socket they have already announced and
  never remove one they have not. A reader that counts sockets, as the client library does, relies
  on this; a reader that keeps sets, as a peer manager does, needs only the replayed set.
\<close>

section \<open>Exact streams\<close>

fun exact :: "Event list \<Rightarrow> Listen set \<Rightarrow> bool" where
  "exact [] S = True"
| "exact (ev # evs) S \<longleftrightarrow>
     (ev_Op ev = ''add'' \<longrightarrow> ev_Listen ev \<notin> S) \<and> (ev_Op ev = ''remove'' \<longrightarrow> ev_Listen ev \<in> S) \<and>
     exact evs (apply_event ev S)"

lemma exact_append [simp]: "exact (xs @ ys) S \<longleftrightarrow> exact xs S \<and> exact ys (replay xs S)"
  by (induction xs arbitrary: S) auto

lemma exact_adds: "distinct ls \<Longrightarrow> set ls \<inter> S = {} \<Longrightarrow> exact (map add_event ls) S"
  by (induction ls arbitrary: S) (auto simp: event_defs apply_event_def)

lemma exact_removes: "distinct ls \<Longrightarrow> set ls \<subseteq> S \<Longrightarrow> exact (map remove_event ls) S"
proof (induction ls arbitrary: S)
  case (Cons l ls)
  then have "exact (map remove_event ls) (S - {l})" by (intro Cons.IH) auto
  with Cons.prems show ?case by (simp add: remove_event_def [of l] apply_event_def)
qed simp

lemma exact_sync [simp]: "exact [sync_event] S"
  by (simp add: event_defs)

lemma exact_take: "exact xs S \<Longrightarrow> exact (take n xs) S"
  by (metis append_take_drop_id exact_append)

lemma exact_scan:
  assumes "visits it1" "visits it2" "finite cur" "finite nxt"
  shows "exact (scan_events it1 it2 cur nxt) cur"
  using assms by (auto simp: scan_events_def visits_def intro!: exact_adds exact_removes)

section \<open>Every request's stream is exact\<close>

definition conn_exact :: "Watcher \<Rightarrow> watch_conn \<Rightarrow> bool" where
  "conn_exact w c \<longleftrightarrow> (\<exists>ch. w_chans w (wc_chan c) = Some ch \<and> exact (wc_sent c @ c_buf ch) {})"

definition conn_good :: "Watcher \<Rightarrow> watch_conn \<Rightarrow> bool" where
  "conn_good w c \<longleftrightarrow> conn_ok w c \<and> conn_exact w c"

lemma exact_pushed:
  assumes "exact (sent @ c_buf ch) {}" "exact evs (replay (sent @ c_buf ch) {})"
  shows "exact (sent @ c_buf (pushed evs ch)) {}"
  using assms by (auto simp: pushed_def exact_take)

lemma conn_exact_scan:
  assumes "wf_watcher w" "visits it1" "visits it2" "\<forall>ls. raw = Inr ls \<longrightarrow> finite ls" "conn_good w c"
  shows "conn_exact (scanOnce it1 it2 raw w) c"
proof (cases raw)
  case (Inl e)
  with assms(5) show ?thesis by (simp add: scanOnce_def conn_good_def)
next
  case (Inr ls)
  define evs where "evs = scan_events it1 it2 (w_current w) (visible w ls)"
  have w': "scanOnce it1 it2 raw w = (fold publish evs w)\<lparr>w_current := visible w ls\<rparr>"
    using scanOnce_publishes [OF assms(1)] Inr by (simp add: evs_def)
  have ex: "exact evs (w_current w)"
    unfolding evs_def
    by (rule exact_scan [OF assms(2,3)]) (use assms(1,4) Inr in \<open>auto simp: wf_watcher_def visible_def\<close>)
  from assms(5) obtain ch where ch: "w_chans w (wc_chan c) = Some ch" "exact (wc_sent c @ c_buf ch) {}"
    by (auto simp: conn_good_def conn_exact_def)
  have "replay (wc_sent c @ c_buf ch) {} = w_current w" if "wc_chan c \<in> set (w_subs w)"
    using assms(5) that ch(1) by (simp add: conn_good_def conn_ok_def)
  then have "exact (wc_sent c @ c_buf (pushed evs ch)) {}" if "wc_chan c \<in> set (w_subs w)"
    using that ch(2) ex by (intro exact_pushed) auto
  with ch publish_all(6) [OF assms(1), of evs] show ?thesis by (auto simp: conn_exact_def w')
qed

lemma conn_exact_cong:
  "conn_exact w c \<Longrightarrow> w_chans w' (wc_chan c) = w_chans w (wc_chan c) \<Longrightarrow> conn_exact w' c"
  by (simp add: conn_exact_def)

lemma conn_exact_cancel: "conn_exact w c \<Longrightarrow> conn_exact (cancel_sub d w) c"
  by (auto simp: conn_exact_def cancel_sub_def)

lemma conn_exact_open:
  assumes "wf_watcher w" "visits it" "handleWatch_open flusher it room w = (c, w')"
  shows "\<And>d. c = Some d \<Longrightarrow> \<not> wc_done d \<Longrightarrow> conn_exact w' d"
    "\<And>d. conn_exact w d \<Longrightarrow> conn_exact w' d"
proof -
  obtain ch snap w1 where sub: "Subscribe it w = (ch, snap, w1)" by (metis prod_cases3)
  obtain ok c1 where enc: "encode_lines (map add_event snap @ [sync_event])
      \<lparr>wc_chan = ch, wc_sent = [], wc_room = room, wc_done = False\<rparr> = (ok, c1)" by fastforce
  note S = Subscribe_wf [OF assms(1) sub] and E = encode_lines_sent [OF enc]
  have fin: "finite (w_current w)" using assms(1) by (simp add: wf_watcher_def)
  have w1: "w_chans w1 ch = Some \<lparr>c_buf = [], c_closed = False\<rparr>" "distinct snap"
    using sub assms(2) fin by (auto simp: Subscribe_def Let_def visits_def)
  have cases: "(c = None \<and> w' = w) \<or> (c = Some c1 \<and> w' = w1 \<and> ok) \<or>
      (c = Some (c1\<lparr>wc_done := True\<rparr>) \<and> w' = cancel_sub ch w1)"
    using assms(3) sub enc by (auto simp: handleWatch_open_def split: if_splits)
  show "conn_exact w' d" if "c = Some d" "\<not> wc_done d" for d
  proof -
    from that cases have "w' = w1" "d = c1" "ok" by auto
    with E w1 exact_adds [of snap "{}"] show ?thesis by (simp add: conn_exact_def event_defs)
  qed
  show "conn_exact w' d" if d: "conn_exact w d" for d
  proof -
    have "wc_chan d \<noteq> ch" using d S(4) by (auto simp: conn_exact_def)
    then have "conn_exact w1 d" by (intro conn_exact_cong [OF d]) (use S(6,7,8) in auto)
    with cases d conn_exact_cancel show ?thesis by auto
  qed
qed

lemma conn_exact_round:
  assumes "conn_exact w c" "handleWatch_round sel c w = (c', w')"
  shows "\<not> wc_done c' \<Longrightarrow> conn_exact w' c'"
    "\<And>d. conn_exact w d \<Longrightarrow> wc_chan d \<noteq> wc_chan c \<Longrightarrow> conn_exact w' d"
proof -
  obtain r w1 where rc: "recv_sub (wc_chan c) w = (r, w1)" by fastforce
  from assms(1) obtain ch where ch: "w_chans w (wc_chan c) = Some ch" "exact (wc_sent c @ c_buf ch) {}"
    by (auto simp: conn_exact_def)
  show "conn_exact w' c'" if "\<not> wc_done c'"
    using assms(2) that rc ch
    by (auto simp: handleWatch_round_def Let_def recv_sub_def encode_line_def conn_exact_def
        split: select.splits recv.splits option.splits list.splits if_splits)
  show "conn_exact w' d" if d: "conn_exact w d" "wc_chan d \<noteq> wc_chan c" for d
  proof -
    have "conn_exact w1 d" by (rule conn_exact_cong [OF d(1)]) (use recv_sub_other [OF rc] d(2) in auto)
    with assms(2) rc d(1) conn_exact_cancel show ?thesis
      by (auto simp: handleWatch_round_def Let_def split: select.splits recv.splits option.splits)
  qed
qed

definition exact_inv :: "server \<Rightarrow> bool" where
  "exact_inv s \<longleftrightarrow> (\<forall>i c. sv_conns s i = Some c \<and> \<not> wc_done c \<longrightarrow> conn_exact (sv_watcher s) c)"

lemma exact_invD: "exact_inv s \<Longrightarrow> sv_conns s i = Some c \<Longrightarrow> \<not> wc_done c \<Longrightarrow> conn_exact (sv_watcher s) c"
  by (auto simp: exact_inv_def)

lemma exact_inv_step:
  assumes "sv_step s s'" "sv_inv s" "exact_inv s"
  shows "exact_inv s'"
  using assms(1)
proof cases
  case (sv_scan it1 it2 raw)
  have wf: "wf_watcher (sv_watcher s)" using assms(2) by (simp add: sv_inv_def)
  have "conn_good (sv_watcher s) c" if "sv_conns s i = Some c" "\<not> wc_done c" for i c
    using that assms(2,3) unfolding conn_good_def sv_inv_def exact_inv_def by blast
  with conn_exact_scan [OF wf sv_scan(2-4)] show ?thesis unfolding exact_inv_def sv_scan(1) by auto
next
  case (sv_exclude l)
  with assms(3) show ?thesis by (auto simp: exact_inv_def conn_exact_def)
next
  case (sv_unexclude l)
  with assms(3) show ?thesis by (auto simp: exact_inv_def conn_exact_def)
next
  case (sv_open it flusher room c w i)
  have wf: "wf_watcher (sv_watcher s)" using assms(2) by (simp add: sv_inv_def)
  note H = conn_exact_open [OF wf sv_open(2,3)]
  have "conn_exact w d" if "((sv_conns s)(i := c)) j = Some d" "\<not> wc_done d" for j d
    using that H exact_invD [OF assms(3), of j d] by (cases "j = i") auto
  then show ?thesis unfolding sv_open(1) exact_inv_def by (simp del: fun_upd_apply) blast
next
  case (sv_round i c sel c' w)
  note H = conn_exact_round [OF exact_invD [OF assms(3) sv_round(2,3)] sv_round(4)]
  have "wc_chan d \<noteq> wc_chan c" if "sv_conns s j = Some d" "\<not> wc_done d" "j \<noteq> i" for j d
    using assms(2) that sv_round(2,3) unfolding sv_inv_def by blast
  then have "conn_exact w d" if "((sv_conns s)(i \<mapsto> c')) j = Some d" "\<not> wc_done d" for j d
    using that H exact_invD [OF assms(3), of j d] by (cases "j = i") auto
  then show ?thesis unfolding sv_round(1) exact_inv_def by (simp del: fun_upd_apply) blast
qed

lemma exact_reachable: "sv_reachable s \<Longrightarrow> exact_inv s"
proof (induction rule: sv_reachable.induct)
  case sv_init
  show ?case by (simp add: exact_inv_def server0_def)
next
  case (sv_next s s')
  with exact_inv_step sv_reachable_inv show ?case by blast
qed

lemma stream_exact: "sv_reachable s \<Longrightarrow> sv_conns s i = Some c \<Longrightarrow> \<not> wc_done c \<Longrightarrow> exact (wc_sent c) {}"
  using exact_invD [OF exact_reachable] by (auto simp: conn_exact_def)

end
