(* ===== verification/PortsWatcher.thy ===== *)
theory PortsWatcher
  imports LoExact
begin

text \<open>
  The client library's view of one container, \<open>client/watcher.go\<close>: it follows the container's \<open>/watch\<close>
  stream and tells its user which ports opened and closed. Batches handed to the client are
  recorded in order, as are the calls of the startup callback.
\<close>

section \<open>State\<close>

type_synonym portKey = "Stack \<times> uint16"

definition port_of :: "Listen \<Rightarrow> portKey" where
  "port_of l = (l_Stack l, l_Port l)"

text \<open>
  \<open>cw_selects\<close> is what the coming select statements of \<open>emit\<close> choose once the client's context is
  done: to send the batch, or to give up. A select that is not listed sends, as every one does
  while the context lives.
\<close>

record containerWatcher =
  cw_name :: string
  cw_sockPath :: string
  cw_portCounts :: "portKey \<rightharpoonup> int"
  cw_emitted :: "string list list"
  cw_selects :: "bool list"

definition newContainerWatcher :: "string \<Rightarrow> string \<Rightarrow> containerWatcher" where
  "newContainerWatcher name sockPath =
     \<lparr>cw_name = name, cw_sockPath = sockPath, cw_portCounts = Map.empty, cw_emitted = [], cw_selects = []\<rparr>"

text \<open>Reading a missing key of a Go map gives zero.\<close>

definition count_of :: "(portKey \<rightharpoonup> int) \<Rightarrow> portKey \<Rightarrow> int" where
  "count_of m k = (case m k of None \<Rightarrow> 0 | Some n \<Rightarrow> n)"

text \<open>The part of a change string after its operation.\<close>

definition port_text :: "string \<Rightarrow> portKey \<Rightarrow> string" where
  "port_text name k = (if fst k = V6 then ''ipv6'' else ''ipv4'') @ '':'' @ name @ '':'' @ itoa (unat (snd k))"

definition makeChange :: "string \<Rightarrow> string \<Rightarrow> portKey \<Rightarrow> string" where
  "makeChange op name k = op @ '':'' @ port_text name k"

text \<open>\<open>emit\<close>: the batch is sent on the client's channel, or the context is done and it is lost.\<close>

definition cw_emit :: "string list \<Rightarrow> containerWatcher \<Rightarrow> containerWatcher" where
  "cw_emit batch cw =
     (case cw_selects cw of
        [] \<Rightarrow> cw\<lparr>cw_emitted := cw_emitted cw @ [batch]\<rparr>
      | True # rest \<Rightarrow> cw\<lparr>cw_emitted := cw_emitted cw @ [batch], cw_selects := rest\<rparr>
      | False # rest \<Rightarrow> cw\<lparr>cw_selects := rest\<rparr>)"

section \<open>One connection\<close>

text \<open>
  The local variables of \<open>watchOnce\<close>: sockets before the sync marker, whether it came, and the calls
  of the callback so far.
\<close>

record port_watch =
  pw_incoming :: "Listen set"
  pw_synced :: bool
  pw_fired :: bool
  pw_calls :: "string list list"

definition port_watch0 :: port_watch where
  "port_watch0 = \<lparr>pw_incoming = {}, pw_synced = False, pw_fired = False, pw_calls = []\<rparr>"

definition ensureCB :: "bool \<Rightarrow> string list \<Rightarrow> port_watch \<Rightarrow> port_watch" where
  "ensureCB cb ports pw =
     (if pw_fired pw then pw
      else pw\<lparr>pw_fired := True, pw_calls := (if cb then pw_calls pw @ [ports] else pw_calls pw)\<rparr>)"

text \<open>Reference counts of a snapshot: how many sockets have each port.\<close>

definition snapshot_counts :: "Listen set \<Rightarrow> portKey \<rightharpoonup> int" where
  "snapshot_counts S k =
     (let n = card (Set.filter (\<lambda>l. port_of l = k) S) in if n = 0 then None else Some (int n))"

text \<open>The keys of a map, in the order of a range over it; one for the new and one for the old map.\<close>

type_synonym orders = "portKey iteration \<times> portKey iteration"

definition on_sync :: "orders \<Rightarrow> bool \<Rightarrow> port_watch \<times> containerWatcher \<Rightarrow> port_watch \<times> containerWatcher" where
  "on_sync its cb s =
     (case s of (pw, cw) \<Rightarrow>
        let new = snapshot_counts (pw_incoming pw);
            old = cw_portCounts cw;
            pw1 = pw\<lparr>pw_synced := True\<rparr>;
            cw1 = cw\<lparr>cw_portCounts := new\<rparr>
        in if cb then (ensureCB cb (map (makeChange ''open'' (cw_name cw)) (fst its (dom new))) pw1, cw1)
           else
             let changes =
               map (makeChange ''open'' (cw_name cw)) (filter (\<lambda>k. count_of old k = 0) (fst its (dom new))) @
               map (makeChange ''close'' (cw_name cw)) (filter (\<lambda>k. count_of new k = 0) (snd its (dom old)))
             in (pw1, if changes = [] then cw1 else cw_emit changes cw1))"

definition ports_event ::
  "orders \<Rightarrow> bool \<Rightarrow> Event \<Rightarrow> port_watch \<times> containerWatcher \<Rightarrow> port_watch \<times> containerWatcher"
where
  "ports_event its cb ev s =
     (case s of (pw, cw) \<Rightarrow>
        let l = ev_Listen ev; k = port_of l in
        if ev_Op ev = ''add'' then
          if \<not> pw_synced pw then (pw\<lparr>pw_incoming := insert l (pw_incoming pw)\<rparr>, cw)
          else
            let prev = count_of (cw_portCounts cw) k;
                cw1 = cw\<lparr>cw_portCounts := (cw_portCounts cw)(k \<mapsto> prev + 1)\<rparr>
            in (pw, if prev = 0 then cw_emit [makeChange ''open'' (cw_name cw) k] cw1 else cw1)
        else if ev_Op ev = ''remove'' then
          if \<not> pw_synced pw then (pw\<lparr>pw_incoming := pw_incoming pw - {l}\<rparr>, cw)
          else
            let n = count_of (cw_portCounts cw) k - 1 in
            (pw, if n \<le> 0
                 then cw_emit [makeChange ''close'' (cw_name cw) k] (cw\<lparr>cw_portCounts := (cw_portCounts cw)(k := None)\<rparr>)
                 else cw\<lparr>cw_portCounts := (cw_portCounts cw)(k \<mapsto> n)\<rparr>)
        else if ev_Op ev = ''sync'' then on_sync its cb s
        else s)"

fun ports_lines ::
  "(string \<Rightarrow> Event option) \<Rightarrow> bool \<Rightarrow> (string \<times> orders) list \<Rightarrow>
     port_watch \<times> containerWatcher \<Rightarrow> port_watch \<times> containerWatcher"
where
  "ports_lines decode cb [] s = s"
| "ports_lines decode cb ((line, its) # ls) s =
     (case decode line of
        None \<Rightarrow> ports_lines decode cb ls s
      | Some ev \<Rightarrow> ports_lines decode cb ls (ports_event its cb ev s))"

datatype port_response = PortRequestFailed | PortBadStatus | PortStream "(string \<times> orders) list" bool

text \<open>\<open>cb\<close> says whether there is a startup callback; the result has its calls.\<close>

definition ports_watchOnce ::
  "(string \<Rightarrow> Event option) \<Rightarrow> bool \<Rightarrow> port_response \<Rightarrow> containerWatcher \<Rightarrow>
     (unit, unit) result \<times> string list list \<times> containerWatcher"
where
  "ports_watchOnce decode cb resp cw =
     (case resp of
        PortRequestFailed \<Rightarrow> (Inl (), if cb then [[]] else [], cw)
      | PortBadStatus \<Rightarrow> (Inl (), if cb then [[]] else [], cw)
      | PortStream ls ok \<Rightarrow>
          (case ports_lines decode cb ls (port_watch0, cw) of (pw, cw1) \<Rightarrow>
             (if ok then Inr () else Inl (), pw_calls (ensureCB cb [] pw), cw1)))"

section \<open>Until the context ends\<close>

definition close_all :: "portKey iteration \<Rightarrow> containerWatcher \<Rightarrow> containerWatcher" where
  "close_all it cw =
     (let counts = cw_portCounts cw;
          cw1 = cw\<lparr>cw_portCounts := Map.empty\<rparr>
      in if dom counts = {} then cw1
         else cw_emit (map (makeChange ''close'' (cw_name cw)) (it (dom counts))) cw1)"

text \<open>\<open>run\<close>: the first connection with the startup callback, the others without.\<close>

fun cw_connections ::
  "(string \<Rightarrow> Event option) \<Rightarrow> bool \<Rightarrow> port_response list \<Rightarrow> containerWatcher \<Rightarrow> string list list \<times> containerWatcher"
where
  "cw_connections decode cb [] cw = ([], cw)"
| "cw_connections decode cb (r # rs) cw =
     (case ports_watchOnce decode cb r cw of (_, calls, cw1) \<Rightarrow>
        (case cw_connections decode False rs cw1 of (calls', cw2) \<Rightarrow> (calls @ calls', cw2)))"

definition cw_run ::
  "(string \<Rightarrow> Event option) \<Rightarrow> bool \<Rightarrow> portKey iteration \<Rightarrow> port_response list \<Rightarrow> containerWatcher \<Rightarrow>
     string list list \<times> containerWatcher"
where
  "cw_run decode cb it rs cw =
     (case cw_connections decode cb rs cw of (calls, cw1) \<Rightarrow> (calls, close_all it cw1))"

section \<open>What the user sees\<close>

text \<open>The open ports after a list of change strings.\<close>

definition apply_change :: "string \<Rightarrow> string set \<Rightarrow> string set" where
  "apply_change ch V =
     (if has_prefix ch ''open:'' then insert (drop 5 ch) V
      else if has_prefix ch ''close:'' then V - {drop 6 ch} else V)"

definition user_view :: "string list list \<Rightarrow> string set \<Rightarrow> string set" where
  "user_view batches V = fold apply_change (concat batches) V"

lemma apply_change_simps [simp]:
  "apply_change (makeChange ''open'' name k) V = insert (port_text name k) V"
  "apply_change (makeChange ''close'' name k) V = V - {port_text name k}"
  by (simp_all add: apply_change_def makeChange_def has_prefix_def)

lemma user_view_simps [simp]:
  "user_view [] V = V" "user_view (bs @ cs) V = user_view cs (user_view bs V)"
  by (simp_all add: user_view_def)

lemma view_opens: "fold apply_change (map (makeChange ''open'' name) ks) V = V \<union> port_text name ` set ks"
  by (induction ks arbitrary: V) auto

lemma view_closes: "fold apply_change (map (makeChange ''close'' name) ks) V = V - port_text name ` set ks"
  by (induction ks arbitrary: V) auto

text \<open>Ports of the two stacks have different texts.\<close>

definition known :: "portKey \<Rightarrow> bool" where
  "known k \<longleftrightarrow> fst k \<in> {V4, V6}"

lemma port_text_inj:
  assumes "known k" "known k'" "port_text name k = port_text name k'"
  shows "k = k'"
proof -
  have stack: "fst k = fst k'" using assms by (auto simp: known_def port_text_def V4_def V6_def)
  then have "itoa (unat (snd k)) = itoa (unat (snd k'))" using assms(3) by (simp add: port_text_def)
  then have "snd k = snd k'" using itoa_inj by (metis unsigned_word_eqI)
  with stack show ?thesis by (simp add: prod_eq_iff)
qed


section \<open>What is reported is what is counted\<close>

definition texts :: "containerWatcher \<Rightarrow> string set" where
  "texts cw = port_text (cw_name cw) ` dom (cw_portCounts cw)"

definition cw_ok :: "containerWatcher \<Rightarrow> bool" where
  "cw_ok cw \<longleftrightarrow> finite (dom (cw_portCounts cw)) \<and> (\<forall>k n. cw_portCounts cw k = Some n \<longrightarrow> 0 < n \<and> known k)"

text \<open>\<open>C\<close> are the calls of the startup callback. The client has not been killed.\<close>

definition consistent :: "string list list \<Rightarrow> containerWatcher \<Rightarrow> bool" where
  "consistent C cw \<longleftrightarrow> cw_ok cw \<and> cw_selects cw = [] \<and> user_view (C @ cw_emitted cw) {} = texts cw"

definition known_event :: "Event \<Rightarrow> bool" where
  "known_event ev \<longleftrightarrow> (ev_Op ev = ''add'' \<or> ev_Op ev = ''remove'' \<longrightarrow> known (port_of (ev_Listen ev)))"

lemma cw_okD: "cw_ok cw \<Longrightarrow> cw_portCounts cw k = Some n \<Longrightarrow> 0 < n \<and> known k"
  unfolding cw_ok_def by blast

lemma count_of_dom: "cw_ok cw \<Longrightarrow> count_of (cw_portCounts cw) k = 0 \<longleftrightarrow> k \<notin> dom (cw_portCounts cw)"
  using cw_okD [of cw k] by (auto simp: count_of_def split: option.splits)

lemma count_of_nonneg: "cw_ok cw \<Longrightarrow> 0 \<le> count_of (cw_portCounts cw) k"
  using cw_okD [of cw k] by (force simp: count_of_def split: option.splits)

lemma cw_emit_simps [simp]:
  "cw_name (cw_emit b cw) = cw_name cw" "cw_portCounts (cw_emit b cw) = cw_portCounts cw"
  "cw_selects (cw_emit b cw) = tl (cw_selects cw)"
  "cw_selects cw = [] \<Longrightarrow> cw_emitted (cw_emit b cw) = cw_emitted cw @ [b]"
  by (auto simp: cw_emit_def split: list.split bool.split)

lemma texts_insert: "texts (cw\<lparr>cw_portCounts := (cw_portCounts cw)(k \<mapsto> n)\<rparr>) = insert (port_text (cw_name cw) k) (texts cw)"
  by (auto simp: texts_def)

lemma texts_remove:
  assumes "cw_ok cw" "known k"
  shows "texts (cw\<lparr>cw_portCounts := (cw_portCounts cw)(k := None)\<rparr>) = texts cw - {port_text (cw_name cw) k}"
proof -
  have "known j" if "j \<in> insert k (dom (cw_portCounts cw))" for j using cw_okD [OF assms(1)] assms(2) that by blast
  then have "inj_on (port_text (cw_name cw)) (insert k (dom (cw_portCounts cw)))"
    by (intro inj_onI) (metis port_text_inj)
  from inj_on_image_set_diff [OF this, of "dom (cw_portCounts cw)" "{k}"]
  show ?thesis by (simp add: texts_def) blast
qed

text \<open>An addition or removal keeps the report in step with the counts, whatever it is about.\<close>

lemma event_consistent:
  assumes "consistent C cw" "known_event ev" "ev_Op ev \<noteq> ''sync''" "ports_event its cb ev (pw, cw) = (pw', cw')"
  shows "consistent C cw'" "\<not> pw_synced pw \<Longrightarrow> cw' = cw" "cw_name cw' = cw_name cw"
    "pw_synced pw' = pw_synced pw" "pw_fired pw' = pw_fired pw" "pw_calls pw' = pw_calls pw"
proof -
  let ?k = "port_of (ev_Listen ev)"
  have ok: "cw_ok cw" and V: "user_view (C @ cw_emitted cw) {} = texts cw" and live: "cw_selects cw = []"
    using assms(1) by (auto simp: consistent_def)
  note nn = count_of_nonneg [OF ok, of ?k] and cd = count_of_dom [OF ok, of ?k]
  define up where "up = cw\<lparr>cw_portCounts := (cw_portCounts cw)(?k \<mapsto> count_of (cw_portCounts cw) ?k + 1)\<rparr>"
  define del where "del = cw\<lparr>cw_portCounts := (cw_portCounts cw)(?k := None)\<rparr>"
  define down where "down = cw\<lparr>cw_portCounts := (cw_portCounts cw)(?k \<mapsto> count_of (cw_portCounts cw) ?k - 1)\<rparr>"
  have "consistent C (if count_of (cw_portCounts cw) ?k = 0 then cw_emit [makeChange ''open'' (cw_name cw) ?k] up else up)" if "known ?k"
    using ok nn cd V live that texts_insert [of cw ?k] unfolding up_def
    by (auto simp: consistent_def cw_ok_def texts_def user_view_def image_insert)
  moreover have "consistent C (if count_of (cw_portCounts cw) ?k - 1 \<le> 0 then cw_emit [makeChange ''close'' (cw_name cw) ?k] del else down)" if "known ?k"
  proof (cases "count_of (cw_portCounts cw) ?k - 1 \<le> 0")
    case True
    with texts_remove [OF ok that] ok V live show ?thesis
      by (auto simp: consistent_def cw_ok_def texts_def user_view_def del_def)
  next
    case False
    then have "?k \<in> dom (cw_portCounts cw)" using cd by auto
    with False ok V live that show ?thesis
      by (auto simp: consistent_def cw_ok_def texts_def down_def insert_absorb)
  qed
  ultimately show "consistent C cw'"
    using assms unfolding up_def del_def down_def
    by (auto simp: ports_event_def Let_def known_event_def split: if_splits)
  show "\<not> pw_synced pw \<Longrightarrow> cw' = cw" "cw_name cw' = cw_name cw" "pw_synced pw' = pw_synced pw"
    "pw_fired pw' = pw_fired pw" "pw_calls pw' = pw_calls pw"
    using assms(3,4) by (auto simp: ports_event_def Let_def split: if_splits)
qed


section \<open>The sync marker\<close>

definition known_all :: "Listen set \<Rightarrow> bool" where
  "known_all S \<longleftrightarrow> finite S \<and> (\<forall>l \<in> S. known (port_of l))"

lemma snapshot_Some:
  assumes "finite S"
  shows "snapshot_counts S k = Some n \<longleftrightarrow> n = int (card {l \<in> S. port_of l = k}) \<and> k \<in> port_of ` S"
proof -
  have "card {l \<in> S. port_of l = k} = 0 \<longleftrightarrow> k \<notin> port_of ` S" using assms by (auto simp: card_eq_0_iff)
  then show ?thesis by (auto simp: snapshot_counts_def Let_def)
qed

lemma snapshot_dom: "finite S \<Longrightarrow> dom (snapshot_counts S) = port_of ` S"
  unfolding dom_def by (auto simp: snapshot_Some)

lemma snapshot_positive: "finite S \<Longrightarrow> snapshot_counts S k = Some n \<Longrightarrow> 0 < n"
  by (auto simp: snapshot_Some card_gt_0_iff)

lemma snapshot_ok: "known_all S \<Longrightarrow> cw_ok (cw\<lparr>cw_portCounts := snapshot_counts S\<rparr>)"
  using snapshot_dom [of S] snapshot_positive [of S]
  by (auto simp: cw_ok_def known_all_def snapshot_Some)

lemma snapshot_zero: "finite S \<Longrightarrow> count_of (snapshot_counts S) k = 0 \<longleftrightarrow> k \<notin> port_of ` S"
  using snapshot_dom [of S] by (auto simp: count_of_def snapshot_counts_def Let_def card_eq_0_iff)

lemma sync_startup:
  assumes "known_all (pw_incoming pw)" "visits (fst its)" "cw_emitted cw = []" "\<not> pw_fired pw" "pw_calls pw = []"
    and "on_sync its True (pw, cw) = (pw', cw')"
  shows "cw_selects cw = [] \<Longrightarrow> consistent (pw_calls pw') cw'" "pw_fired pw'" "pw_synced pw'" "length (pw_calls pw') = 1"
    "pw_incoming pw' = pw_incoming pw" "cw_name cw' = cw_name cw"
    "cw_portCounts cw' = snapshot_counts (pw_incoming pw)"
proof -
  let ?new = "snapshot_counts (pw_incoming pw)"
  have set: "set (fst its (dom ?new)) = dom ?new"
    using assms(1,2) snapshot_dom by (auto simp: known_all_def visits_set)
  have r: "pw' = pw\<lparr>pw_synced := True, pw_fired := True,
        pw_calls := [map (makeChange ''open'' (cw_name cw)) (fst its (dom ?new))]\<rparr>"
    "cw' = cw\<lparr>cw_portCounts := ?new\<rparr>"
    using assms(4-6) by (auto simp: on_sync_def ensureCB_def Let_def)
  have "user_view (pw_calls pw' @ cw_emitted cw') {} = texts cw'"
    using set assms(3) r view_opens [of "cw_name cw" "fst its (dom ?new)" "{}"]
    by (simp add: texts_def user_view_def)
  then show "consistent (pw_calls pw') cw'" if "cw_selects cw = []"
    using that snapshot_ok [OF assms(1)] r(2) by (simp add: consistent_def)
  show "pw_fired pw'" "pw_synced pw'" "length (pw_calls pw') = 1" "pw_incoming pw' = pw_incoming pw" "cw_name cw' = cw_name cw"
    "cw_portCounts cw' = ?new" using r by simp_all
qed

lemma sync_reconnect:
  assumes "known_all (pw_incoming pw)" "visits (fst its)" "visits (snd its)" "consistent C cw"
    and "on_sync its False (pw, cw) = (pw', cw')"
  shows "consistent C cw'" "pw_synced pw'" "pw_calls pw' = pw_calls pw" "pw_incoming pw' = pw_incoming pw"
    "cw_name cw' = cw_name cw" "cw_portCounts cw' = snapshot_counts (pw_incoming pw)"
proof -
  let ?new = "snapshot_counts (pw_incoming pw)" and ?old = "cw_portCounts cw" and ?name = "cw_name cw"
  define opens closes where
    "opens = filter (\<lambda>k. count_of ?old k = 0) (fst its (dom ?new))" and
    "closes = filter (\<lambda>k. count_of ?new k = 0) (snd its (dom ?old))"
  define chg where "chg = map (makeChange ''open'' ?name) opens @ map (makeChange ''close'' ?name) closes"
  define cw1 where "cw1 = cw\<lparr>cw_portCounts := ?new\<rparr>"
  have ok: "cw_ok cw" and V: "user_view (C @ cw_emitted cw) {} = texts cw" and live: "cw_selects cw = []"
    using assms(4) by (auto simp: consistent_def)
  have fin: "finite (pw_incoming pw)" "finite (dom ?old)" using assms(1) ok by (auto simp: known_all_def cw_ok_def)
  have sets: "set opens = dom ?new - dom ?old" "set closes = dom ?old - dom ?new"
    using visits_set [OF assms(2), of "dom ?new"] visits_set [OF assms(3) fin(2)] fin snapshot_dom [OF fin(1)]
      count_of_dom [OF ok] snapshot_zero [OF fin(1)] by (auto simp: opens_def closes_def)
  have "known j" if "j \<in> dom ?new \<union> dom ?old" for j
    using that assms(1) cw_okD [OF ok, of j] snapshot_dom [OF fin(1)] by (auto simp: known_all_def)
  then have "inj_on (port_text ?name) (dom ?new \<union> dom ?old)" by (intro inj_onI) (metis port_text_inj)
  then have "port_text ?name ` (dom ?new \<union> dom ?old - (dom ?old - dom ?new)) =
      port_text ?name ` (dom ?new \<union> dom ?old) - port_text ?name ` (dom ?old - dom ?new)"
    by (intro inj_on_image_set_diff) auto
  moreover have "dom ?new \<union> dom ?old - (dom ?old - dom ?new) = dom ?new"
    "dom ?old \<union> (dom ?new - dom ?old) = dom ?new \<union> dom ?old" by blast+
  ultimately have "texts cw \<union> port_text ?name ` set opens - port_text ?name ` set closes = port_text ?name ` dom ?new"
    unfolding texts_def sets image_Un [symmetric] by simp
  then have v: "fold apply_change chg (texts cw) = texts cw1"
    by (simp add: chg_def view_opens view_closes texts_def cw1_def)
  have r: "pw' = pw\<lparr>pw_synced := True\<rparr>" "cw' = (if chg = [] then cw1 else cw_emit chg cw1)"
    using assms(5) unfolding chg_def opens_def closes_def cw1_def by (auto simp: on_sync_def Let_def)
  have ok1: "cw_ok cw1" using snapshot_ok [OF assms(1)] by (simp add: cw1_def)
  have "user_view (C @ cw_emitted cw') {} = texts cw1"
    using v V live r(2) by (cases "chg = []") (simp_all add: user_view_def cw1_def)
  with ok1 live show "consistent C cw'" using r(2) by (auto simp: consistent_def cw_ok_def texts_def cw1_def)
  show "pw_synced pw'" "pw_calls pw' = pw_calls pw" "pw_incoming pw' = pw_incoming pw" "cw_name cw' = cw_name cw"
    "cw_portCounts cw' = ?new" using r by (simp_all add: cw1_def)
qed


section \<open>Whole streams\<close>

definition decoded :: "(string \<Rightarrow> Event option) \<Rightarrow> (string \<times> orders) list \<Rightarrow> (Event \<times> orders) list" where
  "decoded decode ls = concat (map (\<lambda>(line, its). case decode line of None \<Rightarrow> [] | Some ev \<Rightarrow> [(ev, its)]) ls)"

abbreviation read_events :: "bool \<Rightarrow> (Event \<times> orders) list \<Rightarrow> port_watch \<times> containerWatcher \<Rightarrow> port_watch \<times> containerWatcher" where
  "read_events cb \<equiv> fold (\<lambda>(ev, its). ports_event its cb ev)"

lemma ports_lines_fold: "ports_lines decode cb ls s = read_events cb (decoded decode ls) s"
  by (induction decode cb ls s rule: ports_lines.induct) (auto simp: decoded_def split: option.split)

text \<open>
  What a reader of the stream may count on: the known stacks, at most one sync marker, and ranges
  over maps that visit every key.
\<close>

definition syncs :: "(Event \<times> orders) list \<Rightarrow> nat" where
  "syncs es = length (filter (\<lambda>(ev, its). ev_Op ev = ''sync'') es)"

definition fair :: "Event \<times> orders \<Rightarrow> bool" where
  "fair e \<longleftrightarrow> known_event (fst e) \<and> visits (fst (snd e)) \<and> visits (snd (snd e))"

definition honest :: "(string \<Rightarrow> Event option) \<Rightarrow> port_response \<Rightarrow> bool" where
  "honest decode resp \<longleftrightarrow>
     (case resp of
        PortStream ls ok \<Rightarrow> list_all fair (decoded decode ls) \<and> syncs (decoded decode ls) \<le> 1
      | _ \<Rightarrow> True)"

definition stream_inv :: "bool \<Rightarrow> string list list \<Rightarrow> port_watch \<times> containerWatcher \<Rightarrow> bool" where
  "stream_inv cb C s \<longleftrightarrow>
     known_all (pw_incoming (fst s)) \<and> consistent (C @ pw_calls (fst s)) (snd s) \<and>
     (if cb then C = [] \<and> (if pw_synced (fst s) then pw_fired (fst s) \<and> length (pw_calls (fst s)) = 1
                        else \<not> pw_fired (fst s) \<and> pw_calls (fst s) = [] \<and> cw_emitted (snd s) = [])
      else pw_calls (fst s) = [])"

lemma stream_inv_event:
  assumes "stream_inv cb C s" "fair (ev, its)" "ev_Op ev = ''sync'' \<longrightarrow> \<not> pw_synced (fst s)"
  shows "stream_inv cb C (ports_event its cb ev s)"
    "pw_synced (fst (ports_event its cb ev s)) \<longleftrightarrow> pw_synced (fst s) \<or> ev_Op ev = ''sync''"
    "cw_name (snd (ports_event its cb ev s)) = cw_name (snd s)"
proof -
  obtain pw cw where s: "s = (pw, cw)" by fastforce
  obtain pw' cw' where r: "ports_event its cb ev (pw, cw) = (pw', cw')" by fastforce
  note I = assms(1) [unfolded stream_inv_def s fst_conv snd_conv]
  have f: "known_event ev" "visits (fst its)" "visits (snd its)" using assms(2) by (auto simp: fair_def)
  have "stream_inv cb C (pw', cw') \<and> (pw_synced pw' \<longleftrightarrow> pw_synced pw \<or> ev_Op ev = ''sync'') \<and> cw_name cw' = cw_name cw"
  proof (cases "ev_Op ev = ''sync''")
    case True
    then have on: "on_sync its cb (pw, cw) = (pw', cw')" "\<not> pw_synced pw"
      using r assms(3) s by (auto simp: ports_event_def)
    show ?thesis
    proof (cases cb)
      case True
      then have cbT: "cb = True" by simp
      with I on have "cw_emitted cw = []" "\<not> pw_fired pw" "pw_calls pw = []" by auto
      note S = sync_startup [OF conjunct1 [OF I] f(2) this on(1) [unfolded cbT]]
      moreover have "cw_selects cw = []" using I by (simp add: consistent_def)
      ultimately show ?thesis using True I \<open>ev_Op ev = ''sync''\<close> by (simp add: stream_inv_def)
    next
      case False
      then have cbF: "cb = False" by simp
      with I have c: "consistent C cw" by auto
      note S = sync_reconnect [OF conjunct1 [OF I] f(2,3) c on(1) [unfolded cbF]]
      with False I \<open>ev_Op ev = ''sync''\<close> show ?thesis by (simp add: stream_inv_def)
    qed
  next
    case False
    note E = event_consistent [OF conjunct1 [OF conjunct2 [OF I]] f(1) False r]
    have sub: "pw_incoming pw' \<subseteq> insert (ev_Listen ev) (pw_incoming pw)"
      "ev_Listen ev \<in> pw_incoming pw' \<Longrightarrow> ev_Listen ev \<in> pw_incoming pw \<or> ev_Op ev = ''add''"
      using r False by (auto simp: ports_event_def Let_def split: if_splits)
    with I f(1) have "known (port_of l)" if "l \<in> pw_incoming pw'" for l
      using that by (cases "l = ev_Listen ev") (auto simp: known_all_def known_event_def)
    moreover have "finite (pw_incoming pw')" using sub I by (auto simp: known_all_def elim: finite_subset)
    ultimately have "known_all (pw_incoming pw')" by (simp add: known_all_def)
    with I E False show ?thesis by (auto simp: stream_inv_def)
  qed
  then show "stream_inv cb C (ports_event its cb ev s)"
    "pw_synced (fst (ports_event its cb ev s)) \<longleftrightarrow> pw_synced (fst s) \<or> ev_Op ev = ''sync''"
    "cw_name (snd (ports_event its cb ev s)) = cw_name (snd s)" by (simp_all add: s r)
qed

lemma stream_inv_events:
  assumes "stream_inv cb C s" "list_all fair es" "syncs es \<le> (if pw_synced (fst s) then 0 else 1)"
  shows "stream_inv cb C (read_events cb es s) \<and> cw_name (snd (read_events cb es s)) = cw_name (snd s)"
  using assms
proof (induction es arbitrary: s)
  case (Cons e es)
  obtain ev its where e: "e = (ev, its)" by (cases e)
  have 1: "ev_Op ev = ''sync'' \<longrightarrow> \<not> pw_synced (fst s)" using Cons.prems(3) e by (auto simp: syncs_def)
  note S = stream_inv_event [OF Cons.prems(1) _ 1, of its]
  have "syncs es \<le> (if pw_synced (fst (ports_event its cb ev s)) then 0 else 1)"
    using Cons.prems(2,3) S(2) e by (auto simp: syncs_def split: if_splits)
  with Cons.IH [OF S(1)] Cons.prems(2) S(3) e show ?case by simp
qed simp

lemma watchOnce_consistent:
  assumes "consistent C cw" "cb \<longrightarrow> C = [] \<and> cw_emitted cw = []" "honest decode resp"
    and "ports_watchOnce decode cb resp cw = (r, calls, cw')"
  shows "consistent (C @ calls) cw'" "length calls = (if cb then 1 else 0)" "cw_name cw' = cw_name cw"
proof -
  have nil: "consistent (C @ [[]]) w \<longleftrightarrow> consistent C w" for C w by (simp add: consistent_def user_view_def)
  have "consistent (C @ calls) cw' \<and> length calls = (if cb then 1 else 0) \<and> cw_name cw' = cw_name cw"
  proof (cases resp)
    case (PortStream ls ok)
    let ?es = "decoded decode ls" and ?s0 = "(port_watch0, cw)"
    obtain pw1 cw1 where s: "ports_lines decode cb ls ?s0 = (pw1, cw1)" by fastforce
    have "stream_inv cb C ?s0" using assms(1,2) by (auto simp: stream_inv_def port_watch0_def known_all_def)
    moreover have "list_all fair ?es" "syncs ?es \<le> 1" using assms(3) PortStream by (simp_all add: honest_def)
    ultimately have "stream_inv cb C (pw1, cw1) \<and> cw_name cw1 = cw_name cw"
      using stream_inv_events [of cb C ?s0 ?es] s by (simp add: ports_lines_fold port_watch0_def)
    moreover have "calls = pw_calls (ensureCB cb [] pw1)" "cw' = cw1"
      using assms(4) PortStream s by (auto simp: ports_watchOnce_def)
    ultimately show ?thesis using nil [of "[]"]
      by (cases cb; cases "pw_synced pw1") (auto simp: stream_inv_def ensureCB_def)
  qed (use assms nil [of C] nil [of "[]"] in \<open>auto simp: ports_watchOnce_def split: if_splits\<close>)
  then show "consistent (C @ calls) cw'" "length calls = (if cb then 1 else 0)" "cw_name cw' = cw_name cw" by auto
qed

lemma connections_consistent:
  assumes "consistent C cw" "cb \<longrightarrow> C = [] \<and> cw_emitted cw = []" "list_all (honest decode) rs"
    and "cw_connections decode cb rs cw = (calls, cw')"
  shows "consistent (C @ calls) cw' \<and> length calls = (if cb \<and> rs \<noteq> [] then 1 else 0) \<and> cw_name cw' = cw_name cw"
  using assms
proof (induction rs arbitrary: cb C cw calls)
  case (Cons r rs)
  obtain x c1 cw1 where w: "ports_watchOnce decode cb r cw = (x, c1, cw1)" by (metis prod_cases3)
  obtain c2 where n: "cw_connections decode False rs cw1 = (c2, cw')" "calls = c1 @ c2"
    using Cons.prems(4) w by (auto split: prod.splits)
  note W = watchOnce_consistent [OF Cons.prems(1,2) _ w]
  show ?case using Cons.IH [OF W(1) _ _ n(1)] W Cons.prems(3) n(2) by auto
qed simp

lemma close_all_view:
  assumes "consistent C cw" "visits it"
  shows "user_view (C @ cw_emitted (close_all it cw)) {} = {} \<and> cw_portCounts (close_all it cw) = Map.empty"
proof -
  let ?d = "dom (cw_portCounts cw)"
  have "set (it ?d) = ?d" using assms visits_set [OF assms(2), of ?d] by (simp add: consistent_def cw_ok_def)
  with assms(1) show ?thesis
    by (auto simp: close_all_def Let_def consistent_def texts_def user_view_def view_closes)
qed

lemma new_consistent: "consistent [] (newContainerWatcher name sock)"
  by (simp add: consistent_def cw_ok_def newContainerWatcher_def texts_def)

section \<open>Properties of a watcher\<close>

text \<open>
  The same watcher with the client killed at some time: what reaches the client is what its
  selects let through of the batches a live client gets; everything else goes on as before.
\<close>

fun let_through :: "bool list \<Rightarrow> 'a list \<Rightarrow> 'a list" where
  "let_through [] xs = xs"
| "let_through (b # bs) [] = []"
| "let_through (b # bs) (x # xs) = (if b then x # let_through bs xs else let_through bs xs)"

lemma let_through_Nil [simp]: "let_through sel [] = []"
  by (cases sel) simp_all

lemma let_through_snoc:
  "let_through sel (xs @ [x]) =
     let_through sel xs @ (case drop (length xs) sel of False # _ \<Rightarrow> [] | _ \<Rightarrow> [x])"
  by (induction sel xs rule: let_through.induct) (auto split: list.split bool.split)

definition lossy :: "bool list \<Rightarrow> containerWatcher \<Rightarrow> containerWatcher \<Rightarrow> bool" where
  "lossy sel cl cw \<longleftrightarrow>
     cw_selects cl = [] \<and>
     cw = cl\<lparr>cw_emitted := let_through sel (cw_emitted cl), cw_selects := drop (length (cw_emitted cl)) sel\<rparr>"

lemma lossy_same:
  assumes "lossy sel cl cw"
  shows "cw_name cw = cw_name cl" "cw_portCounts cw = cw_portCounts cl"
    "lossy sel (cl\<lparr>cw_portCounts := m\<rparr>) (cw\<lparr>cw_portCounts := m\<rparr>)"
  using assms by (auto simp: lossy_def)

lemma lossy_emit: "lossy sel cl cw \<Longrightarrow> lossy sel (cw_emit b cl) (cw_emit b cw)"
  by (auto simp: lossy_def cw_emit_def let_through_snoc drop_Suc tl_drop [symmetric] split: list.split bool.split)

lemma lossy_event:
  assumes "lossy sel cl cw"
  shows "fst (ports_event its cb ev (pw, cw)) = fst (ports_event its cb ev (pw, cl))"
    "lossy sel (snd (ports_event its cb ev (pw, cl))) (snd (ports_event its cb ev (pw, cw)))"
  using assms lossy_emit lossy_same [OF assms]
  by (auto simp: ports_event_def on_sync_def Let_def lossy_emit split: prod.split)

lemma lossy_lines:
  "lossy sel cl cw \<Longrightarrow>
     fst (ports_lines decode cb ls (pw, cw)) = fst (ports_lines decode cb ls (pw, cl)) \<and>
     lossy sel (snd (ports_lines decode cb ls (pw, cl))) (snd (ports_lines decode cb ls (pw, cw)))"
proof (induction ls arbitrary: pw cl cw)
  case (Cons l ls)
  obtain line its where l: "l = (line, its)" by (cases l)
  show ?case
  proof (cases "decode line")
    case (Some ev)
    note E = lossy_event [OF Cons.prems, of its cb ev pw]
    with Cons.IH [OF E(2), of "fst (ports_event its cb ev (pw, cl))"] l Some show ?thesis
      by (metis (no_types, lifting) ports_lines.simps(2) option.case(2) prod.collapse)
  qed (use Cons l in simp)
qed simp

lemma lossy_watchOnce:
  assumes "lossy sel cl cw" "ports_watchOnce decode cb resp cl = (r, calls, cl')" "ports_watchOnce decode cb resp cw = (q, calls', cw')"
  shows "calls' = calls \<and> lossy sel cl' cw'"
  using assms lossy_lines [OF assms(1), of decode cb _ port_watch0]
  by (auto simp: ports_watchOnce_def split: port_response.splits prod.splits) (metis fst_conv snd_conv)+

lemma lossy_connections:
  assumes "lossy sel cl cw" "cw_connections decode cb rs cl = (calls, cl')" "cw_connections decode cb rs cw = (calls', cw')"
  shows "calls' = calls \<and> lossy sel cl' cw'"
  using assms
proof (induction rs arbitrary: cb cl cw calls calls')
  case (Cons resp rs)
  obtain r c1 cl1 q c1' cw1 where w: "ports_watchOnce decode cb resp cl = (r, c1, cl1)" "ports_watchOnce decode cb resp cw = (q, c1', cw1)"
    by (metis prod_cases3)
  obtain c2 c2' where n: "cw_connections decode False rs cl1 = (c2, cl')" "calls = c1 @ c2"
    "cw_connections decode False rs cw1 = (c2', cw')" "calls' = c1' @ c2'"
    using Cons.prems(2,3) w by (auto split: prod.splits)
  from lossy_watchOnce [OF Cons.prems(1) w] Cons.IH n show ?case by blast
qed simp

lemma lossy_close_all:
  assumes "lossy sel cl cw"
  shows "lossy sel (close_all it cl) (close_all it cw)"
  using lossy_emit [OF lossy_same(3) [OF assms, of Map.empty]] lossy_same [OF assms] by (simp add: close_all_def Let_def)

lemma lossy_run:
  assumes "cw_run decode cb it rs (newContainerWatcher name sock) = (calls, cl)"
    and "cw_run decode cb it rs ((newContainerWatcher name sock)\<lparr>cw_selects := sel\<rparr>) = (calls', cw)"
  shows "calls' = calls \<and> cw_emitted cw = let_through sel (cw_emitted cl)"
proof -
  let ?new = "newContainerWatcher name sock"
  have "lossy sel ?new (?new\<lparr>cw_selects := sel\<rparr>)" by (simp add: lossy_def newContainerWatcher_def)
  moreover obtain c1 cl1 c2 cw1 where c: "cw_connections decode cb rs ?new = (c1, cl1)"
    "cw_connections decode cb rs (?new\<lparr>cw_selects := sel\<rparr>) = (c2, cw1)" by fastforce
  ultimately have "c2 = c1" "lossy sel (close_all it cl1) (close_all it cw1)"
    using lossy_connections lossy_close_all by blast+
  moreover have "calls = c1" "calls' = c2" "cl = close_all it cl1" "cw = close_all it cw1"
    using assms c by (simp_all add: cw_run_def)
  ultimately show ?thesis by (simp add: lossy_def)
qed

text \<open>
  C22. What the user is told about a container is what the watcher counts. Take any sequence of
  connections of a new watcher, failed and broken ones included, whose streams have at most one sync
  marker and name the stacks 4 and 6 only. The startup callback is called once, by the first
  connection (never without a callback). As long as the client has not been killed, the ports open
  after the strings given to the callback and the batches sent are exactly those with a socket
  counted, and when the watcher ends every port reported open has been reported closed. If the
  client is killed, a batch is sent or lost as the select in \<open>emit\<close> chooses, the final
  one with the closed ports too: what arrives is what these choices let through of the batches a
  live client gets, and nothing else differs.
\<close>

theorem ports_reported_are_counted:
  assumes "list_all (honest decode) rs" "visits it"
    and "cw_connections decode cb rs (newContainerWatcher name sock) = (calls, cw)"
    and "cw_run decode cb it rs (newContainerWatcher name sock) = (calls', cw')"
    and "cw_run decode cb it rs ((newContainerWatcher name sock)\<lparr>cw_selects := sel\<rparr>) = (calls'', cw'')"
  shows "user_view (calls @ cw_emitted cw) {} = port_text name ` dom (cw_portCounts cw) \<and>
    (\<forall>k n. cw_portCounts cw k = Some n \<longrightarrow> 0 < n) \<and>
    length calls = (if cb \<and> rs \<noteq> [] then 1 else 0) \<and>
    calls' = calls \<and> user_view (calls' @ cw_emitted cw') {} = {} \<and> cw_portCounts cw' = Map.empty \<and>
    calls'' = calls \<and> cw_emitted cw'' = let_through sel (cw_emitted cw')"
proof -
  let ?new = "newContainerWatcher name sock"
  have "cw_emitted ?new = []" "cw_name ?new = name" by (simp_all add: newContainerWatcher_def)
  then have C: "consistent calls cw" "length calls = (if cb \<and> rs \<noteq> [] then 1 else 0)" "cw_name cw = name"
    using connections_consistent [OF new_consistent _ assms(1,3)] by auto
  have "calls' = calls" "cw' = close_all it cw" using assms(3,4) by (auto simp: cw_run_def)
  with C close_all_view [OF C(1) assms(2)] cw_okD lossy_run [OF assms(4,5)] show ?thesis
    by (auto simp: consistent_def texts_def)
qed


definition demo_stream :: port_response where
  "demo_stream = PortStream
     [(demo_encode (add_event demo_listen), (sorted_list_of_set, sorted_list_of_set)),
      (demo_encode sync_event, (sorted_list_of_set, sorted_list_of_set))] False"

lemma demo_decoded:
  "decoded demo_decode [(demo_encode (add_event demo_listen), o1), (demo_encode sync_event, o2)] =
     [(add_event demo_listen, o1), (sync_event, o2)]"
  by (simp add: decoded_def demo_codec)

lemma demo_honest: "honest demo_decode demo_stream"
  unfolding demo_stream_def honest_def port_response.case demo_decoded
  by (simp add: fair_def known_event_def syncs_def event_defs visits_sorted known_def port_of_def demo_listen_def V4_def)

lemma ports_reported_are_counted_witness:
  "user_view (fst (cw_run demo_decode True sorted_list_of_set [PortRequestFailed, demo_stream, PortBadStatus]
       (newContainerWatcher ''a'' ''/peel/lo/a'')) @
     cw_emitted (snd (cw_run demo_decode True sorted_list_of_set [PortRequestFailed, demo_stream, PortBadStatus]
       (newContainerWatcher ''a'' ''/peel/lo/a'')))) {} = {}"
proof -
  let ?rs = "[PortRequestFailed, demo_stream, PortBadStatus]" and ?new = "newContainerWatcher ''a'' ''/peel/lo/a''"
  obtain calls cw where c: "cw_connections demo_decode True ?rs ?new = (calls, cw)" by fastforce
  obtain calls' cw' where r: "cw_run demo_decode True sorted_list_of_set ?rs ?new = (calls', cw')" by fastforce
  have "list_all (honest demo_decode) ?rs" using demo_honest by (simp add: honest_def)
  moreover have "?new\<lparr>cw_selects := []\<rparr> = ?new" by (simp add: newContainerWatcher_def)
  ultimately show ?thesis using ports_reported_are_counted [OF _ visits_sorted c r, of "[]"] r by auto
qed

section \<open>The counts are those of the sockets\<close>

lemma snapshot_count: "finite S \<Longrightarrow> count_of (snapshot_counts S) k = int (card {l \<in> S. port_of l = k})"
  by (auto simp: count_of_def snapshot_counts_def Let_def)

lemma counts_insert:
  assumes "finite S" "l \<notin> S"
  shows "(snapshot_counts S)(port_of l \<mapsto> count_of (snapshot_counts S) (port_of l) + 1) = snapshot_counts (insert l S)"
proof
  fix k
  have e: "{x \<in> insert l S. port_of x = k} = (if k = port_of l then insert l {x \<in> S. port_of x = k} else {x \<in> S. port_of x = k})"
    by auto
  show "((snapshot_counts S)(port_of l \<mapsto> count_of (snapshot_counts S) (port_of l) + 1)) k = snapshot_counts (insert l S) k"
    using assms e by (auto simp: snapshot_count) (auto simp: snapshot_counts_def Let_def)
qed

lemma counts_remove:
  assumes "finite S" "l \<in> S"
  shows "(if count_of (snapshot_counts S) (port_of l) - 1 \<le> 0 then (snapshot_counts S)(port_of l := None)
     else (snapshot_counts S)(port_of l \<mapsto> count_of (snapshot_counts S) (port_of l) - 1)) = snapshot_counts (S - {l})"
proof
  fix k
  have e: "{x \<in> S - {l}. port_of x = k} = (if k = port_of l then {x \<in> S. port_of x = k} - {l} else {x \<in> S. port_of x = k})"
    by auto
  define n where "n = card {x \<in> S. port_of x = port_of l}"
  have n: "0 < n" "card ({x \<in> S. port_of x = port_of l} - {l}) = n - 1"
    using assms by (auto simp: n_def card_gt_0_iff)
  have c: "count_of (snapshot_counts S) (port_of l) = int n" using assms(1) by (simp add: snapshot_count n_def)
  show "(if count_of (snapshot_counts S) (port_of l) - 1 \<le> 0 then (snapshot_counts S)(port_of l := None)
     else (snapshot_counts S)(port_of l \<mapsto> count_of (snapshot_counts S) (port_of l) - 1)) k = snapshot_counts (S - {l}) k"
  proof (cases "k = port_of l")
    case True
    with e n have "card {x \<in> S - {l}. port_of x = k} = n - 1" by simp
    with True c n(1) show ?thesis by (auto simp: snapshot_counts_def Let_def)
  next
    case False
    with e show ?thesis by (simp add: snapshot_counts_def)
  qed
qed

text \<open>Before the sync marker the sockets are collected, after it their ports are counted.\<close>

definition follows :: "Listen set \<Rightarrow> port_watch \<times> containerWatcher \<Rightarrow> bool" where
  "follows S s \<longleftrightarrow> finite S \<and>
     (if pw_synced (fst s) then cw_portCounts (snd s) = snapshot_counts S else pw_incoming (fst s) = S)"

lemma follows_event:
  assumes "follows S s" "exact [ev] S" "ev_Op ev = ''sync'' \<longrightarrow> \<not> pw_synced (fst s)"
  shows "follows (apply_event ev S) (ports_event its cb ev s)"
proof -
  obtain pw cw where s: "s = (pw, cw)" by fastforce
  note F = assms(1) [unfolded follows_def s fst_conv snd_conv]
  consider "ev_Op ev = ''add''" | "ev_Op ev = ''remove''" | "ev_Op ev = ''sync''" | "ev_Op ev \<notin> {''add'', ''remove'', ''sync''}"
    by blast
  then show ?thesis
  proof cases
    case 1
    with assms(2) F counts_insert [of S "ev_Listen ev"] show ?thesis
      by (auto simp: s follows_def ports_event_def apply_event_def Let_def)
  next
    case 2
    with assms(2) F counts_remove [of S "ev_Listen ev"] show ?thesis
      by (auto simp: s follows_def ports_event_def apply_event_def Let_def split: if_splits)
  next
    case 3
    with assms(3) F show ?thesis
      by (auto simp: s follows_def ports_event_def apply_event_def on_sync_def ensureCB_def Let_def)
  next
    case 4
    with F show ?thesis by (auto simp: s follows_def ports_event_def apply_event_def Let_def)
  qed
qed


lemma event_synced: "pw_synced (fst (ports_event its cb ev s)) \<longleftrightarrow> pw_synced (fst s) \<or> ev_Op ev = ''sync''"
  by (cases s) (auto simp: ports_event_def on_sync_def ensureCB_def Let_def)

lemma follows_events:
  assumes "follows S s" "exact (map fst es) S" "syncs es \<le> (if pw_synced (fst s) then 0 else 1)"
  shows "follows (replay (map fst es) S) (read_events cb es s) \<and>
    (pw_synced (fst (read_events cb es s)) \<longleftrightarrow> pw_synced (fst s) \<or> 0 < syncs es)"
  using assms
proof (induction es arbitrary: s S)
  case (Cons e es)
  obtain ev its where e: "e = (ev, its)" by (cases e)
  have 1: "ev_Op ev = ''sync'' \<longrightarrow> \<not> pw_synced (fst s)" using Cons.prems(3) e by (auto simp: syncs_def)
  have "follows (apply_event ev S) (ports_event its cb ev s)"
    using follows_event [OF Cons.prems(1) _ 1] Cons.prems(2) e by auto
  moreover have "exact (map fst es) (apply_event ev S)" using Cons.prems(2) e by simp
  moreover have "syncs es \<le> (if pw_synced (fst (ports_event its cb ev s)) then 0 else 1)"
    using Cons.prems(3) event_synced [of its cb ev s] e by (auto simp: syncs_def split: if_splits)
  ultimately show ?case using Cons.IH [of _ "ports_event its cb ev s"] event_synced [of its cb ev s] e
    by (auto simp: syncs_def)
qed (simp add: syncs_def)

lemma syncs_map: "syncs es = length (filter (\<lambda>ev. ev_Op ev = ''sync'') (map fst es))"
  by (simp add: syncs_def filter_map comp_def case_prod_unfold)

lemma shape_syncs:
  assumes "stream_shape (map fst es)"
  shows "syncs es = 1"
proof -
  obtain snap ds where evs: "map fst es = map add_event snap @ sync_event # ds" "list_all delta ds"
    using assms by (auto simp: stream_shape_def)
  have "filter (\<lambda>ev. ev_Op ev = ''sync'') (map add_event snap) = []" by (auto simp: event_defs filter_empty_conv)
  moreover have "filter (\<lambda>ev. ev_Op ev = ''sync'') ds = []"
    using evs(2) by (auto simp: filter_empty_conv list_all_iff delta_def event_defs)
  ultimately show ?thesis unfolding syncs_map evs(1) by (simp add: sync_event_def)
qed

lemma decoded_encoded:
  assumes "\<forall>e \<in> set es. decode (enc (fst e)) = Some (fst e)"
  shows "decoded decode (map (map_prod enc id) es) = es"
  using assms by (induction es) (auto simp: decoded_def)

text \<open>
  C4. The user's ports are the container's ports. Take any state the server of a container can
  reach and a \<open>/watch\<close> request of its that is subscribed and has nothing waiting in its channel.
  A container watcher that reads the lines of that request, after any history of connections and
  with or without a startup callback, has told its user about exactly the ports of the sockets
  the server's watcher knows: each stack and port with a socket of whatever protocol and address
  is open, and no other.
\<close>

theorem ports_mirror_container:
  assumes "sv_reachable s" "sv_conns s i = Some c" "\<not> wc_done c"
    and "wc_chan c \<in> set (w_subs (sv_watcher s))" "w_chans (sv_watcher s) (wc_chan c) = Some ch" "c_buf ch = []"
    and "list_all (honest decode) rs" "cw_connections decode cb rs (newContainerWatcher name sock) = (calls, cw)"
    and "map fst es = wc_sent c" "\<forall>e \<in> set es. decode (enc (fst e)) = Some (fst e)" "list_all fair es"
    and "ports_watchOnce decode (cb \<and> rs = []) (PortStream (map (map_prod enc id) es) ok) cw = (r, calls', cw')"
  shows "user_view (calls @ calls' @ cw_emitted cw') {} = port_text name ` port_of ` w_current (sv_watcher s)"
proof -
  let ?new = "newContainerWatcher name sock" and ?cb = "cb \<and> rs = []" and ?resp = "PortStream (map (map_prod enc id) es) ok"
  have dec: "decoded decode (map (map_prod enc id) es) = es" by (rule decoded_encoded [OF assms(10)])
  have sh: "syncs es = 1" using shape_syncs shape_reachable [OF assms(1)] assms(2,3,9) by (auto simp: shape_inv_def)
  have "cw_emitted ?new = []" "cw_name ?new = name" by (simp_all add: newContainerWatcher_def)
  then have C: "consistent calls cw" "cw_name cw = name"
    using connections_consistent [OF new_consistent _ assms(7,8)] by auto
  have first: "?cb \<longrightarrow> calls = [] \<and> cw_emitted cw = []" using assms(8) by (auto simp: newContainerWatcher_def)
  have "honest decode ?resp" using assms(11) dec sh by (simp add: honest_def)
  note W = watchOnce_consistent [OF C(1) first this assms(12)]
  have "exact (map fst es) {}" using stream_exact [OF assms(1-3)] assms(9) by simp
  moreover have "follows {} (port_watch0, cw)" by (simp add: follows_def port_watch0_def)
  ultimately have "follows (replay (wc_sent c) {}) (read_events ?cb es (port_watch0, cw)) \<and>
      pw_synced (fst (read_events ?cb es (port_watch0, cw)))"
    using follows_events [of "{}" "(port_watch0, cw)" es ?cb] assms(9) sh by (simp add: port_watch0_def)
  moreover have "snd (read_events ?cb es (port_watch0, cw)) = cw'"
    using assms(12) dec by (simp add: ports_watchOnce_def ports_lines_fold split_beta)
  moreover have "replay (wc_sent c) {} = w_current (sv_watcher s)"
    using sv_reachable_conn [OF assms(1-3)] assms(4-6) by (simp add: conn_ok_def)
  ultimately have "cw_portCounts cw' = snapshot_counts (w_current (sv_watcher s))" "finite (w_current (sv_watcher s))"
    by (auto simp: follows_def)
  then have "dom (cw_portCounts cw') = port_of ` w_current (sv_watcher s)" using snapshot_dom by simp
  with W C(2) show ?thesis by (simp add: consistent_def texts_def)
qed

lemma ports_mirror_container_witness:
  "user_view (fst (snd (ports_watchOnce demo_decode True demo_stream (newContainerWatcher ''a'' ''/peel/lo/a''))) @
     cw_emitted (snd (snd (ports_watchOnce demo_decode True demo_stream (newContainerWatcher ''a'' ''/peel/lo/a''))))) {} =
   {port_text ''a'' (port_of demo_listen)}"
proof -
  have "map_option (\<lambda>c. (wc_sent c, wc_done c, wc_chan c)) (sv_conns demo_server 0) =
      Some ([add_event demo_listen, sync_event], False, 0)"
    "w_subs (sv_watcher demo_server) = [0]" "map_option c_buf (w_chans (sv_watcher demo_server) 0) = Some []"
    "w_current (sv_watcher demo_server) = {demo_listen}"
    by code_simp+
  then obtain c ch where c: "sv_conns demo_server 0 = Some c" "wc_sent c = [add_event demo_listen, sync_event]"
    "\<not> wc_done c" "wc_chan c = 0" "w_chans (sv_watcher demo_server) 0 = Some ch" "c_buf ch = []"
    and w: "w_subs (sv_watcher demo_server) = [0]" "w_current (sv_watcher demo_server) = {demo_listen}" by auto
  let ?its = "(sorted_list_of_set, sorted_list_of_set) :: orders"
  let ?es = "[(add_event demo_listen, ?its), (sync_event, ?its)]"
  have st: "demo_stream = PortStream (map (map_prod demo_encode id) ?es) False" by (simp add: demo_stream_def)
  obtain r calls' cw' where e: "ports_watchOnce demo_decode (True \<and> [] = ([] :: port_response list))
      (PortStream (map (map_prod demo_encode id) ?es) False) (newContainerWatcher ''a'' ''/peel/lo/a'') = (r, calls', cw')"
    by (metis prod_cases3)
  have "list_all fair ?es" using demo_honest unfolding demo_stream_def honest_def port_response.case demo_decoded by simp
  moreover have "cw_connections demo_decode True [] (newContainerWatcher ''a'' ''/peel/lo/a'') =
      ([], newContainerWatcher ''a'' ''/peel/lo/a'')" by simp
  ultimately show ?thesis
    using ports_mirror_container [OF demo_server_reachable c(1,3) _ _ c(6) _ _ _ _ _ e] c w demo_codec e st by simp
qed

end
