(* ===== verification/FileSys.thy ===== *)
theory FileSys
  imports GoStrings "HOL-Library.Sublist"
begin

unbundle bit_operations_syntax

text \<open>
  The part of the Unix file system, and of package \<open>os\<close> on top of it, that the program calls. A
  file system is a table of inodes; names are directory entries that refer to inodes by number,
  so hard links share an inode and a change made through one name is seen through the other.
  Path lookup (\<open>namei\<close>) goes element by element from the root directory and follows symbolic
  links, at most 40 of them as Linux does, before the last element always and at the last one on
  request. The caller is root in its container: permissions never refuse it, and storage does
  not run out; device nodes may be refused (\<open>f_devices\<close>), as in an unprivileged container.
  Removing a name makes its inode unreachable through it; the table keeps the inode.
\<close>

section \<open>Inodes and directories\<close>

type_synonym ino = nat

datatype node =
    Dir "(string \<times> ino) list"
  | Reg "byte list"
  | Symlink string
  | Chr nat
  | Blk nat
  | Fifo
  | Sock

record inode =
  i_node :: node
  i_mode :: uint32
  i_uid :: int
  i_gid :: int
  i_xattr :: "(string \<times> string) list"
  i_mtime :: "int option"

record fs =
  f_inodes :: "ino \<rightharpoonup> inode"
  f_next :: ino
  f_umask :: uint32
  f_devices :: bool

datatype errno = ENOENT | ENOTDIR | EEXIST | EISDIR | ELOOP | EPERM | EBUSY | ENOTEMPTY | ENXIO

abbreviation (input) root_ino :: ino where
  "root_ino \<equiv> 0"

definition dir_entries :: "fs \<Rightarrow> ino \<Rightarrow> (string \<times> ino) list option" where
  "dir_entries fs i =
     (case f_inodes fs i of
        None \<Rightarrow> None
      | Some n \<Rightarrow> (case i_node n of Dir es \<Rightarrow> Some es | _ \<Rightarrow> None))"

definition is_dir :: "fs \<Rightarrow> ino \<Rightarrow> bool" where
  "is_dir fs i \<longleftrightarrow> dir_entries fs i \<noteq> None"

definition is_sock :: "fs \<Rightarrow> ino \<Rightarrow> bool" where
  "is_sock fs i \<longleftrightarrow> map_option i_node (f_inodes fs i) = Some Sock"

text \<open>The inode a name of a directory refers to.\<close>

definition entry :: "fs \<Rightarrow> ino \<Rightarrow> string \<Rightarrow> ino option" where
  "entry fs d n = (case dir_entries fs d of None \<Rightarrow> None | Some es \<Rightarrow> map_of es n)"

definition symlink_target :: "fs \<Rightarrow> ino \<Rightarrow> string option" where
  "symlink_target fs i =
     (case f_inodes fs i of
        None \<Rightarrow> None
      | Some n \<Rightarrow> (case i_node n of Symlink t \<Rightarrow> Some t | _ \<Rightarrow> None))"

section \<open>Path lookup\<close>

text \<open>
  The elements of a path as the kernel walks them: empty ones do not count, and a trailing slash
  asks for a directory, as a final \<open>.\<close> does.
\<close>

definition kcomps :: "string \<Rightarrow> string list" where
  "kcomps s =
     filter (\<lambda>e. e \<noteq> []) (split_on CHR ''/'' s) @
     (if s \<noteq> [] \<and> last s = CHR ''/'' then [''.''] else [])"

text \<open>
  The walk is at directory \<open>cur\<close>, reached through the directories \<open>up\<close>. The result is the
  directory the last element is looked up in, that element, and the inode it names if there is
  one.
\<close>

function namei ::
  "fs \<Rightarrow> nat \<Rightarrow> ino \<Rightarrow> ino list \<Rightarrow> string list \<Rightarrow> bool \<Rightarrow> (errno, ino \<times> string \<times> ino option) result"
where
  "namei fs links cur up [] follow = Inr (cur, ''.'', Some cur)"
| "namei fs links cur up (c # cs) follow =
     (if \<not> is_dir fs cur then Inl ENOTDIR
      else if c = ''.'' then namei fs links cur up cs follow
      else if c = ''..'' then
        (case up of
           [] \<Rightarrow> namei fs links cur [] cs follow
         | p # ps \<Rightarrow> namei fs links p ps cs follow)
      else
        (case entry fs cur c of
           None \<Rightarrow> if cs = [] then Inr (cur, c, None) else Inl ENOENT
         | Some i \<Rightarrow>
             (case symlink_target fs i of
                None \<Rightarrow> if cs = [] then Inr (cur, c, Some i) else namei fs links i (cur # up) cs follow
              | Some t \<Rightarrow>
                  if cs = [] \<and> \<not> follow then Inr (cur, c, Some i)
                  else
                    (case links of
                       0 \<Rightarrow> Inl ELOOP
                     | Suc l \<Rightarrow>
                         if t = [] then Inl ENOENT
                         else if hd t = CHR ''/'' then namei fs l root_ino [] (kcomps t @ cs) follow
                         else namei fs l cur up (kcomps t @ cs) follow))))"
  by pat_completeness auto
termination
  by (relation "measures [\<lambda>(fs, links, cur, up, cs, follow). links,
                          \<lambda>(fs, links, cur, up, cs, follow). length cs]") auto

definition resolve ::
  "fs \<Rightarrow> string list \<Rightarrow> bool \<Rightarrow> (errno, ino \<times> string \<times> ino option) result" where
  "resolve fs es follow = namei fs 40 root_ino [] es follow"

definition found :: "(errno, ino \<times> string \<times> ino option) result \<Rightarrow> (errno, ino) result" where
  "found r = (case r of Inl e \<Rightarrow> Inl e | Inr (d, n, None) \<Rightarrow> Inl ENOENT | Inr (d, n, Some i) \<Rightarrow> Inr i)"

text \<open>\<open>lstat\<close> and \<open>stat\<close>: the inode, which carries everything they report.\<close>

definition lstat :: "fs \<Rightarrow> string list \<Rightarrow> (errno, ino) result" where
  "lstat fs es = found (resolve fs es False)"

definition stat :: "fs \<Rightarrow> string list \<Rightarrow> (errno, ino) result" where
  "stat fs es = found (resolve fs es True)"

section \<open>Elementary changes\<close>

definition upd_inode :: "ino \<Rightarrow> (inode \<Rightarrow> inode) \<Rightarrow> fs \<Rightarrow> fs" where
  "upd_inode i f fs = fs\<lparr>f_inodes := (f_inodes fs)(i := map_option f (f_inodes fs i))\<rparr>"

definition map_entries :: "((string \<times> ino) list \<Rightarrow> (string \<times> ino) list) \<Rightarrow> inode \<Rightarrow> inode" where
  "map_entries f n = (case i_node n of Dir es \<Rightarrow> n\<lparr>i_node := Dir (f es)\<rparr> | _ \<Rightarrow> n)"

definition del_entry :: "ino \<Rightarrow> string \<Rightarrow> fs \<Rightarrow> fs" where
  "del_entry d n fs = upd_inode d (map_entries (filter (\<lambda>e. fst e \<noteq> n))) fs"

definition set_entry :: "ino \<Rightarrow> string \<Rightarrow> ino \<Rightarrow> fs \<Rightarrow> fs" where
  "set_entry d n i fs = upd_inode d (map_entries (\<lambda>es. filter (\<lambda>e. fst e \<noteq> n) es @ [(n, i)])) fs"

definition fresh_inode :: "node \<Rightarrow> uint32 \<Rightarrow> inode" where
  "fresh_inode nd m = \<lparr>i_node = nd, i_mode = m, i_uid = 0, i_gid = 0, i_xattr = [], i_mtime = None\<rparr>"

definition create_at :: "ino \<Rightarrow> string \<Rightarrow> node \<Rightarrow> uint32 \<Rightarrow> fs \<Rightarrow> fs" where
  "create_at d n nd m fs =
     set_entry d n (f_next fs)
       (fs\<lparr>f_inodes := (f_inodes fs)(f_next fs \<mapsto> fresh_inode nd m), f_next := Suc (f_next fs)\<rparr>)"

section \<open>System calls\<close>

text \<open>A call that creates a name: it must not exist, and its directory must.\<close>

definition create_new :: "fs \<Rightarrow> string list \<Rightarrow> node \<Rightarrow> uint32 \<Rightarrow> errno option \<times> fs" where
  "create_new fs es nd m =
     (case resolve fs es False of
        Inl e \<Rightarrow> (Some e, fs)
      | Inr (d, n, Some i) \<Rightarrow> (Some EEXIST, fs)
      | Inr (d, n, None) \<Rightarrow> (None, create_at d n nd m fs))"

definition mkdir :: "fs \<Rightarrow> string list \<Rightarrow> uint32 \<Rightarrow> errno option \<times> fs" where
  "mkdir fs es m = create_new fs es (Dir []) (m AND NOT (f_umask fs))"

definition symlink :: "fs \<Rightarrow> string \<Rightarrow> string list \<Rightarrow> errno option \<times> fs" where
  "symlink fs t es = (if t = [] then (Some ENOENT, fs) else create_new fs es (Symlink t) 0x1FF)"

definition mknod :: "fs \<Rightarrow> string list \<Rightarrow> node \<Rightarrow> uint32 \<Rightarrow> errno option \<times> fs" where
  "mknod fs es nd m =
     (if nd \<noteq> Fifo \<and> \<not> f_devices fs then (Some EPERM, fs)
      else create_new fs es nd (m AND NOT (f_umask fs)))"

definition link :: "fs \<Rightarrow> string list \<Rightarrow> string list \<Rightarrow> errno option \<times> fs" where
  "link fs old new =
     (case found (resolve fs old False) of
        Inl e \<Rightarrow> (Some e, fs)
      | Inr i \<Rightarrow>
          (case resolve fs new False of
             Inl e \<Rightarrow> (Some e, fs)
           | Inr (d, n, Some j) \<Rightarrow> (Some EEXIST, fs)
           | Inr (d, n, None) \<Rightarrow>
               if is_dir fs i then (Some EPERM, fs) else (None, set_entry d n i fs)))"

text \<open>
  \<open>open\<close> with \<open>O_CREAT|O_WRONLY|O_TRUNC\<close>: the inode opened, truncated if it is a regular file.
\<close>

definition set_content :: "byte list \<Rightarrow> inode \<Rightarrow> inode" where
  "set_content b n = (case i_node n of Reg _ \<Rightarrow> n\<lparr>i_node := Reg b\<rparr> | _ \<Rightarrow> n)"

definition open_trunc :: "fs \<Rightarrow> string list \<Rightarrow> uint32 \<Rightarrow> (errno, ino) result \<times> fs" where
  "open_trunc fs es m =
     (case resolve fs es True of
        Inl e \<Rightarrow> (Inl e, fs)
      | Inr (d, n, Some i) \<Rightarrow>
          if is_dir fs i then (Inl EISDIR, fs)
          else if is_sock fs i then (Inl ENXIO, fs)
          else (Inr i, upd_inode i (set_content []) fs)
      | Inr (d, n, None) \<Rightarrow>
          (Inr (f_next fs), create_at d n (Reg []) (m AND NOT (f_umask fs)) fs))"

text \<open>
  Binding a Unix socket to a path makes a socket there. The path must fit into a socket address,
  with its terminating zero.
\<close>

definition bind_unix :: "fs \<Rightarrow> string \<Rightarrow> bool \<times> fs" where
  "bind_unix fs path =
     (if 108 \<le> length path then (False, fs)
      else
        (case create_new fs (kcomps path) Sock (0x1FF AND NOT (f_umask fs)) of
           (Some e, fs1) \<Rightarrow> (False, fs1)
         | (None, fs1) \<Rightarrow> (True, fs1)))"

text \<open>
  Changes of attributes; \<open>chmod\<close> follows a final symbolic link, the others do not. On a path that
  cannot be looked up they change nothing. A refusal by the kernel (a read-only file system, missing
  privileges) is not modelled: peel runs as root on its own root file system, and its callers go on
  after logging the error.
\<close>

definition change :: "fs \<Rightarrow> string list \<Rightarrow> bool \<Rightarrow> (inode \<Rightarrow> inode) \<Rightarrow> fs" where
  "change fs es follow f =
     (case found (resolve fs es follow) of Inl e \<Rightarrow> fs | Inr i \<Rightarrow> upd_inode i f fs)"

definition lchown :: "fs \<Rightarrow> string list \<Rightarrow> int \<Rightarrow> int \<Rightarrow> fs" where
  "lchown fs es u g = change fs es False (\<lambda>n. n\<lparr>i_uid := u, i_gid := g\<rparr>)"

definition chmod :: "fs \<Rightarrow> string list \<Rightarrow> uint32 \<Rightarrow> fs" where
  "chmod fs es m = change fs es True (\<lambda>n. n\<lparr>i_mode := m\<rparr>)"

definition lsetxattr :: "fs \<Rightarrow> string list \<Rightarrow> string \<Rightarrow> string \<Rightarrow> fs" where
  "lsetxattr fs es k v =
     change fs es False (\<lambda>n. n\<lparr>i_xattr := filter (\<lambda>e. fst e \<noteq> k) (i_xattr n) @ [(k, v)]\<rparr>)"

definition utimes_nofollow :: "fs \<Rightarrow> string list \<Rightarrow> int \<Rightarrow> fs" where
  "utimes_nofollow fs es t = change fs es False (\<lambda>n. n\<lparr>i_mtime := Some t\<rparr>)"

section \<open>Package os\<close>

text \<open>
  \<open>os.MkdirAll\<close> on the elements of an absolute path, given last first: stat the path, otherwise
  make its parent and then itself.
\<close>

fun mkdir_all_rev :: "fs \<Rightarrow> uint32 \<Rightarrow> string list \<Rightarrow> errno option \<times> fs" where
  "mkdir_all_rev fs m [] =
     (if is_dir fs root_ino then (None, fs) else (Some ENOTDIR, fs))"
| "mkdir_all_rev fs m (r # rs) =
     (case stat fs (rev (r # rs)) of
        Inr i \<Rightarrow> if is_dir fs i then (None, fs) else (Some ENOTDIR, fs)
      | Inl _ \<Rightarrow>
          (case mkdir_all_rev fs m rs of
             (Some e, fs1) \<Rightarrow> (Some e, fs1)
           | (None, fs1) \<Rightarrow>
               (case mkdir fs1 (rev (r # rs)) m of
                  (None, fs2) \<Rightarrow> (None, fs2)
                | (Some e, fs2) \<Rightarrow>
                    (case lstat fs2 (rev (r # rs)) of
                       Inr i \<Rightarrow> if is_dir fs2 i then (None, fs2) else (Some e, fs2)
                     | Inl _ \<Rightarrow> (Some e, fs2)))))"

definition mkdir_all :: "fs \<Rightarrow> string list \<Rightarrow> uint32 \<Rightarrow> errno option \<times> fs" where
  "mkdir_all fs es m = mkdir_all_rev fs m (rev es)"

text \<open>
  \<open>os.RemoveAll\<close>: a missing path is fine; the root directory loses its contents and then cannot
  be removed itself. Nothing else is mounted below the root in this model: where something is,
  removing stops there with an error instead.
\<close>

definition remove_all :: "fs \<Rightarrow> string list \<Rightarrow> errno option \<times> fs" where
  "remove_all fs es =
     (case resolve fs es False of
        Inl e \<Rightarrow> (if e = ENOENT then None else Some e, fs)
      | Inr (d, n, None) \<Rightarrow> (None, fs)
      | Inr (d, n, Some i) \<Rightarrow>
          if i = root_ino then (Some EBUSY, upd_inode root_ino (map_entries (\<lambda>_. [])) fs)
          else (None, del_entry d n fs))"

text \<open>\<open>os.ReadDir\<close>: the names in a directory, sorted.\<close>

definition read_dir :: "fs \<Rightarrow> string list \<Rightarrow> (errno, string list) result" where
  "read_dir fs es =
     (case stat fs es of
        Inl e \<Rightarrow> Inl e
      | Inr i \<Rightarrow>
          (case dir_entries fs i of
             None \<Rightarrow> Inl ENOTDIR
           | Some xs \<Rightarrow> Inr (sort (remdups (map fst xs)))))"

text \<open>\<open>os.ReadFile\<close> and \<open>os.WriteFile\<close>; a socket cannot be opened.\<close>

definition read_file :: "fs \<Rightarrow> string list \<Rightarrow> (errno, byte list) result" where
  "read_file fs es =
     (case stat fs es of
        Inl e \<Rightarrow> Inl e
      | Inr i \<Rightarrow>
          (case map_option i_node (f_inodes fs i) of
             Some (Reg b) \<Rightarrow> Inr b
           | Some (Dir _) \<Rightarrow> Inl EISDIR
           | Some Sock \<Rightarrow> Inl ENXIO
           | _ \<Rightarrow> Inr []))"

definition write_file :: "fs \<Rightarrow> string list \<Rightarrow> byte list \<Rightarrow> uint32 \<Rightarrow> errno option \<times> fs" where
  "write_file fs es b m =
     (case open_trunc fs es m of
        (Inl e, fs1) \<Rightarrow> (Some e, fs1)
      | (Inr i, fs1) \<Rightarrow> (None, upd_inode i (set_content b) fs1))"

text \<open>\<open>os.Remove\<close>: a file, or an empty directory.\<close>

definition remove_path :: "fs \<Rightarrow> string list \<Rightarrow> errno option \<times> fs" where
  "remove_path fs es =
     (case resolve fs es False of
        Inl e \<Rightarrow> (Some e, fs)
      | Inr (d, n, None) \<Rightarrow> (Some ENOENT, fs)
      | Inr (d, n, Some i) \<Rightarrow>
          if i = root_ino then (Some EBUSY, fs)
          else if is_dir fs i \<and> dir_entries fs i \<noteq> Some [] then (Some ENOTEMPTY, fs)
          else (None, del_entry d n fs))"

text \<open>
  \<open>os.Rename\<close> of something that is not a directory: it refuses to replace a directory, and does
  nothing when both names refer to the same inode.
\<close>

definition rename_file :: "fs \<Rightarrow> string list \<Rightarrow> string list \<Rightarrow> errno option \<times> fs" where
  "rename_file fs old new =
     (case resolve fs old False of
        Inl e \<Rightarrow> (Some e, fs)
      | Inr (d, n, None) \<Rightarrow> (Some ENOENT, fs)
      | Inr (d, n, Some i) \<Rightarrow>
          (case resolve fs new False of
             Inl e \<Rightarrow> (Some e, fs)
           | Inr (d', n', x) \<Rightarrow>
               if (case x of None \<Rightarrow> False | Some j \<Rightarrow> is_dir fs j) then (Some EEXIST, fs)
               else if x = Some i then (None, fs)
               else (None, set_entry d' n' i (del_entry d n fs))))"

text \<open>Text in files.\<close>

definition bytes_of :: "string \<Rightarrow> byte list" where
  "bytes_of s = map (\<lambda>c. word_of_nat (of_char c)) s"

definition text_of :: "byte list \<Rightarrow> string" where
  "text_of b = map (\<lambda>x. char_of (unat x)) b"

lemma text_of_bytes [simp]: "text_of (bytes_of s) = s"
proof -
  have "unat (word_of_nat (of_char c) :: byte) = of_char c" for c
    using nat_of_char_less_256 [of c] by (simp add: unat_of_nat_small)
  then show ?thesis by (simp add: text_of_def bytes_of_def comp_def)
qed

section \<open>Elements of cleaned paths\<close>

text \<open>An element of a cleaned absolute path.\<close>

definition proper :: "string \<Rightarrow> bool" where
  "proper e \<longleftrightarrow> e \<noteq> [] \<and> e \<noteq> ''.'' \<and> e \<noteq> ''..'' \<and> CHR ''/'' \<notin> set e"

lemma clean_elems_rooted:
  "list_all proper acc \<Longrightarrow> \<forall>e \<in> set es. CHR ''/'' \<notin> set e \<Longrightarrow>
   list_all proper (clean_elems True acc es)"
  by (induction True acc es rule: clean_elems.induct) (auto simp: proper_def split: list.splits)

lemma clean_elems_proper: "list_all proper es \<Longrightarrow> clean_elems r acc es = rev acc @ es"
  by (induction es arbitrary: acc) (auto simp: proper_def)

lemma clean_elems_empty [simp]: "clean_elems r acc ([] # es) = clean_elems r acc es"
  by simp

lemma clean_elems_trailing [simp]: "clean_elems r acc (es @ [[]]) = clean_elems r acc es"
  by (induction r acc es rule: clean_elems.induct) (auto split: list.splits)

lemma join_not_Nil: "list_all proper es \<Longrightarrow> es \<noteq> [] \<Longrightarrow> join_with ''/'' es \<noteq> []"
  by (induction es rule: induct_list012) (auto simp: proper_def)

lemma join_hd: "list_all proper es \<Longrightarrow> es \<noteq> [] \<Longrightarrow> hd (join_with ''/'' es) \<noteq> CHR ''/''"
  by (induction es rule: induct_list012) (auto simp: proper_def hd_append neq_Nil_conv)

lemma join_last: "list_all proper es \<Longrightarrow> es \<noteq> [] \<Longrightarrow> last (join_with ''/'' es) \<noteq> CHR ''/''"
  by (induction es rule: induct_list012)
    (auto simp: proper_def last_append join_not_Nil dest: last_in_set)

lemma split_join: "list_all proper es \<Longrightarrow> es \<noteq> [] \<Longrightarrow> split_on CHR ''/'' (join_with ''/'' es) = es"
  by (rule split_on_join) (auto simp: list_all_iff proper_def)

lemma kcomps_join: "list_all proper es \<Longrightarrow> kcomps (CHR ''/'' # join_with ''/'' es) = es @ (if es = [] then [''.''] else [])"
  by (cases "es = []")
    (auto simp: kcomps_def split_join join_last join_not_Nil list_all_iff proper_def intro!: filter_True)

lemma path_clean_join: "list_all proper es \<Longrightarrow> path_clean (CHR ''/'' # join_with ''/'' es) = CHR ''/'' # join_with ''/'' es"
  by (cases "es = []")
    (auto simp: path_clean_def has_prefix_def split_join clean_elems_proper Let_def)

text \<open>Joining the root directory and a relative path.\<close>

lemma path_join_root:
  assumes "list_all proper es"
  shows "path_join [''/'', join_with ''/'' es] = CHR ''/'' # join_with ''/'' es"
proof (cases "es = []")
  case True
  then show ?thesis by (simp add: path_join_def path_clean_def has_prefix_def Let_def)
next
  case False
  with assms show ?thesis
    by (simp add: path_join_def path_clean_def has_prefix_def split_join clean_elems_proper Let_def)
qed

text \<open>A relative path obtained from any name by cleaning it at the root.\<close>

definition root_elems :: "string \<Rightarrow> string list" where
  "root_elems s = clean_elems True [] (split_on CHR ''/'' s)"

lemma root_elems_proper: "list_all proper (root_elems s)"
  unfolding root_elems_def by (rule clean_elems_rooted) (auto dest: split_on_no_sep)

lemma trim_clean_root:
  "trim_prefix (path_clean (''/'' @ s)) ''/'' = join_with ''/'' (root_elems s)"
  by (simp add: trim_prefix_def path_clean_def has_prefix_def root_elems_def Let_def)

lemma join_snoc: "es \<noteq> [] \<Longrightarrow> join_with ''/'' (es @ [x]) = join_with ''/'' es @ CHR ''/'' # x"
  by (induction es rule: induct_list012) auto

lemma upto_after_slash:
  assumes "CHR ''/'' \<notin> set b"
  shows "upto_slash (a @ CHR ''/'' # b) = a @ ''/''" and "after_slash (a @ CHR ''/'' # b) = b"
    and "upto_slash b = []" and "after_slash b = b"
proof -
  from assms have b: "\<forall>x \<in> set (rev b). x \<noteq> CHR ''/''" by auto
  then have tw: "takeWhile (\<lambda>c. c \<noteq> CHR ''/'') (rev b) = rev b"
    and dw: "dropWhile (\<lambda>c. c \<noteq> CHR ''/'') (rev b) = []"
    by (simp_all only: takeWhile_eq_all_conv dropWhile_eq_Nil_conv)
  have "takeWhile (\<lambda>c. c \<noteq> CHR ''/'') (rev b @ CHR ''/'' # rev a) = rev b"
    by (rule takeWhile_append_stop) (use b in blast)+
  moreover have "dropWhile (\<lambda>c. c \<noteq> CHR ''/'') (rev b @ CHR ''/'' # rev a) = CHR ''/'' # rev a"
    by (rule dropWhile_append_stop) (use b in blast)+
  ultimately show "upto_slash (a @ CHR ''/'' # b) = a @ ''/''" "after_slash (a @ CHR ''/'' # b) = b"
    by (simp_all add: upto_slash_def after_slash_def)
  show "upto_slash b = []" "after_slash b = b"
    by (simp_all only: upto_slash_def after_slash_def tw dw rev_rev_ident rev.simps)
qed

lemma rev_dropWhile_last: "s = [] \<or> last s \<noteq> c \<Longrightarrow> rev (dropWhile (\<lambda>x. x = c) (rev s)) = s"
  by (cases s rule: rev_cases) auto

lemma path_base_join:
  assumes "list_all proper es" "es \<noteq> []"
  shows "path_base (join_with ''/'' es) = last es"
proof -
  obtain us x where us: "es = us @ [x]" using assms(2) by (cases es rule: rev_cases) auto
  with assms have "proper x" by simp
  then have x: "CHR ''/'' \<notin> set x" "x \<noteq> []" by (auto simp: proper_def)
  have "after_slash (join_with ''/'' es) = x"
    using us x(1) by (cases "us = []") (simp_all add: join_snoc upto_after_slash)
  with x us show ?thesis
    using assms join_last [of es] join_not_Nil [of es]
    by (simp add: path_base_def rev_dropWhile_last Let_def)
qed

lemma split_join_slash:
  "list_all proper us \<Longrightarrow> us \<noteq> [] \<Longrightarrow> split_on CHR ''/'' (join_with ''/'' us @ ''/'') = us @ [[]]"
  using split_on_join [of "us @ [[]]" "CHR ''/''"]
  by (simp add: join_snoc list_all_iff proper_def)

lemma path_dir_root_join:
  assumes "list_all proper es" "es \<noteq> []"
  shows "path_dir (CHR ''/'' # join_with ''/'' es) = CHR ''/'' # join_with ''/'' (butlast es)"
proof -
  obtain us x where us: "es = us @ [x]" using assms(2) by (cases es rule: rev_cases) auto
  with assms have x: "CHR ''/'' \<notin> set x" and us': "list_all proper us" by (auto simp: proper_def)
  show ?thesis
  proof (cases "us = []")
    case True
    then show ?thesis
      using us x upto_after_slash(1) [of x "[]"] by (simp add: path_dir_def path_clean_def has_prefix_def)
  next
    case False
    then have "upto_slash (CHR ''/'' # join_with ''/'' es) = CHR ''/'' # join_with ''/'' us @ ''/''"
      using us x upto_after_slash(1) [of x "CHR ''/'' # join_with ''/'' us"] by (simp add: join_snoc)
    moreover note split_join_slash [OF us' False]
    ultimately show ?thesis
      using us us' by (simp add: path_dir_def path_clean_def has_prefix_def clean_elems_proper Let_def)
  qed
qed

lemma path_dir_join:
  assumes "list_all proper es" "es \<noteq> []"
  shows "path_dir (join_with ''/'' es) =
    (if butlast es = [] then ''.'' else join_with ''/'' (butlast es))"
proof -
  obtain us x where us: "es = us @ [x]" using assms(2) by (cases es rule: rev_cases) auto
  with assms have x: "CHR ''/'' \<notin> set x" and us': "list_all proper us" by (auto simp: proper_def)
  show ?thesis
  proof (cases "us = []")
    case True
    then show ?thesis
      using us x by (simp add: path_dir_def path_clean_def has_prefix_def upto_after_slash)
  next
    case False
    then have "upto_slash (join_with ''/'' es) = join_with ''/'' us @ ''/''"
      using us x by (simp add: join_snoc upto_after_slash)
    moreover have "hd (join_with ''/'' us @ ''/'') \<noteq> CHR ''/''"
      using join_hd [OF us' False] join_not_Nil [OF us' False] by simp
    then have "\<not> has_prefix (join_with ''/'' us @ ''/'') ''/''"
      by (cases "join_with ''/'' us @ ''/''") (auto simp: has_prefix_def)
    ultimately show ?thesis
      using us us' False split_join_slash [OF us' False]
      by (simp add: path_dir_def path_clean_def clean_elems_proper Let_def)
  qed
qed

lemma path_join_snoc:
  assumes "list_all proper es" "proper n"
  shows "path_join [join_with ''/'' es, n] = join_with ''/'' (es @ [n])"
    and "path_join [CHR ''/'' # join_with ''/'' es, n] = CHR ''/'' # join_with ''/'' (es @ [n])"
proof -
  have esn: "list_all proper (es @ [n])" using assms by simp
  have n: "n \<noteq> []" using assms by (simp add: proper_def)
  have clean: "path_clean (join_with ''/'' (es @ [n])) = join_with ''/'' (es @ [n])"
  proof -
    have "\<not> has_prefix (join_with ''/'' (es @ [n])) ''/''"
      using join_hd [OF esn] join_not_Nil [OF esn]
      by (cases "join_with ''/'' (es @ [n])") (auto simp: has_prefix_def)
    then show ?thesis
      using esn split_join [OF esn] by (simp add: path_clean_def clean_elems_proper Let_def)
  qed
  show "path_join [join_with ''/'' es, n] = join_with ''/'' (es @ [n])"
    using assms n clean join_not_Nil [of es]
    by (cases "es = []") (simp_all add: path_join_def join_snoc)
  show "path_join [CHR ''/'' # join_with ''/'' es, n] = CHR ''/'' # join_with ''/'' (es @ [n])"
  proof (cases "es = []")
    case True
    then show ?thesis
      using n assms(2) path_join_root [of "[n]"] by simp
  next
    case False
    then have "CHR ''/'' # join_with ''/'' es @ CHR ''/'' # n = CHR ''/'' # join_with ''/'' (es @ [n])"
      by (simp add: join_snoc)
    then show ?thesis
      using path_clean_join [OF esn] by (simp add: path_join_def)
  qed
qed

end
