(* ===== verification/FileTree.thy ===== *)
theory FileTree
  imports FileSys
begin

text \<open>
  The directory tree behind the inode table: walking names without following symbolic links
  (\<open>phys\<close>), file systems whose directories form a tree (\<open>wf_fs\<close>), paths no strict prefix of
  which is a symbolic link (\<open>plain\<close>), and how the elementary changes act on all three. On a plain
  path the kernel's lookup and the tree walk agree.
\<close>

section \<open>The walk\<close>

fun phys :: "fs \<Rightarrow> ino \<Rightarrow> string list \<Rightarrow> ino option" where
  "phys fs i [] = Some i"
| "phys fs i (c # cs) = (case entry fs i c of None \<Rightarrow> None | Some j \<Rightarrow> phys fs j cs)"

definition plain :: "fs \<Rightarrow> string list \<Rightarrow> bool" where
  "plain fs es \<longleftrightarrow>
     list_all (\<lambda>k. case phys fs root_ino (take k es) of
                     None \<Rightarrow> True | Some j \<Rightarrow> symlink_target fs j = None) [0 ..< length es]"

definition wf_fs :: "fs \<Rightarrow> bool" where
  "wf_fs fs \<longleftrightarrow>
     is_dir fs root_ino \<and>
     (\<forall>d n j. entry fs d n = Some j \<longrightarrow> proper n \<and> j \<noteq> root_ino \<and> j \<in> dom (f_inodes fs)) \<and>
     (\<forall>i \<in> dom (f_inodes fs). i < f_next fs) \<and>
     (\<forall>d n d' n' j. entry fs d n = Some j \<and> entry fs d' n' = Some j \<and> is_dir fs j \<longrightarrow>
        d = d' \<and> n = n')"

lemma phys_append:
  "phys fs i (p @ q) = (case phys fs i p of None \<Rightarrow> None | Some j \<Rightarrow> phys fs j q)"
  by (induction p arbitrary: i) (auto split: option.splits)

lemma phys_snoc:
  "phys fs i (p @ [x]) = (case phys fs i p of None \<Rightarrow> None | Some j \<Rightarrow> entry fs j x)"
  by (simp add: phys_append split: option.splits)

lemma entry_is_dir: "entry fs d n = Some j \<Longrightarrow> is_dir fs d"
  by (auto simp: entry_def is_dir_def split: option.splits)

lemma is_dir_not_symlink: "is_dir fs i \<Longrightarrow> symlink_target fs i = None"
  by (auto simp: is_dir_def dir_entries_def symlink_target_def split: option.splits node.splits)

lemma is_dir_dom: "is_dir fs i \<Longrightarrow> i \<in> dom (f_inodes fs)"
  by (auto simp: is_dir_def dir_entries_def split: option.splits)

lemma wf_fs_entry:
  assumes "wf_fs fs" "entry fs d n = Some j"
  shows "j \<noteq> root_ino" "j \<in> dom (f_inodes fs)" "j < f_next fs" "d < f_next fs" "proper n"
  using assms entry_is_dir [OF assms(2)] is_dir_dom by (auto simp: wf_fs_def)

lemma phys_dom:
  assumes "wf_fs fs" "phys fs root_ino p = Some i"
  shows "i \<in> dom (f_inodes fs)"
proof (cases p rule: rev_cases)
  case Nil
  with assms show ?thesis by (auto simp: wf_fs_def dest: is_dir_dom)
next
  case (snoc q x)
  with assms show ?thesis by (auto simp: phys_snoc split: option.splits dest: wf_fs_entry)
qed

text \<open>A directory is reached by one path only.\<close>

lemma phys_dir_inj:
  assumes "wf_fs fs"
  shows "phys fs root_ino p = Some i \<Longrightarrow> phys fs root_ino q = Some i \<Longrightarrow> is_dir fs i \<Longrightarrow> p = q"
proof (induction p arbitrary: i q rule: rev_induct)
  case Nil
  then have "i = root_ino" by simp
  with Nil assms show ?case
    by (cases q rule: rev_cases) (auto simp: phys_snoc split: option.splits dest: wf_fs_entry)
next
  case (snoc x p)
  from snoc.prems(1) obtain d where d: "phys fs root_ino p = Some d" "entry fs d x = Some i"
    by (auto simp: phys_snoc split: option.splits)
  show ?case
  proof (cases q rule: rev_cases)
    case Nil
    with snoc.prems(2) d(2) assms show ?thesis by (auto dest: wf_fs_entry)
  next
    case (snoc q' y)
    with snoc.prems(2) obtain d' where d': "phys fs root_ino q' = Some d'" "entry fs d' y = Some i"
      by (auto simp: phys_snoc split: option.splits)
    with d assms snoc.prems(3) have "d = d'" "x = y" unfolding wf_fs_def by blast+
    with d d' snoc.IH [of d q'] entry_is_dir [OF d(2)] snoc show ?thesis by simp
  qed
qed

section \<open>Lookup on plain paths\<close>

lemma plainD:
  assumes "plain fs es" "es = p @ q" "q \<noteq> []" "phys fs root_ino p = Some j"
  shows "symlink_target fs j = None"
proof -
  from assms(2,3) have "length p < length es" "take (length p) es = p" by auto
  with assms(1,4) show ?thesis
    by (auto simp: plain_def list_all_iff dest!: bspec [of _ _ "length p"])
qed

lemma plainI:
  assumes "\<And>p q j. es = p @ q \<Longrightarrow> q \<noteq> [] \<Longrightarrow> phys fs root_ino p = Some j \<Longrightarrow> symlink_target fs j = None"
  shows "plain fs es"
  unfolding plain_def list_all_iff
proof
  fix k assume "k \<in> set [0 ..< length es]"
  then have "es = take k es @ drop k es" "drop k es \<noteq> []" by auto
  then show "case phys fs root_ino (take k es) of None \<Rightarrow> True | Some j \<Rightarrow> symlink_target fs j = None"
    using assms [of "take k es" "drop k es"] by (auto split: option.splits)
qed

lemma plain_prefix: "plain fs (p @ q) \<Longrightarrow> plain fs p"
  by (rule plainI) (auto intro: plainD [of fs "p @ q"])

lemma plain_snoc_change: "plain fs (p @ [x]) \<Longrightarrow> plain fs (p @ [y])"
proof (rule plainI)
  fix r q j
  assume *: "plain fs (p @ [x])" "p @ [y] = r @ q" "q \<noteq> []" "phys fs root_ino r = Some j"
  then have "p @ [x] = r @ (butlast q @ [x])"
    by (metis append_assoc append_butlast_last_id append_is_Nil_conv butlast_append butlast_snoc last_snoc)
  with * show "symlink_target fs j = None" by (metis plainD append_is_Nil_conv list.simps(3))
qed

text \<open>
  From a directory reached by the path \<open>pre\<close>, a successful lookup of the remaining elements ends
  in the directory and name the tree walk gives.
\<close>

lemma namei_plain:
  assumes "plain fs (pre @ es)" "phys fs root_ino pre = Some cur" "list_all proper es" "es \<noteq> []"
    and "namei fs links cur up es False = Inr (d, n, x)"
  shows "phys fs root_ino (pre @ butlast es) = Some d \<and> n = last es \<and> x = entry fs d n \<and> is_dir fs d"
  using assms
proof (induction es arbitrary: pre cur up)
  case (Cons c cs)
  then have c: "c \<noteq> ''.''" "c \<noteq> ''..''" by (auto simp: proper_def)
  from Cons.prems(5) c have dir: "is_dir fs cur" by (auto split: if_splits)
  show ?case
  proof (cases "cs = []")
    case True
    with Cons.prems c dir show ?thesis by (auto split: option.splits)
  next
    case False
    with Cons.prems(5) c dir obtain i where i: "entry fs cur c = Some i"
      by (auto split: option.splits)
    have phys: "phys fs root_ino (pre @ [c]) = Some i"
      using Cons.prems(2) i by (simp add: phys_snoc)
    moreover have "symlink_target fs i = None"
      using plainD [OF Cons.prems(1), of "pre @ [c]" cs i] False phys by simp
    ultimately have "namei fs links i (cur # up) cs False = Inr (d, n, x)"
      using Cons.prems(5) False c dir i by simp
    with Cons.IH [of "pre @ [c]" i "cur # up"] Cons.prems False phys show ?thesis by simp
  qed
qed simp

lemma resolve_plain:
  assumes "plain fs es" "list_all proper es" "es \<noteq> []" "resolve fs es False = Inr (d, n, x)"
  shows "phys fs root_ino (butlast es) = Some d" "n = last es" "x = entry fs d n" "is_dir fs d"
  using namei_plain [of fs "[]" es root_ino 40 "[]" d n x] assms by (auto simp: resolve_def)

text \<open>The other way: the tree walk determines the lookup.\<close>

lemma namei_phys:
  assumes "plain fs (pre @ es)" "phys fs root_ino pre = Some cur" "list_all proper es" "es \<noteq> []"
    and "phys fs root_ino (pre @ butlast es) = Some d" "is_dir fs d"
    and "follow \<longrightarrow> (\<forall>i. entry fs d (last es) = Some i \<longrightarrow> symlink_target fs i = None)"
  shows "namei fs links cur up es follow = Inr (d, last es, entry fs d (last es))"
  using assms
proof (induction es arbitrary: pre cur up)
  case (Cons c cs)
  then have c: "c \<noteq> ''.''" "c \<noteq> ''..''" by (auto simp: proper_def)
  show ?case
  proof (cases "cs = []")
    case True
    with Cons.prems c show ?thesis by (auto split: option.splits)
  next
    case False
    with Cons.prems(2,5) obtain i where i: "entry fs cur c = Some i"
      by (auto simp: phys_append split: option.splits)
    have phys: "phys fs root_ino (pre @ [c]) = Some i"
      using Cons.prems(2) i by (simp add: phys_snoc)
    moreover have "symlink_target fs i = None"
      using plainD [OF Cons.prems(1), of "pre @ [c]" cs i] False phys by simp
    moreover have "namei fs links i (cur # up) cs follow = Inr (d, last cs, entry fs d (last cs))"
      using Cons.IH [of "pre @ [c]" i "cur # up"] Cons.prems False phys by simp
    ultimately show ?thesis
      using False c entry_is_dir [OF i] i by simp
  qed
qed simp

lemma resolve_phys:
  assumes "plain fs es" "list_all proper es" "es \<noteq> []"
    and "phys fs root_ino (butlast es) = Some d" "is_dir fs d"
    and "follow \<longrightarrow> (\<forall>i. entry fs d (last es) = Some i \<longrightarrow> symlink_target fs i = None)"
  shows "resolve fs es follow = Inr (d, last es, entry fs d (last es))"
  unfolding resolve_def using assms by (intro namei_phys [of fs "[]"]) auto

section \<open>Elementary changes seen through the tree\<close>

lemma f_next_simps [simp]:
  "f_next (upd_inode i f fs) = f_next fs"
  "f_next (del_entry d n fs) = f_next fs"
  "f_next (set_entry d n i fs) = f_next fs"
  "f_next (create_at d n nd m fs) = Suc (f_next fs)"
  by (simp_all add: upd_inode_def del_entry_def set_entry_def create_at_def)

lemma dom_simps [simp]:
  "dom (f_inodes (upd_inode i f fs)) = dom (f_inodes fs)"
  "dom (f_inodes (del_entry d n fs)) = dom (f_inodes fs)"
  "dom (f_inodes (set_entry d n i fs)) = dom (f_inodes fs)"
  "dom (f_inodes (create_at d n nd m fs)) = insert (f_next fs) (dom (f_inodes fs))"
  by (auto simp: upd_inode_def del_entry_def set_entry_def create_at_def)

lemma f_inodes_other [simp]:
  "j \<noteq> i \<Longrightarrow> f_inodes (upd_inode i f fs) j = f_inodes fs j"
  "j \<noteq> d \<Longrightarrow> f_inodes (del_entry d n fs) j = f_inodes fs j"
  "j \<noteq> d \<Longrightarrow> f_inodes (set_entry d n i fs) j = f_inodes fs j"
  "j \<noteq> d \<Longrightarrow> j \<noteq> f_next fs \<Longrightarrow> f_inodes (create_at d n nd m fs) j = f_inodes fs j"
  by (simp_all add: upd_inode_def del_entry_def set_entry_def create_at_def)

lemma map_of_filter_fst: "map_of (filter (\<lambda>e. fst e \<noteq> n) es) n' = (if n' = n then None else map_of es n')"
  by (induction es) auto

lemma dir_entries_del:
  "dir_entries (del_entry d n fs) d' =
     (if d' = d then map_option (filter (\<lambda>e. fst e \<noteq> n)) (dir_entries fs d) else dir_entries fs d')"
  by (auto simp: dir_entries_def del_entry_def upd_inode_def map_entries_def
      split: option.splits node.splits)

lemma dir_entries_set:
  "dir_entries (set_entry d n i fs) d' =
     (if d' = d then map_option (\<lambda>es. filter (\<lambda>e. fst e \<noteq> n) es @ [(n, i)]) (dir_entries fs d)
      else dir_entries fs d')"
  by (auto simp: dir_entries_def set_entry_def upd_inode_def map_entries_def
      split: option.splits node.splits)

lemma is_dir_simps [simp]:
  "is_dir (del_entry d n fs) i = is_dir fs i"
  "is_dir (set_entry d n j fs) i = is_dir fs i"
  by (auto simp: is_dir_def dir_entries_del dir_entries_set)

lemma entry_del [simp]:
  "entry (del_entry d n fs) d' n' = (if d' = d \<and> n' = n then None else entry fs d' n')"
  by (auto simp: entry_def dir_entries_del map_of_filter_fst split: option.splits)

lemma entry_set [simp]:
  "is_dir fs d \<Longrightarrow> entry (set_entry d n i fs) d' n' = (if d' = d \<and> n' = n then Some i else entry fs d' n')"
  by (auto simp: entry_def is_dir_def dir_entries_set map_add_def map_of_filter_fst split: option.splits)

lemma symlink_target_simps [simp]:
  "symlink_target (del_entry d n fs) i = symlink_target fs i"
  "symlink_target (set_entry d n j fs) i = symlink_target fs i"
  by (auto simp: symlink_target_def del_entry_def set_entry_def upd_inode_def map_entries_def
      split: option.splits node.splits)

text \<open>A new inode, before it has a name.\<close>

abbreviation with_fresh :: "node \<Rightarrow> uint32 \<Rightarrow> fs \<Rightarrow> fs" where
  "with_fresh nd m fs \<equiv>
     fs\<lparr>f_inodes := (f_inodes fs)(f_next fs \<mapsto> fresh_inode nd m), f_next := Suc (f_next fs)\<rparr>"

lemma with_fresh_simps:
  "is_dir (with_fresh nd m fs) i = (if i = f_next fs then (\<exists>es. nd = Dir es) else is_dir fs i)"
  "symlink_target (with_fresh nd m fs) i =
     (if i = f_next fs then (case nd of Symlink t \<Rightarrow> Some t | _ \<Rightarrow> None) else symlink_target fs i)"
  "entry (with_fresh nd m fs) i x =
     (if i = f_next fs then (case nd of Dir es \<Rightarrow> map_of es x | _ \<Rightarrow> None) else entry fs i x)"
  by (auto simp: is_dir_def dir_entries_def symlink_target_def entry_def fresh_inode_def
      split: node.splits)

lemma create_at_simps:
  assumes "is_dir fs d" "d \<noteq> f_next fs"
  shows "is_dir (create_at d n nd m fs) i = (if i = f_next fs then (\<exists>es. nd = Dir es) else is_dir fs i)"
    and "symlink_target (create_at d n nd m fs) i =
      (if i = f_next fs then (case nd of Symlink t \<Rightarrow> Some t | _ \<Rightarrow> None) else symlink_target fs i)"
    and "entry (create_at d n nd m fs) d' n' =
      (if d' = d \<and> n' = n then Some (f_next fs)
       else if d' = f_next fs then (case nd of Dir es \<Rightarrow> map_of es n' | _ \<Rightarrow> None)
       else entry fs d' n')"
  using assms by (auto simp: create_at_def with_fresh_simps)

text \<open>Changes of an inode that leave its kind and a directory's entries alone.\<close>

definition same_shape :: "inode \<Rightarrow> inode \<Rightarrow> bool" where
  "same_shape x y \<longleftrightarrow> i_node y = i_node x \<or> (\<exists>b b'. i_node x = Reg b \<and> i_node y = Reg b')"

lemma upd_inode_shape:
  assumes "\<And>x. same_shape x (f x)"
  shows "dir_entries (upd_inode i f fs) j = dir_entries fs j"
    and "symlink_target (upd_inode i f fs) j = symlink_target fs j"
    and "is_dir (upd_inode i f fs) j = is_dir fs j"
    and "entry (upd_inode i f fs) j n = entry fs j n"
    and "phys (upd_inode i f fs) j p = phys fs j p"
    and "plain (upd_inode i f fs) es = plain fs es"
proof -
  have sh: "i_node (f x) = i_node x \<or> (\<exists>b b'. i_node x = Reg b \<and> i_node (f x) = Reg b')" for x
    using assms [of x] by (simp add: same_shape_def)
  show de: "dir_entries (upd_inode i f fs) j = dir_entries fs j" for j
    using sh [of "the (f_inodes fs i)"]
    by (auto simp: dir_entries_def upd_inode_def split: option.splits node.splits)
  show st: "symlink_target (upd_inode i f fs) j = symlink_target fs j" for j
    using sh [of "the (f_inodes fs i)"]
    by (auto simp: symlink_target_def upd_inode_def split: option.splits node.splits)
  show "is_dir (upd_inode i f fs) j = is_dir fs j" by (simp add: is_dir_def de)
  show en: "entry (upd_inode i f fs) j n = entry fs j n" for j n by (simp add: entry_def de)
  have ph: "phys (upd_inode i f fs) k p = phys fs k p" for k p
    by (induction p arbitrary: k) (auto simp: en split: option.splits)
  then show "phys (upd_inode i f fs) j p = phys fs j p" .
  show "plain (upd_inode i f fs) es = plain fs es"
    by (simp add: plain_def ph st cong: option.case_cong)
qed

lemma same_shape_set_content [simp]: "same_shape x (set_content b x)"
  by (auto simp: same_shape_def set_content_def split: node.splits)

text \<open>A change of one entry of a directory does not move that directory.\<close>

lemma phys_unaffected:
  assumes "\<And>d' n'. d' \<noteq> d \<Longrightarrow> entry fs' d' n' = entry fs d' n' \<or> d' = k"
    and "\<And>q r. p = q @ r \<Longrightarrow> r \<noteq> [] \<Longrightarrow> phys fs i q \<noteq> Some d \<and> phys fs i q \<noteq> Some k"
  shows "phys fs' i p = phys fs i p"
  using assms(2)
proof (induction p arbitrary: i)
  case (Cons c cs)
  from Cons.prems [of "[]" "c # cs"] have "i \<noteq> d" "i \<noteq> k" by auto
  with assms(1) have e: "entry fs' i c = entry fs i c" by blast
  show ?case
  proof (cases "entry fs i c")
    case None
    with e show ?thesis by simp
  next
    case (Some j)
    have "phys fs j q \<noteq> Some d \<and> phys fs j q \<noteq> Some k" if "cs = q @ r" "r \<noteq> []" for q r
      using Cons.prems [of "c # q" r] that Some by simp
    with Cons.IH [of j] Some e show ?thesis by simp
  qed
qed simp

text \<open>Well-formedness is kept.\<close>

lemma wf_fs_del: "wf_fs fs \<Longrightarrow> wf_fs (del_entry d n fs)"
  unfolding wf_fs_def by (auto split: if_splits)

lemma wf_fs_link:
  assumes "wf_fs fs" "is_dir fs d" "proper n" "i \<in> dom (f_inodes fs)" "\<not> is_dir fs i" "i \<noteq> root_ino"
  shows "wf_fs (set_entry d n i fs)"
  using assms unfolding wf_fs_def by (auto split: if_splits)

lemma wf_fs_create:
  assumes "wf_fs fs" "is_dir fs d" "\<forall>es. nd = Dir es \<longrightarrow> es = []" "proper n"
  shows "wf_fs (create_at d n nd m fs)"
proof -
  have d: "d \<noteq> f_next fs" "root_ino \<noteq> f_next fs"
    using assms is_dir_dom [of fs d] is_dir_dom [of fs root_ino] by (auto simp: wf_fs_def)
  have new: "entry fs d' n' \<noteq> Some (f_next fs)" for d' n'
    using wf_fs_entry [OF assms(1), of d' n' "f_next fs"] by auto
  have e: "entry (create_at d n nd m fs) d' n' =
      (if d' = d \<and> n' = n then Some (f_next fs) else if d' = f_next fs then None else entry fs d' n')" for d' n'
    using assms(3) create_at_simps(3) [OF assms(2) d(1)] by (cases nd) simp_all
  show ?thesis
    unfolding wf_fs_def
  proof (intro conjI)
    show "is_dir (create_at d n nd m fs) root_ino"
      using assms d by (simp add: create_at_simps wf_fs_def)
    show "\<forall>d' n' j. entry (create_at d n nd m fs) d' n' = Some j \<longrightarrow>
        proper n' \<and> j \<noteq> root_ino \<and> j \<in> dom (f_inodes (create_at d n nd m fs))"
      using d assms(4) wf_fs_entry [OF assms(1)] by (auto simp: e split: if_splits)
    show "\<forall>i \<in> dom (f_inodes (create_at d n nd m fs)). i < f_next (create_at d n nd m fs)"
      using assms(1) unfolding wf_fs_def dom_simps f_next_simps
      by (auto intro: less_SucI)
    show "\<forall>d1 n1 d2 n2 j. entry (create_at d n nd m fs) d1 n1 = Some j \<and>
        entry (create_at d n nd m fs) d2 n2 = Some j \<and> is_dir (create_at d n nd m fs) j \<longrightarrow>
        d1 = d2 \<and> n1 = n2"
      using assms d new unfolding e wf_fs_def by (simp add: create_at_simps split: if_splits) metis
  qed
qed

lemma wf_fs_attr: "(\<And>x. same_shape x (f x)) \<Longrightarrow> wf_fs fs \<Longrightarrow> wf_fs (upd_inode i f fs)"
  unfolding wf_fs_def by (simp add: upd_inode_shape)

lemma create_at_inode:
  assumes "d \<noteq> f_next fs"
  shows "f_inodes (create_at d n nd m fs) (f_next fs) = Some (fresh_inode nd m)"
  using assms by (simp add: create_at_def set_entry_def upd_inode_def)

section \<open>A path and the directory that holds its last element\<close>

definition located :: "fs \<Rightarrow> string list \<Rightarrow> ino \<Rightarrow> bool" where
  "located fs es d \<longleftrightarrow>
     plain fs es \<and> list_all proper es \<and> es \<noteq> [] \<and> phys fs root_ino (butlast es) = Some d \<and> is_dir fs d"

lemma located_resolve:
  assumes "located fs es d"
    and "follow \<longrightarrow> (\<forall>i. entry fs d (last es) = Some i \<longrightarrow> symlink_target fs i = None)"
  shows "resolve fs es follow = Inr (d, last es, entry fs d (last es))"
  using assms unfolding located_def by (intro resolve_phys) auto

text \<open>Changing entries of that directory, or adding a new inode, keeps the path where it is.\<close>

lemma located_change:
  assumes wf: "wf_fs fs" and loc: "located fs es d"
    and e: "\<And>d' n'. d' \<noteq> d \<Longrightarrow> entry fs' d' n' = entry fs d' n' \<or> d' = f_next fs"
    and st: "\<And>j. j \<noteq> f_next fs \<Longrightarrow> symlink_target fs' j = symlink_target fs j"
    and dir: "is_dir fs' d"
  shows "located fs' es d"
proof -
  from loc have d: "phys fs root_ino (butlast es) = Some d" "is_dir fs d" and ne: "es \<noteq> []"
    by (auto simp: located_def)
  have nxt: "phys fs root_ino q \<noteq> Some (f_next fs)" for q
    using phys_dom [OF wf, of q "f_next fs"] wf by (auto simp: wf_fs_def)
  have same: "phys fs' root_ino p = phys fs root_ino p" if "es = p @ q" "q \<noteq> []" for p q
  proof (rule phys_unaffected [of d fs' fs "f_next fs"])
    show "entry fs' d' n' = entry fs d' n' \<or> d' = f_next fs" if "d' \<noteq> d" for d' n' by (rule e [OF that])
    fix u v assume uv: "p = u @ v" "v \<noteq> []"
    have "u \<noteq> butlast es" using uv that by (auto simp: butlast_append)
    then have "phys fs root_ino u \<noteq> Some d" using phys_dir_inj [OF wf _ d] by blast
    with nxt show "phys fs root_ino u \<noteq> Some d \<and> phys fs root_ino u \<noteq> Some (f_next fs)" by blast
  qed
  have "plain fs' es"
  proof (rule plainI)
    fix p q j assume *: "es = p @ q" "q \<noteq> []" "phys fs' root_ino p = Some j"
    with same have j: "phys fs root_ino p = Some j" by simp
    with nxt have "j \<noteq> f_next fs" by blast
    with st plainD [of fs es p q j] loc * j show "symlink_target fs' j = None"
      by (simp add: located_def)
  qed
  moreover have "phys fs' root_ino (butlast es) = Some d"
    using same [of "butlast es" "[last es]"] ne d by simp
  ultimately show ?thesis using loc dir by (simp add: located_def)
qed

lemma located_del: "wf_fs fs \<Longrightarrow> located fs es d \<Longrightarrow> located (del_entry d n fs) es d"
  by (rule located_change) (auto simp: located_def)

lemma located_set: "wf_fs fs \<Longrightarrow> located fs es d \<Longrightarrow> located (set_entry d n i fs) es d"
  by (rule located_change) (auto simp: located_def)

lemma dir_not_next: "wf_fs fs \<Longrightarrow> is_dir fs d \<Longrightarrow> d \<noteq> f_next fs"
  using is_dir_dom [of fs d] unfolding wf_fs_def by blast

lemma located_create: "wf_fs fs \<Longrightarrow> located fs es d \<Longrightarrow> located (create_at d n nd m fs) es d"
  by (rule located_change) (auto simp: located_def create_at_simps dir_not_next)

lemma located_sibling: "located fs (es @ [x]) d \<Longrightarrow> proper y \<Longrightarrow> located fs (es @ [y]) d"
  using plain_snoc_change [of fs es x y] by (auto simp: located_def)

lemma located_attr: "(\<And>x. same_shape x (f x)) \<Longrightarrow> located (upd_inode i f fs) es d = located fs es d"
  by (simp add: located_def upd_inode_shape)

lemma located_phys: "located fs es d \<Longrightarrow> phys fs root_ino es = entry fs d (last es)"
  by (metis append_butlast_last_id located_def option.simps(5) phys_snoc)

lemma plain_extend:
  assumes "plain fs es" "\<And>j. phys fs root_ino es = Some j \<Longrightarrow> symlink_target fs j = None"
  shows "plain fs (es @ [x])"
proof (rule plainI)
  fix p q j assume *: "es @ [x] = p @ q" "q \<noteq> []" "phys fs root_ino p = Some j"
  from * obtain q' where q': "q = q' @ [x]" "es = p @ q'"
    by (cases q rule: rev_cases) auto
  show "symlink_target fs j = None"
    using * q' assms(2) plainD [OF assms(1) q'(2)] by (cases "q' = []") auto
qed

text \<open>Where the last element is no symbolic link, following it makes no difference.\<close>

lemma namei_follow:
  assumes "plain fs (pre @ es @ [x])" "phys fs root_ino pre = Some cur" "list_all proper es"
  shows "namei fs links cur up es True = namei fs links cur up es False"
  using assms
proof (induction es arbitrary: pre cur up)
  case (Cons c cs)
  show ?case
  proof (cases "entry fs cur c")
    case None
    with Cons.prems show ?thesis by (simp add: proper_def)
  next
    case (Some i)
    then have phys: "phys fs root_ino (pre @ [c]) = Some i"
      using Cons.prems(2) by (simp add: phys_snoc)
    moreover have "symlink_target fs i = None"
      using plainD [OF Cons.prems(1), of "pre @ [c]" "cs @ [x]" i] phys by simp
    ultimately show ?thesis
      using Cons.IH [of "pre @ [c]" i "cur # up"] Cons.prems Some by (simp add: proper_def)
  qed
qed simp

lemma stat_lstat: "plain fs (es @ [x]) \<Longrightarrow> list_all proper es \<Longrightarrow> stat fs es = lstat fs es"
  using namei_follow [of fs "[]" es x root_ino 40 "[]"] by (simp add: stat_def lstat_def resolve_def)

lemma resolve_located:
  assumes "plain fs es" "list_all proper es" "es \<noteq> []" "resolve fs es False = Inr (d, n, x)"
  shows "located fs es d" "n = last es" "x = entry fs d (last es)"
  using assms resolve_plain [OF assms] by (auto simp: located_def)

lemma namei_dom:
  "wf_fs fs \<Longrightarrow> cur \<in> dom (f_inodes fs) \<Longrightarrow> set up \<subseteq> dom (f_inodes fs) \<Longrightarrow>
   namei fs links cur up es follow = Inr (d, n, Some i) \<Longrightarrow> i \<in> dom (f_inodes fs)"
proof (induction fs links cur up es follow rule: namei.induct)
  case (2 fs links cur up c cs follow)
  have root: "root_ino \<in> dom (f_inodes fs)"
    using "2.prems"(1) is_dir_dom [of fs root_ino] unfolding wf_fs_def by blast
  have ent: "j \<in> dom (f_inodes fs)" if "entry fs cur c = Some j" for j
    using wf_fs_entry(2) [OF "2.prems"(1) that] .
  show ?case
    using "2.prems" "2.IH" root ent
    by (simp split: if_splits list.splits option.splits nat.splits)
qed simp

end
