(* ===== verification/LoDiscovery.thy ===== *)
theory LoDiscovery
  imports LoPeer FileTree
begin

unbundle bit_operations_syntax

text \<open>
  Discovery of peers and the start of loopback sharing: \<open>internal/lo/discovery.go\<close> and
  \<open>internal/lo/run.go\<close>. What discovery does to the outside is recorded as a list of actions: a peer
  manager started in its own goroutine, or its context cancelled.
\<close>

section \<open>State\<close>

datatype action = StartPeer string string | CancelPeer string

record discovery =
  d_dir :: string
  d_self :: string
  d_peers :: "(string \<times> peerManager) list"
  d_cancels :: "string set"
  d_actions :: "action list"

definition new_discovery :: "string \<Rightarrow> string \<Rightarrow> discovery" where
  "new_discovery dir self = \<lparr>d_dir = dir, d_self = self, d_peers = [], d_cancels = {}, d_actions = []\<rparr>"

section \<open>Scanning\<close>

text \<open>The body of the loop over the entries that are sockets of others.\<close>

definition discover :: "string \<Rightarrow> discovery \<Rightarrow> discovery" where
  "discover name d =
     (if map_of (d_peers d) name \<noteq> None then d
      else
        let sock = path_join [d_dir d, name] in
        d\<lparr>d_peers := d_peers d @ [(name, newPeerManager name sock)],
          d_cancels := insert name (d_cancels d),
          d_actions := d_actions d @ [StartPeer name sock]\<rparr>)"

text \<open>
  The body of the loop over the cancel functions of peers that are gone. Cancelling asks the
  manager's goroutine to end; it does so at its next look at the context.
\<close>

definition gone :: "string \<Rightarrow> discovery \<Rightarrow> discovery" where
  "gone name d =
     (if name \<notin> d_cancels d then d
      else d\<lparr>d_actions := d_actions d @ [CancelPeer name],
             d_cancels := d_cancels d - {name},
             d_peers := filter (\<lambda>e. fst e \<noteq> name) (d_peers d)\<rparr>)"

text \<open>\<open>entries\<close> is what \<open>os.ReadDir\<close> returned: names, and whether each is a directory.\<close>

definition peer_names :: "string \<Rightarrow> (string \<times> bool) list \<Rightarrow> string list" where
  "peer_names self entries = map fst (filter (\<lambda>(name, isdir). \<not> (isdir \<or> name = self)) entries)"

definition scan ::
  "string iteration \<Rightarrow> (errno, (string \<times> bool) list) result \<Rightarrow> discovery \<Rightarrow> discovery"
where
  "scan it entries d =
     (case entries of
        Inl e \<Rightarrow> d
      | Inr es \<Rightarrow>
          let names = peer_names (d_self d) es;
              d1 = fold discover names d
          in fold gone (filter (\<lambda>n. n \<notin> set names) (it (d_cancels d1))) d1)"

text \<open>
  \<open>runDiscovery\<close>: a scan, then rounds of waiting, until the context ends and all peers are
  cancelled. The result includes the waits asked for.
\<close>

datatype discovery_round =
    ScanTick int "string iteration" "(errno, (string \<times> bool) list) result"
  | DiscoveryDone int "string iteration"

fun discovery_loop :: "discovery_round list \<Rightarrow> discovery \<Rightarrow> int list \<times> discovery" where
  "discovery_loop [] d = ([], d)"
| "discovery_loop (DiscoveryDone t it # rs) d =
     ([scanInterval t], d\<lparr>d_actions := d_actions d @ map CancelPeer (it (d_cancels d))\<rparr>)"
| "discovery_loop (ScanTick t it entries # rs) d =
     (let (ts, d') = discovery_loop rs (scan it entries d) in (scanInterval t # ts, d'))"

definition runDiscovery ::
  "string \<Rightarrow> string \<Rightarrow> string iteration \<Rightarrow> (errno, (string \<times> bool) list) result \<Rightarrow> discovery_round list \<Rightarrow>
     int list \<times> discovery"
where
  "runDiscovery dir self it entries rs = discovery_loop rs (scan it entries (new_discovery dir self))"

section \<open>Starting\<close>

definition DefaultDir :: string where
  "DefaultDir = ''/peel/lo''"

datatype run_error = StatFailed errno | HostnameFailed | RemoveFailed errno | ListenFailed

text \<open>
  The outcome of \<open>RunDir\<close>: nothing to do, or everything started, with the socket it listens on and
  the name under which discovery leaves it alone. Whether the kernel knows a host name and lets
  the program listen at a path are arguments; the rest happens on the file system. A failed
  \<open>chmod\<close> is only logged.
\<close>

datatype run_outcome = NotShared | Sharing string string

definition listen_at :: "(string \<Rightarrow> bool) \<Rightarrow> string \<Rightarrow> string \<Rightarrow> fs \<Rightarrow> (run_error, run_outcome) result \<times> fs" where
  "listen_at can_listen sockPath hostname fs =
     (if \<not> can_listen sockPath then (Inl ListenFailed, fs)
      else
        (case bind_unix fs sockPath of
           (False, fs1) \<Rightarrow> (Inl ListenFailed, fs1)
         | (True, fs1) \<Rightarrow> (Inr (Sharing sockPath hostname), chmod fs1 (kcomps sockPath) 0x1B6)))"

definition RunDir ::
  "string option \<Rightarrow> (string \<Rightarrow> bool) \<Rightarrow> string \<Rightarrow> fs \<Rightarrow> (run_error, run_outcome) result \<times> fs"
where
  "RunDir host can_listen dir fs =
     (case stat fs (kcomps dir) of
        Inl e \<Rightarrow> (if e = ENOENT then Inr NotShared else Inl (StatFailed e), fs)
      | Inr _ \<Rightarrow>
          (case host of
             None \<Rightarrow> (Inl HostnameFailed, fs)
           | Some hostname \<Rightarrow>
               let sockPath = path_join [dir, hostname] in
               (case remove_path fs (kcomps sockPath) of
                  (Some e, fs1) \<Rightarrow>
                    if e \<noteq> ENOENT then (Inl (RemoveFailed e), fs1)
                    else listen_at can_listen sockPath hostname fs1
                | (None, fs1) \<Rightarrow> listen_at can_listen sockPath hostname fs1)))"

definition lo_Run :: "string option \<Rightarrow> (string \<Rightarrow> bool) \<Rightarrow> fs \<Rightarrow> (run_error, run_outcome) result \<times> fs" where
  "lo_Run host can_listen fs = RunDir host can_listen DefaultDir fs"

section \<open>Discovery is a mirror of the directory\<close>

definition d_names :: "discovery \<Rightarrow> string set" where
  "d_names d = fst ` set (d_peers d)"

text \<open>The managers running: started and not cancelled since.\<close>

definition running :: "action list \<Rightarrow> string \<Rightarrow> int" where
  "running as name =
     int (length (filter (\<lambda>a. case a of StartPeer n s \<Rightarrow> n = name | _ \<Rightarrow> False) as)) -
     int (length (filter (\<lambda>a. a = CancelPeer name) as))"

definition started_ok :: "discovery \<Rightarrow> bool" where
  "started_ok d \<longleftrightarrow> (\<forall>n s. StartPeer n s \<in> set (d_actions d) \<longrightarrow> s = path_join [d_dir d, n])"

definition d_ok :: "discovery \<Rightarrow> bool" where
  "d_ok d \<longleftrightarrow> d_cancels d = d_names d \<and> distinct (map fst (d_peers d)) \<and> started_ok d \<and>
     (\<forall>n. running (d_actions d) n = (if n \<in> d_names d then 1 else 0))"

lemma running_simps [simp]:
  "running [] n = 0"
  "running (as @ [StartPeer m s]) n = running as n + (if m = n then 1 else 0)"
  "running (as @ [CancelPeer m]) n = running as n - (if m = n then 1 else 0)"
  by (simp_all add: running_def)

lemma d_names_lookup: "map_of (d_peers d) n = None \<longleftrightarrow> n \<notin> d_names d"
  by (simp add: d_names_def map_of_eq_None_iff)

lemma discover_cases:
  "(n \<in> d_names d \<and> discover n d = d) \<or>
   (n \<notin> d_names d \<and> discover n d = d\<lparr>d_peers := d_peers d @ [(n, newPeerManager n (path_join [d_dir d, n]))],
      d_cancels := insert n (d_cancels d), d_actions := d_actions d @ [StartPeer n (path_join [d_dir d, n])]\<rparr>)"
  using d_names_lookup [of d n] by (auto simp: discover_def Let_def)

lemma discover_names: "d_names (discover n d) = insert n (d_names d)"
  using discover_cases [of n d] by (auto simp: d_names_def)

lemma discover_ok: "d_ok d \<Longrightarrow> d_ok (discover n d)"
  using discover_cases [of n d] discover_names [of n d]
  by (elim disjE) (simp_all add: d_ok_def started_ok_def, auto simp: d_names_def)

lemma gone_names: "d_ok d \<Longrightarrow> d_names (gone n d) = d_names d - {n}"
  by (auto simp: gone_def d_ok_def d_names_def)

lemma gone_ok: "d_ok d \<Longrightarrow> d_ok (gone n d)"
  using gone_names [of d n] by (auto simp: gone_def d_ok_def started_ok_def distinct_map_filter split: if_splits)

lemma fixed_fields [simp]:
  "d_dir (discover n d) = d_dir d" "d_self (discover n d) = d_self d"
  "d_dir (gone n d) = d_dir d" "d_self (gone n d) = d_self d"
  by (simp_all add: discover_def gone_def Let_def)

lemma fold_fixed [simp]:
  "d_dir (fold discover ns d) = d_dir d" "d_self (fold discover ns d) = d_self d"
  "d_dir (fold gone ns d) = d_dir d" "d_self (fold gone ns d) = d_self d"
  by (induction ns arbitrary: d) simp_all

interpretation dmir: set_mirror d_names discover gone d_ok
  by unfold_locales (auto simp: discover_ok gone_ok discover_names gone_names)

lemma discovers_ok: "d_ok d \<Longrightarrow> d_ok (fold discover ns d) \<and> d_names (fold discover ns d) = d_names d \<union> set ns"
  by (induction ns arbitrary: d) (auto simp: discover_ok discover_names)

lemma finite_names: "finite (d_names d)"
  by (simp add: d_names_def)

lemma scan_ok:
  assumes "d_ok d" "visits it"
  shows "d_ok (scan it entries d)"
    "entries = Inr es \<Longrightarrow> d_names (scan it entries d) = set (peer_names (d_self d) es)"
    "d_dir (scan it entries d) = d_dir d" "d_self (scan it entries d) = d_self d"
proof -
  let ?ns = "\<lambda>es. peer_names (d_self d) es"
  have D: "d_ok (fold discover (?ns es) d)" "d_names (fold discover (?ns es) d) = d_names d \<union> set (?ns es)" for es
    using discovers_ok [OF assms(1)] by auto
  have it: "set (it (d_cancels (fold discover (?ns es) d))) = d_names d \<union> set (?ns es)" for es
    using D [of es] finite_names [of "fold discover (?ns es) d"] visits_set [OF assms(2)] by (simp add: d_ok_def)
  note G = dmir.removes_view [OF D(1)]
  show "d_ok (scan it entries d)" using assms(1) G by (simp add: scan_def Let_def split: sum.split)
  show "d_names (scan it entries d) = set (?ns es)" if "entries = Inr es"
    using G D(2) it that by (auto simp: scan_def Let_def)
  show "d_dir (scan it entries d) = d_dir d" "d_self (scan it entries d) = d_self d"
    by (simp_all add: scan_def Let_def split: sum.split)
qed


text \<open>Peers started are never the container itself.\<close>

definition started :: "discovery \<Rightarrow> string set" where
  "started d = {n. \<exists>s. StartPeer n s \<in> set (d_actions d)}"

lemma started_gones: "started (fold gone ns d) = started d"
  by (induction ns arbitrary: d) (auto simp: started_def gone_def split: if_splits)

lemma started_discovers: "started (fold discover ns d) \<subseteq> started d \<union> set ns"
proof (induction ns arbitrary: d)
  case (Cons n ns)
  have "started (discover n d) \<subseteq> insert n (started d)"
    by (auto simp: started_def discover_def Let_def split: if_splits)
  with Cons [of "discover n d"] show ?case by auto
qed simp

lemma started_scan: "started (scan it entries d) \<subseteq> started d \<union> - {d_self d}"
proof -
  have "d_self d \<notin> set (peer_names (d_self d) es)" for es by (auto simp: peer_names_def)
  then have "started (fold discover (peer_names (d_self d) es) d) \<subseteq> started d \<union> - {d_self d}" for es
    using started_discovers [of "peer_names (d_self d) es" d] by blast
  then show ?thesis by (auto simp: scan_def Let_def started_gones split: sum.split)
qed

section \<open>Properties\<close>

abbreviation tick :: "int \<times> string iteration \<times> (errno, (string \<times> bool) list) result \<Rightarrow> discovery_round" where
  "tick r \<equiv> (case r of (t, it, entries) \<Rightarrow> ScanTick t it entries)"

definition good :: "string \<Rightarrow> string \<Rightarrow> discovery \<Rightarrow> bool" where
  "good dir self d \<longleftrightarrow> d_ok d \<and> d_dir d = dir \<and> d_self d = self \<and> self \<notin> started d"

lemma good_new: "good dir self (new_discovery dir self)"
  by (simp add: good_def d_ok_def new_discovery_def d_names_def started_ok_def started_def)

lemma good_scan: "good dir self d \<Longrightarrow> visits it \<Longrightarrow> good dir self (scan it entries d)"
  using scan_ok [of d it] started_scan [of it entries d] unfolding good_def by auto

lemma good_loop:
  assumes "good dir self d" "\<forall>(t, it, es) \<in> set ticks. visits it"
  shows "good dir self (snd (discovery_loop (map tick ticks) d))"
    "ticks \<noteq> [] \<Longrightarrow> snd (snd (last ticks)) = Inr es \<Longrightarrow>
       d_names (snd (discovery_loop (map tick ticks) d)) = set (peer_names self es)"
proof -
  have "good dir self (snd (discovery_loop (map tick ticks) d)) \<and>
    (ticks \<noteq> [] \<longrightarrow> snd (snd (last ticks)) = Inr es \<longrightarrow>
       d_names (snd (discovery_loop (map tick ticks) d)) = set (peer_names self es))"
    using assms
  proof (induction ticks arbitrary: d)
    case (Cons r ticks)
    obtain t it e where r: "r = (t, it, e)" by (cases r)
    with Cons.prems have g: "good dir self (scan it e d)" "visits it" by (auto intro: good_scan)
    have "d_names (scan it e d) = set (peer_names self es)" if "e = Inr es"
      using scan_ok(2) [of d it e es] Cons.prems(1) g(2) that by (simp add: good_def)
    with Cons.IH [OF g(1)] Cons.prems(2) r show ?case by (cases ticks) (auto simp: split_beta)
  qed simp
  then show "good dir self (snd (discovery_loop (map tick ticks) d))"
    "ticks \<noteq> [] \<Longrightarrow> snd (snd (last ticks)) = Inr es \<Longrightarrow>
       d_names (snd (discovery_loop (map tick ticks) d)) = set (peer_names self es)" by auto
qed

lemma loop_append:
  "snd (discovery_loop (map tick ticks @ rs) d) = snd (discovery_loop rs (snd (discovery_loop (map tick ticks) d)))"
  by (induction ticks arbitrary: d) (auto simp: split_beta)

lemma running_cancel_all: "running (as @ map CancelPeer ns) n = running as n - int (count_list ns n)"
proof (induction ns arbitrary: as)
  case (Cons m ns)
  from Cons [of "as @ [CancelPeer m]"] show ?case by simp
qed simp

text \<open>
  C35. Discovery runs exactly one manager per peer. After any rounds of scanning, failed ones
  included, a manager is running for a name exactly when discovery has a peer of that name, never
  twice; after a scan that listed the directory those names are exactly the entries that are not
  directories and not the container's own socket; the container never becomes its own peer, and
  each manager watches the socket of its name in the directory. When the context ends no manager
  is left running.
\<close>

theorem discovery_tracks_peers:
  assumes "\<forall>(t, it, es) \<in> set ((0, it0, e0) # ticks). visits it" "visits it1"
    and "d = snd (runDiscovery dir self it0 e0 (map tick ticks))"
    and "d' = snd (runDiscovery dir self it0 e0 (map tick ticks @ [DiscoveryDone t it1]))"
  shows "(\<forall>n. running (d_actions d) n = (if n \<in> fst ` set (d_peers d) then 1 else 0)) \<and>
    (\<forall>es. snd (snd (last ((0, it0, e0) # ticks))) = Inr es \<longrightarrow> fst ` set (d_peers d) = set (peer_names self es)) \<and>
    (\<forall>n s. StartPeer n s \<in> set (d_actions d) \<longrightarrow> n \<noteq> self \<and> s = path_join [dir, n]) \<and>
    (\<forall>n. running (d_actions d') n = 0)"
proof -
  have d: "d = snd (discovery_loop (map tick ((0, it0, e0) # ticks)) (new_discovery dir self))"
    using assms(3) by (simp add: runDiscovery_def split_beta)
  note G = good_loop [OF good_new [of dir self] assms(1), folded d]
  then have ok: "d_ok d" "d_dir d = dir" "self \<notin> started d" by (auto simp: good_def)
  have "d' = d\<lparr>d_actions := d_actions d @ map CancelPeer (it1 (d_cancels d))\<rparr>"
    using assms(4) d loop_append [of ticks] by (simp add: runDiscovery_def split_beta)
  moreover have "count_list (it1 (d_cancels d)) n = (if n \<in> d_names d then 1 else 0)" for n
    using ok(1) finite_names [of d] assms(2) by (simp add: d_ok_def visits_def count_list_distinct)
  ultimately have "\<forall>n. running (d_actions d') n = 0"
    using ok(1) by (simp add: running_cancel_all d_ok_def)
  then show ?thesis
    using ok G(2) by (auto simp: d_ok_def d_names_def started_ok_def started_def)
qed


lemma discovery_tracks_peers_witness:
  "running (d_actions (snd (runDiscovery ''/peel/lo'' ''a'' sorted_list_of_set
     (Inr [(''a'', False), (''b'', False), (''d'', True)])
     (map tick [(0, sorted_list_of_set, Inl ENOENT), (1, sorted_list_of_set, Inr [(''c'', False), (''a'', False)])])))) ''c'' = 1"
proof -
  let ?ticks = "[(0, sorted_list_of_set, Inl ENOENT), (1, sorted_list_of_set, Inr [(''c'', False), (''a'', False)])]
    :: (int \<times> string iteration \<times> (errno, (string \<times> bool) list) result) list"
  have "set (peer_names ''a'' [(''c'', False), (''a'', False)]) = {''c''}" by (simp add: peer_names_def)
  moreover have "\<forall>(t, it, es) \<in> set ((0, sorted_list_of_set, Inr [(''a'', False), (''b'', False), (''d'', True)]) # ?ticks). visits it"
    by (simp add: visits_sorted)
  note discovery_tracks_peers [OF this visits_sorted refl refl, of "''/peel/lo''" "''a''" 0]
  ultimately show ?thesis by simp
qed

text \<open>Different names in a directory are different paths.\<close>

lemma join_snoc_inj:
  assumes "join_with ''/'' (es @ [a]) = join_with ''/'' (es @ [b])"
  shows "a = b"
  using assms by (cases "es = []") (simp_all add: join_snoc)

text \<open>
  Starting at a path whose directory is known: what was there is removed, and a socket that
  everyone may connect to takes its place.
\<close>

lemma bind_located:
  assumes "wf_fs fs" "located fs es d" "entry fs d (last es) = None" "kcomps path = es" "length path < 108"
  shows "bind_unix fs path = (True, create_at d (last es) Sock (0x1FF AND NOT (f_umask fs)) fs)"
  using located_resolve [OF assms(2), of False] assms(3-5) by (simp add: bind_unix_def create_new_def)

lemma listen_located:
  assumes "wf_fs fs" "located fs es d" "entry fs d (last es) = None" "kcomps path = es" "length path < 108" "can_listen path"
  shows "listen_at can_listen path h fs =
    (Inr (Sharing path h), upd_inode (f_next fs) (\<lambda>n. n\<lparr>i_mode := 0x1B6\<rparr>) (create_at d (last es) Sock (0x1FF AND NOT (f_umask fs)) fs))"
proof -
  let ?fs1 = "create_at d (last es) Sock (0x1FF AND NOT (f_umask fs)) fs"
  have d: "is_dir fs d" "d \<noteq> f_next fs" using assms(2) dir_not_next [OF assms(1)] by (auto simp: located_def)
  have "resolve ?fs1 es True = Inr (d, last es, Some (f_next fs))"
    using located_resolve [OF located_create [OF assms(1,2)], of True "last es" Sock] create_at_simps(2,3) [OF d] by simp
  then show ?thesis
    using assms(4,6) bind_located [OF assms(1-5)] by (simp add: listen_at_def chmod_def change_def found_def)
qed

lemma remove_located:
  assumes "wf_fs fs" "located fs es d" "\<And>i. entry fs d (last es) = Some i \<Longrightarrow> \<not> is_dir fs i"
  shows "remove_path fs es = (case entry fs d (last es) of None \<Rightarrow> (Some ENOENT, fs) | Some i \<Rightarrow> (None, del_entry d (last es) fs))"
  using located_resolve [OF assms(2), of False] assms(3) wf_fs_entry(1) [OF assms(1)]
  by (auto simp: remove_path_def split: option.splits)

lemma RunDir_located:
  assumes "wf_fs fs" "dir = CHR ''/'' # join_with ''/'' ds" "ds \<noteq> []" "located fs (ds @ [self]) d"
    and "\<And>i. entry fs d self = Some i \<Longrightarrow> \<not> is_dir fs i" "length (join_with ''/'' (ds @ [self])) < 107"
    and "can_listen (CHR ''/'' # join_with ''/'' (ds @ [self]))"
  shows "\<exists>fs0. fs0 \<in> {fs, del_entry d self fs} \<and> entry fs0 d self = None \<and> RunDir (Some self) can_listen dir fs =
    (Inr (Sharing (CHR ''/'' # join_with ''/'' (ds @ [self])) self),
     upd_inode (f_next fs) (\<lambda>n. n\<lparr>i_mode := 0x1B6\<rparr>) (create_at d self Sock (0x1FF AND NOT (f_umask fs)) fs0))"
proof -
  let ?sock = "CHR ''/'' # join_with ''/'' (ds @ [self])"
  have pr: "list_all proper (ds @ [self])" using assms(4) by (simp add: located_def)
  then have k: "kcomps ?sock = ds @ [self]" "kcomps dir = ds" and j: "path_join [dir, self] = ?sock"
    using kcomps_join [OF pr] kcomps_join [of ds] path_join_snoc(2) [of ds self] assms(2,3) by auto
  have d: "phys fs root_ino ds = Some d" "plain fs (ds @ [self])" using assms(4) by (auto simp: located_def)
  obtain d0 where "located fs ds d0" "entry fs d0 (last ds) = Some d"
  proof -
    obtain us x where u: "ds = us @ [x]" using assms(3) by (cases ds rule: rev_cases) auto
    then obtain d0 where d0: "phys fs root_ino us = Some d0" "entry fs d0 x = Some d"
      using d(1) by (auto simp: phys_snoc split: option.splits)
    moreover have "plain fs ds" using plain_prefix d(2) by blast
    ultimately show thesis using that [of d0] u pr entry_is_dir [OF d0(2)] by (simp add: located_def)
  qed
  moreover have "symlink_target fs d = None" using assms(4) is_dir_not_symlink by (auto simp: located_def)
  ultimately have "stat fs ds = Inr d" using located_resolve [of fs ds d0 True] by (simp add: stat_def found_def)
  then have run: "RunDir (Some self) can_listen dir fs =
      (case remove_path fs (ds @ [self]) of
         (Some e, fs1) \<Rightarrow> if e \<noteq> ENOENT then (Inl (RemoveFailed e), fs1) else listen_at can_listen ?sock self fs1
       | (None, fs1) \<Rightarrow> listen_at can_listen ?sock self fs1)"
    unfolding RunDir_def k(2) using j k(1) by (simp add: Let_def)
  have L: "listen_at can_listen ?sock self fs0 = (Inr (Sharing ?sock self),
      upd_inode (f_next fs) (\<lambda>n. n\<lparr>i_mode := 0x1B6\<rparr>) (create_at d self Sock (0x1FF AND NOT (f_umask fs)) fs0))"
    if "fs0 = fs \<or> fs0 = del_entry d self fs" "entry fs0 d self = None" for fs0
  proof -
    have "f_next fs0 = f_next fs" "f_umask fs0 = f_umask fs" "wf_fs fs0" "located fs0 (ds @ [self]) d"
      using that(1) assms(1,4) located_del [OF assms(1,4)] wf_fs_del [OF assms(1)]
      by (auto simp: del_entry_def upd_inode_def)
    then show ?thesis using listen_located [of fs0 "ds @ [self]" d ?sock can_listen self] that(2) k(1) assms(6,7) by simp
  qed
  show ?thesis
  proof (cases "entry fs d self")
    case None
    then show ?thesis using L [of fs] remove_located [OF assms(1,4)] run by auto
  next
    case (Some i)
    then show ?thesis using L [of "del_entry d self fs"] remove_located [OF assms(1,4)] assms(5) run by auto
  qed
qed

text \<open>
  C38. Sharing starts, and a container never watches its own socket. Where the directory is there
  and what is at the path named after the host is not a directory, a socket of an earlier boot for
  instance, starting succeeds and leaves at that path a socket that everyone may connect to; and
  whatever discovery finds in the directory in whatever rounds, no manager it starts is connected
  to that socket. (File names have no slash and are not \<open>.\<close> or \<open>..\<close>.)
\<close>

theorem sharing_starts:
  assumes "wf_fs fs" "dir = CHR ''/'' # join_with ''/'' ds" "ds \<noteq> []" "located fs (ds @ [self]) d"
    and "\<And>i. entry fs d self = Some i \<Longrightarrow> \<not> is_dir fs i"
    and "sock = CHR ''/'' # join_with ''/'' (ds @ [self])" "length sock < 108" "can_listen sock"
    and "\<forall>(t, it, es) \<in> set ((0, it0, e0) # ticks). visits it"
  shows "\<exists>fs' i. RunDir (Some self) can_listen dir fs = (Inr (Sharing sock self), fs') \<and>
      stat fs' (kcomps sock) = Inr i \<and> f_inodes fs' i = Some (fresh_inode Sock 0x1B6) \<and>
      (\<forall>n s. proper n \<and> StartPeer n s \<in> set (d_actions (snd (runDiscovery dir self it0 e0 (map tick ticks)))) \<longrightarrow>
         s = CHR ''/'' # join_with ''/'' (ds @ [n]) \<and> s \<noteq> sock)"
proof -
  let ?d = "snd (discovery_loop (map tick ((0, it0, e0) # ticks)) (new_discovery dir self))"
  have pr: "list_all proper (ds @ [self])" using assms(4) by (simp add: located_def)
  have "good dir self ?d" by (rule good_loop(1) [OF good_new assms(9)])
  then have g: "\<And>n s. StartPeer n s \<in> set (d_actions ?d) \<Longrightarrow> n \<noteq> self \<and> s = path_join [dir, n]"
    by (auto simp: good_def d_ok_def started_ok_def started_def)
  have j: "proper n \<Longrightarrow> path_join [dir, n] = CHR ''/'' # join_with ''/'' (ds @ [n])" for n
    using path_join_snoc(2) [of ds n] assms(2) pr by simp
  have "?d = snd (runDiscovery dir self it0 e0 (map tick ticks))" by (simp add: runDiscovery_def split_beta)
  note g = g [unfolded this]
  have other: "s = CHR ''/'' # join_with ''/'' (ds @ [n]) \<and> s \<noteq> sock"
    if "proper n" "StartPeer n s \<in> set (d_actions (snd (runDiscovery dir self it0 e0 (map tick ticks))))" for n s
    using g [OF that(2)] j [OF that(1)] assms(6) join_snoc_inj [of ds n self] by auto
  obtain fs0 where 0: "fs0 \<in> {fs, del_entry d self fs}" "entry fs0 d self = None"
    and run: "RunDir (Some self) can_listen dir fs = (Inr (Sharing sock self),
      upd_inode (f_next fs) (\<lambda>n. n\<lparr>i_mode := 0x1B6\<rparr>) (create_at d self Sock (0x1FF AND NOT (f_umask fs)) fs0))"
    using RunDir_located [OF assms(1-5)] assms(6-8) by auto
  let ?fs1 = "create_at d self Sock (0x1FF AND NOT (f_umask fs)) fs0"
  let ?fs' = "upd_inode (f_next fs) (\<lambda>n. n\<lparr>i_mode := 0x1B6\<rparr>) ?fs1"
  have n0: "f_next fs0 = f_next fs" using 0 by auto
  have w0: "wf_fs fs0" "located fs0 (ds @ [self]) d"
    using 0 assms(1,4) located_del [OF assms(1,4)] wf_fs_del [OF assms(1)] by auto
  then have d: "is_dir fs0 d" "d \<noteq> f_next fs0" using dir_not_next [OF w0(1)] by (auto simp: located_def)
  have sh: "same_shape x (x\<lparr>i_mode := m\<rparr>)" for x m by (simp add: same_shape_def)
  have "located ?fs' (ds @ [self]) d"
    using located_create [OF w0, of self Sock] located_attr [OF sh] by simp
  moreover have "entry ?fs' d self = Some (f_next fs)" "symlink_target ?fs' (f_next fs) = None"
    using create_at_simps(2,3) [OF d] upd_inode_shape(2,4) [OF sh] n0 by simp_all
  ultimately have "stat ?fs' (ds @ [self]) = Inr (f_next fs)"
    using located_resolve [of ?fs' "ds @ [self]" d True] by (simp add: stat_def found_def)
  moreover have "f_inodes ?fs' (f_next fs) = Some (fresh_inode Sock 0x1B6)"
    using create_at_inode [OF d(2)] n0 by (simp add: upd_inode_def fresh_inode_def)
  moreover have "kcomps sock = ds @ [self]" using kcomps_join [OF pr] assms(6) by simp
  ultimately show ?thesis using run other by auto
qed

text \<open>A root with the shared directory and in it the socket of an earlier boot.\<close>

definition demo_lo :: fs where
  "demo_lo =
     \<lparr>f_inodes = [0 \<mapsto> fresh_inode (Dir [(''peel'', 1)]) 0x1ED, 1 \<mapsto> fresh_inode (Dir [(''lo'', 2)]) 0x1ED,
                  2 \<mapsto> fresh_inode (Dir [(''a'', 3), (''b'', 4)]) 0x1ED, 3 \<mapsto> fresh_inode Sock 0x1B6,
                  4 \<mapsto> fresh_inode Sock 0x1B6],
      f_next = 5, f_umask = 0x12, f_devices = False\<rparr>"

lemma demo_lo_entry:
  "entry demo_lo d n =
     (if d = 0 then [''peel'' \<mapsto> 1] n else if d = 1 then [''lo'' \<mapsto> 2] n
      else if d = 2 then [''a'' \<mapsto> 3, ''b'' \<mapsto> 4] n else None)"
  "is_dir demo_lo d \<longleftrightarrow> d \<in> {0, 1, 2}" "dom (f_inodes demo_lo) = {0, 1, 2, 3, 4}"
  by (auto simp: entry_def is_dir_def dir_entries_def demo_lo_def fresh_inode_def)

lemma demo_lo_wf: "wf_fs demo_lo"
proof -
  have "f_next demo_lo = 5" by (simp add: demo_lo_def)
  then show ?thesis
    unfolding wf_fs_def demo_lo_entry by (auto simp: proper_def split: if_splits)
qed

lemma sharing_starts_witness:
  "\<exists>fs' i. RunDir (Some ''a'') (\<lambda>_. True) DefaultDir demo_lo = (Inr (Sharing ''/peel/lo/a'' ''a''), fs') \<and>
     stat fs' [''peel'', ''lo'', ''a''] = Inr i \<and> f_inodes fs' i = Some (fresh_inode Sock 0x1B6)"
proof -
  have "plain demo_lo [''peel'', ''lo'', ''a'']" by code_simp
  then have "located demo_lo ([''peel'', ''lo''] @ [''a'']) 2"
    by (simp add: located_def proper_def demo_lo_entry)
  moreover have "DefaultDir = CHR ''/'' # join_with ''/'' [''peel'', ''lo'']" by (simp add: DefaultDir_def)
  moreover have "kcomps ''/peel/lo/a'' = [''peel'', ''lo'', ''a'']" by code_simp
  ultimately show ?thesis
    using sharing_starts [OF demo_lo_wf, of DefaultDir "[''peel'', ''lo'']" "''a''" 2 "''/peel/lo/a''" "\<lambda>_. True"
        sorted_list_of_set "Inl ENOENT" "[]"] visits_sorted [where 'a = string]
    by (auto simp: demo_lo_entry)
qed

end
