(* ===== verification/PortsClient.thy ===== *)
theory PortsClient
  imports PortsWatcher LoDiscovery
begin

text \<open>
  The client library, \<open>client/client.go\<close>: one goroutine scans the directory of sockets, keeps a
  container watcher for each, and puts what the watchers report on the channel its user reads: one
  snapshot of the containers present at the start, then batches of changes. The watchers'
  goroutines appear as what they post, and the user as an answer to each send.
\<close>

section \<open>State\<close>

definition client_DefaultDir :: string where
  "client_DefaultDir = ''/peel/lo''"

text \<open>Durations are in nanoseconds.\<close>

definition defaultReconnectDelay :: int where "defaultReconnectDelay = 5 * 1000000000"
definition defaultStartupTimeout :: int where "defaultStartupTimeout = 5 * 1000000000"

record client_config =
  cc_Dir :: string
  cc_ReconnectDelay :: int
  cc_StartupTimeout :: int

record portsClient =
  pc_cfg :: client_config
  pc_containers :: "string \<rightharpoonup> containerWatcher"
  pc_cancelled :: "containerWatcher list"
  pc_changes :: "string list list"
  pc_closed :: bool

definition NewWithConfig :: "client_config \<Rightarrow> portsClient" where
  "NewWithConfig cfg =
     (let cfg1 = (if cc_Dir cfg = [] then cfg\<lparr>cc_Dir := client_DefaultDir\<rparr> else cfg);
          cfg2 = (if cc_ReconnectDelay cfg1 = 0 then cfg1\<lparr>cc_ReconnectDelay := defaultReconnectDelay\<rparr> else cfg1);
          cfg3 = (if cc_StartupTimeout cfg2 = 0 then cfg2\<lparr>cc_StartupTimeout := defaultStartupTimeout\<rparr> else cfg2)
      in \<lparr>pc_cfg = cfg3, pc_containers = Map.empty, pc_cancelled = [], pc_changes = [], pc_closed = False\<rparr>)"

definition client_New :: "string \<Rightarrow> portsClient" where
  "client_New dir = NewWithConfig \<lparr>cc_Dir = dir, cc_ReconnectDelay = 0, cc_StartupTimeout = 0\<rparr>"

section \<open>Containers\<close>

text \<open>
  The watcher's goroutine is running from here until it is cancelled. The table has the watchers
  as they were made: what a goroutine does to its watcher is \<open>cw_run\<close>.
\<close>

definition startContainer :: "string \<Rightarrow> portsClient \<Rightarrow> portsClient" where
  "startContainer name c =
     c\<lparr>pc_containers := (pc_containers c)(name \<mapsto> newContainerWatcher name (path_join [cc_Dir (pc_cfg c), name]))\<rparr>"

definition stopContainer :: "string \<Rightarrow> portsClient \<Rightarrow> portsClient" where
  "stopContainer name c =
     (case pc_containers c name of
        None \<Rightarrow> c
      | Some cw \<Rightarrow> c\<lparr>pc_containers := (pc_containers c)(name := None), pc_cancelled := pc_cancelled c @ [cw]\<rparr>)"

text \<open>\<open>entries\<close> is what \<open>os.ReadDir\<close> returned: names, and whether each is a directory.\<close>

definition scanDir :: "(errno, (string \<times> bool) list) result \<Rightarrow> string list" where
  "scanDir entries = (case entries of Inl e \<Rightarrow> [] | Inr es \<Rightarrow> map fst (filter (\<lambda>(name, isdir). \<not> isdir) es))"

definition see_container :: "string \<Rightarrow> portsClient \<Rightarrow> portsClient" where
  "see_container name c = (if pc_containers c name \<noteq> None then c else startContainer name c)"

definition pc_scan ::
  "string iteration \<Rightarrow> (errno, (string \<times> bool) list) result \<Rightarrow> portsClient \<Rightarrow> portsClient"
where
  "pc_scan it entries c =
     (case entries of
        Inl e \<Rightarrow> c
      | Inr es \<Rightarrow>
          let seen = map fst (filter (\<lambda>(name, isdir). \<not> isdir) es);
              c1 = fold see_container seen c;
              gone = filter (\<lambda>n. n \<notin> set seen) (it (dom (pc_containers c1)))
          in fold stopContainer gone c1)"

definition discoveryScanInterval :: "int \<Rightarrow> int" where
  "discoveryScanInterval elapsed = (if elapsed < 60 * 1000000000 then 1000000000 else 5 * 1000000000)"

section \<open>The main goroutine\<close>

text \<open>
  What happens while it runs: a startup callback posts its ports, a watcher's batch is taken from
  the channel, timers fire, the context ends. The names say who posted; the code does not look at
  them.
\<close>

datatype client_round =
    StartupResult string "string list"
  | OutBatch string "string list"
  | StartupDeadline
  | ScanTimer int "string iteration" "(errno, (string \<times> bool) list) result"
  | Killed

datatype startup = Waiting | Ended | Collected "string list" "string list list"

fun startup_loop ::
  "client_round list \<Rightarrow> nat \<Rightarrow> string list \<Rightarrow> string list list \<Rightarrow> startup \<times> client_round list"
where
  "startup_loop rs 0 snapshot pendingOut = (Collected snapshot pendingOut, rs)"
| "startup_loop [] (Suc n) snapshot pendingOut = (Waiting, [])"
| "startup_loop (StartupResult who ports # rs) (Suc n) snapshot pendingOut =
     startup_loop rs n (snapshot @ ports) pendingOut"
| "startup_loop (OutBatch who ev # rs) (Suc n) snapshot pendingOut =
     startup_loop rs (Suc n) snapshot (pendingOut @ [ev])"
| "startup_loop (StartupDeadline # rs) (Suc n) snapshot pendingOut = (Collected snapshot pendingOut, rs)"
| "startup_loop (ScanTimer t it entries # rs) (Suc n) snapshot pendingOut = startup_loop rs (Suc n) snapshot pendingOut"
| "startup_loop (Killed # rs) (Suc n) snapshot pendingOut = (Ended, rs)"

text \<open>
  A send on \<open>changes\<close> against the end of the context: \<open>sel i\<close> says whether the send after \<open>i\<close> others
  goes through.
\<close>

definition send_change :: "(nat \<Rightarrow> bool) \<Rightarrow> string list \<Rightarrow> portsClient \<Rightarrow> bool \<times> portsClient" where
  "send_change sel batch c =
     (if sel (length (pc_changes c)) then (True, c\<lparr>pc_changes := pc_changes c @ [batch]\<rparr>) else (False, c))"

fun send_changes :: "(nat \<Rightarrow> bool) \<Rightarrow> string list list \<Rightarrow> portsClient \<Rightarrow> bool \<times> portsClient" where
  "send_changes sel [] c = (True, c)"
| "send_changes sel (b # bs) c =
     (case send_change sel b c of (ok, c1) \<Rightarrow> if ok then send_changes sel bs c1 else (False, c1))"

text \<open>The deferred calls: all watchers are cancelled and waited for, and the channel closed.\<close>

definition finish_run :: "portsClient \<Rightarrow> portsClient" where
  "finish_run c = c\<lparr>pc_closed := True\<rparr>"

text \<open>A startup callback that posts late, or the startup timer, has no reader any more.\<close>

fun incremental_loop :: "(nat \<Rightarrow> bool) \<Rightarrow> client_round list \<Rightarrow> portsClient \<Rightarrow> int list \<times> portsClient" where
  "incremental_loop sel [] c = ([], c)"
| "incremental_loop sel (Killed # rs) c = ([], finish_run c)"
| "incremental_loop sel (OutBatch who ev # rs) c =
     (case send_change sel ev c of (ok, c1) \<Rightarrow> if ok then incremental_loop sel rs c1 else ([], finish_run c1))"
| "incremental_loop sel (ScanTimer t it entries # rs) c =
     (case incremental_loop sel rs (pc_scan it entries c) of (ts, c1) \<Rightarrow> (discoveryScanInterval t # ts, c1))"
| "incremental_loop sel (StartupResult who ports # rs) c = incremental_loop sel rs c"
| "incremental_loop sel (StartupDeadline # rs) c = incremental_loop sel rs c"

definition client_run ::
  "(nat \<Rightarrow> bool) \<Rightarrow> (errno, (string \<times> bool) list) result \<Rightarrow> client_round list \<Rightarrow> portsClient \<Rightarrow> int list \<times> portsClient"
where
  "client_run sel entries rounds c =
     (let initial = scanDir entries;
          c1 = fold startContainer initial c
      in case startup_loop rounds (length initial) [] [] of
           (Waiting, _) \<Rightarrow> ([], c1)
         | (Ended, _) \<Rightarrow> ([], finish_run c1)
         | (Collected snapshot pendingOut, rest) \<Rightarrow>
             (case send_changes sel (snapshot # pendingOut) c1 of (ok, c2) \<Rightarrow>
                if ok then
                  (case incremental_loop sel rest c2 of (ts, c3) \<Rightarrow> (discoveryScanInterval 0 # ts, c3))
                else ([], finish_run c2)))"


section \<open>The order of the changes\<close>

text \<open>What was posted, with who posted it, and what came before the startup phase was cut off.\<close>

definition results_by :: "client_round list \<Rightarrow> (string \<times> string list) list" where
  "results_by rs = concat (map (\<lambda>r. case r of StartupResult who ports \<Rightarrow> [(who, ports)] | _ \<Rightarrow> []) rs)"

definition outs_by :: "client_round list \<Rightarrow> (string \<times> string list) list" where
  "outs_by rs = concat (map (\<lambda>r. case r of OutBatch who ev \<Rightarrow> [(who, ev)] | _ \<Rightarrow> []) rs)"

definition early :: "client_round list \<Rightarrow> client_round list" where
  "early rs = takeWhile (\<lambda>r. r \<noteq> StartupDeadline \<and> r \<noteq> Killed) rs"

definition startup_snapshot :: "nat \<Rightarrow> client_round list \<Rightarrow> string list" where
  "startup_snapshot n rs = concat (take n (map snd (results_by (early rs))))"

lemma by_simps [simp]:
  "results_by [] = []" "outs_by [] = []"
  "results_by (StartupResult who ports # rs) = (who, ports) # results_by rs"
  "results_by (OutBatch who ev # rs) = results_by rs" "results_by (StartupDeadline # rs) = results_by rs"
  "results_by (ScanTimer t it es # rs) = results_by rs" "results_by (Killed # rs) = results_by rs"
  "outs_by (OutBatch who ev # rs) = (who, ev) # outs_by rs"
  "outs_by (StartupResult who ports # rs) = outs_by rs" "outs_by (StartupDeadline # rs) = outs_by rs"
  "outs_by (ScanTimer t it es # rs) = outs_by rs" "outs_by (Killed # rs) = outs_by rs"
  by (simp_all add: results_by_def outs_by_def)

lemma startup_loop_collects:
  assumes "startup_loop rs n snap pend = (Collected s p, rest)"
  shows "s = snap @ startup_snapshot n rs \<and> p @ map snd (outs_by rest) = pend @ map snd (outs_by rs) \<and>
    set rest \<subseteq> set rs"
  using assms
  by (induction rs n snap pend rule: startup_loop.induct) (auto simp: startup_snapshot_def early_def)

lemma startup_loop_ends:
  assumes "Killed \<notin> set rs" "StartupDeadline \<in> set rs \<or> n \<le> length (results_by rs)"
  shows "\<exists>s p rest. startup_loop rs n snap pend = (Collected s p, rest)"
  using assms by (induction rs n snap pend rule: startup_loop.induct) auto

lemma send_changes_prefix:
  "\<exists>m. pc_changes (snd (send_changes sel bs c)) = pc_changes c @ take m bs \<and> (fst (send_changes sel bs c) \<longrightarrow> m = length bs)"
proof (induction bs arbitrary: c)
  case (Cons b bs)
  show ?case
  proof (cases "sel (length (pc_changes c))")
    case True
    obtain m where "pc_changes (snd (send_changes sel bs (c\<lparr>pc_changes := pc_changes c @ [b]\<rparr>))) = pc_changes c @ take (Suc m) (b # bs) \<and>
        (fst (send_changes sel bs (c\<lparr>pc_changes := pc_changes c @ [b]\<rparr>)) \<longrightarrow> m = length bs)"
      using Cons [of "c\<lparr>pc_changes := pc_changes c @ [b]\<rparr>"] by auto
    with True show ?thesis by (intro exI [of _ "Suc m"]) (simp add: send_change_def)
  qed (auto simp: send_change_def intro: exI [of _ 0])
qed simp

lemma send_changes_all: "(\<And>i. sel i) \<Longrightarrow> send_changes sel bs c = (True, c\<lparr>pc_changes := pc_changes c @ bs\<rparr>)"
  by (induction bs arbitrary: c) (simp_all add: send_change_def)

lemma pc_changes_containers [simp]:
  "pc_changes (startContainer n c) = pc_changes c" "pc_changes (stopContainer n c) = pc_changes c"
  "pc_changes (see_container n c) = pc_changes c" "pc_changes (finish_run c) = pc_changes c"
  by (simp_all add: startContainer_def stopContainer_def see_container_def finish_run_def split: option.split)

lemma pc_changes_folds [simp]:
  "pc_changes (fold startContainer ns c) = pc_changes c" "pc_changes (fold stopContainer ns c) = pc_changes c"
  "pc_changes (fold see_container ns c) = pc_changes c"
  by (induction ns arbitrary: c) simp_all

lemma pc_changes_scan [simp]: "pc_changes (pc_scan it entries c) = pc_changes c"
  by (simp add: pc_scan_def Let_def split: sum.split)

lemma incremental_prefix:
  "\<exists>m. pc_changes (snd (incremental_loop sel rs c)) = pc_changes c @ take m (map snd (outs_by rs))"
proof (induction sel rs c rule: incremental_loop.induct)
  case (3 sel who ev rs c)
  let ?c1 = "c\<lparr>pc_changes := pc_changes c @ [ev]\<rparr>"
  show ?case
  proof (cases "sel (length (pc_changes c))")
    case True
    then obtain m where "pc_changes (snd (incremental_loop sel rs ?c1)) = pc_changes ?c1 @ take m (map snd (outs_by rs))"
      using "3.IH" [of True ?c1] by (auto simp: send_change_def)
    with True show ?thesis by (intro exI [of _ "Suc m"]) (simp add: send_change_def)
  qed (auto simp: send_change_def intro: exI [of _ 0])
qed (auto simp: split_beta intro: exI [of _ 0])

lemma incremental_all:
  assumes "\<forall>i. sel i" "Killed \<notin> set rs"
  shows "pc_changes (snd (incremental_loop sel rs c)) = pc_changes c @ map snd (outs_by rs)"
  using assms
  by (induction sel rs c rule: incremental_loop.induct) (auto simp: send_change_def split_beta)

lemma run_changes:
  assumes "c = snd (client_run sel entries rounds (NewWithConfig cfg))" "n = length (scanDir entries)"
  shows "(\<exists>m. pc_changes c = take m (startup_snapshot n rounds # map snd (outs_by rounds))) \<and>
    ((\<forall>i. sel i) \<and> Killed \<notin> set rounds \<and> (StartupDeadline \<in> set rounds \<or> n \<le> length (results_by rounds)) \<longrightarrow>
       pc_changes c = startup_snapshot n rounds # map snd (outs_by rounds))"
proof -
  define c1 where "c1 = fold startContainer (scanDir entries) (NewWithConfig cfg)"
  have c1: "pc_changes c1 = []" by (simp add: c1_def NewWithConfig_def Let_def)
  obtain st rest where st: "startup_loop rounds n [] [] = (st, rest)" by fastforce
  show ?thesis
  proof (cases st)
    case (Collected s p)
    note L = startup_loop_collects [OF st [unfolded Collected]]
    then have all: "startup_snapshot n rounds # map snd (outs_by rounds) = (s # p) @ map snd (outs_by rest)" by simp
    obtain ok c2 where c2: "send_changes sel (s # p) c1 = (ok, c2)" by fastforce
    have c: "pc_changes c = pc_changes (if ok then snd (incremental_loop sel rest c2) else c2)"
      using assms st Collected c2 unfolding c1_def by (simp add: client_run_def split_beta)
    obtain k where k: "pc_changes c2 = take k (s # p)" "ok \<longrightarrow> k = length (s # p)"
      using send_changes_prefix [of sel "s # p" c1] c1 c2 by auto
    obtain j where j: "pc_changes (snd (incremental_loop sel rest c2)) = pc_changes c2 @ take j (map snd (outs_by rest))"
      using incremental_prefix by blast
    have "pc_changes c = take (if ok then length (s # p) + j else min k (length (s # p))) ((s # p) @ map snd (outs_by rest))"
      using c k j by (cases ok; cases "k \<le> length (s # p)") (simp_all add: take_append [of k "s # p", simplified] min_def)
    moreover have "pc_changes c = (s # p) @ map snd (outs_by rest)" if "\<forall>i. sel i" "Killed \<notin> set rounds"
    proof -
      have "ok" "pc_changes c2 = s # p" using send_changes_all [of sel "s # p" c1] that(1) c2 c1 by auto
      moreover have "Killed \<notin> set rest" using L that(2) by blast
      ultimately show ?thesis using c incremental_all [of sel rest c2] that(1) by simp
    qed
    ultimately show ?thesis unfolding all by blast
  next
    case Waiting
    with assms st c1 startup_loop_ends [of rounds n "[]" "[]"] show ?thesis
      unfolding c1_def by (auto simp: client_run_def intro: exI [of _ 0])
  next
    case Ended
    with assms st c1 startup_loop_ends [of rounds n "[]" "[]"] show ?thesis
      unfolding c1_def by (auto simp: client_run_def intro: exI [of _ 0])
  qed
qed

text \<open>
  C23. The channel starts with the snapshot and then has every batch in order. Whatever happens
  and in whatever order, the sends on the user's channel are the first ones of: the ports of the
  startup callbacks that posted before the deadline, in one batch, and then the batches of the
  watchers in the order they were taken. While the client is not killed, and once every callback
  has posted or the deadline has passed, they are all of them: none is lost, also of those that
  raced in during startup.
\<close>

theorem changes_in_order:
  assumes "c = snd (client_run sel entries rounds (NewWithConfig cfg))" "n = length (scanDir entries)"
  shows "(\<exists>m. pc_changes c = take m (startup_snapshot n rounds # map snd (outs_by rounds))) \<and>
    ((\<forall>i. sel i) \<and> Killed \<notin> set rounds \<and> (StartupDeadline \<in> set rounds \<or> n \<le> length (results_by rounds)) \<longrightarrow>
       pc_changes c = startup_snapshot n rounds # map snd (outs_by rounds))"
  by (rule run_changes [OF assms])

lemma changes_in_order_witness:
  "pc_changes (snd (client_run (\<lambda>_. True) (Inr [(''a'', False), (''b'', False)])
     [OutBatch ''a'' [''open:ipv4:a:80''], StartupResult ''a'' [''open:ipv4:a:22''], StartupDeadline,
      OutBatch ''a'' [''close:ipv4:a:22'']] (client_New []))) =
   [[''open:ipv4:a:22''], [''open:ipv4:a:80''], [''close:ipv4:a:22'']]"
  using changes_in_order [OF refl refl, of "\<lambda>_. True" "Inr [(''a'', False), (''b'', False)]"
     "[OutBatch ''a'' [''open:ipv4:a:80''], StartupResult ''a'' [''open:ipv4:a:22''], StartupDeadline,
      OutBatch ''a'' [''close:ipv4:a:22'']]" "\<lparr>cc_Dir = [], cc_ReconnectDelay = 0, cc_StartupTimeout = 0\<rparr>"]
  by (simp add: client_New_def scanDir_def startup_snapshot_def early_def)


section \<open>The containers are those of the directory\<close>

definition pc_ok :: "portsClient \<Rightarrow> bool" where
  "pc_ok c \<longleftrightarrow> finite (dom (pc_containers c)) \<and>
     (\<forall>n cw. pc_containers c n = Some cw \<longrightarrow> cw = newContainerWatcher n (path_join [cc_Dir (pc_cfg c), n]))"

lemma cfg_containers [simp]:
  "pc_cfg (startContainer n c) = pc_cfg c" "pc_cfg (stopContainer n c) = pc_cfg c" "pc_cfg (see_container n c) = pc_cfg c"
  by (simp_all add: startContainer_def stopContainer_def see_container_def split: option.split)

lemma container_views:
  "dom (pc_containers (see_container n c)) = insert n (dom (pc_containers c))"
  "dom (pc_containers (stopContainer n c)) = dom (pc_containers c) - {n}"
  by (auto simp: see_container_def startContainer_def stopContainer_def split: option.splits)

lemma container_ok: "pc_ok c \<Longrightarrow> pc_ok (see_container n c)" "pc_ok c \<Longrightarrow> pc_ok (stopContainer n c)"
  by (auto simp: pc_ok_def see_container_def startContainer_def stopContainer_def split: option.splits if_splits)

interpretation cmir: set_mirror "\<lambda>c. dom (pc_containers c)" see_container stopContainer pc_ok
  by unfold_locales (simp_all add: container_ok container_views subset_insertI)

text \<open>A watcher that is still wanted is neither restarted nor cancelled.\<close>

lemma see_keeps: "n \<in> dom (pc_containers c) \<Longrightarrow> pc_containers (fold see_container ns c) n = pc_containers c n"
proof (induction ns arbitrary: c)
  case (Cons m ns)
  then have "pc_containers (see_container m c) n = pc_containers c n"
    by (auto simp: see_container_def startContainer_def)
  with Cons show ?case by (metis domIff fold_simps(2))
qed simp

lemma stop_keeps: "n \<notin> set ns \<Longrightarrow> pc_containers (fold stopContainer ns c) n = pc_containers c n"
  by (induction ns arbitrary: c) (auto simp: stopContainer_def split: option.split)

lemma see_adds: "dom (pc_containers (fold see_container ns c)) = dom (pc_containers c) \<union> set ns \<and>
    (pc_ok c \<longrightarrow> pc_ok (fold see_container ns c)) \<and> pc_cancelled (fold see_container ns c) = pc_cancelled c"
  by (induction ns arbitrary: c) (auto simp: container_views container_ok, auto simp: see_container_def startContainer_def)

lemma stop_cancels: "distinct ns \<Longrightarrow> set ns \<subseteq> dom (pc_containers c) \<Longrightarrow>
    pc_cancelled (fold stopContainer ns c) = pc_cancelled c @ map (\<lambda>n. the (pc_containers c n)) ns"
proof (induction ns arbitrary: c)
  case (Cons n ns)
  then have d: "set ns \<subseteq> dom (pc_containers (stopContainer n c))" by (auto simp: container_views)
  have "the (pc_containers (stopContainer n c) m) = the (pc_containers c m)" if "m \<in> set ns" for m
    using that Cons.prems(1) by (auto simp: stopContainer_def split: option.split)
  then have "map (\<lambda>m. the (pc_containers (stopContainer n c) m)) ns = map (\<lambda>m. the (pc_containers c m)) ns" by simp
  with Cons.IH [OF _ d] Cons.prems show ?case by (auto simp: stopContainer_def)
qed simp

text \<open>
  The client watches exactly the sockets of the directory. A scan that lists the directory
  leaves one watcher for each entry that is not a directory, connected to the socket of that name,
  and no other; watchers of sockets still there are kept, never restarted, and exactly the watchers
  of the others are cancelled, each once. A scan that cannot list the directory changes nothing.
\<close>

theorem containers_mirror_directory:
  assumes "pc_ok c" "visits it" "seen = {n. (n, False) \<in> set es}" "c' = pc_scan it (Inr es) c"
  shows "dom (pc_containers c') = seen \<and>
    (\<forall>n \<in> seen. pc_containers c' n = Some (newContainerWatcher n (path_join [cc_Dir (pc_cfg c), n]))) \<and>
    (\<forall>n \<in> seen \<inter> dom (pc_containers c). pc_containers c' n = pc_containers c n) \<and>
    (\<exists>ns. distinct ns \<and> set ns = dom (pc_containers c) - seen \<and>
       pc_cancelled c' = pc_cancelled c @ map (\<lambda>n. the (pc_containers c n)) ns) \<and>
    pc_scan it (Inl e) c = c"
proof -
  define names where "names = map fst (filter (\<lambda>(name, isdir). \<not> isdir) es)"
  define c1 where "c1 = fold see_container names c"
  define ns where "ns = filter (\<lambda>n. n \<notin> set names) (it (dom (pc_containers c1)))"
  have c': "c' = fold stopContainer ns c1" using assms(4) by (simp add: pc_scan_def Let_def names_def c1_def ns_def)
  have seen: "set names = seen" using assms(3) by (force simp: names_def)
  note A = see_adds [of names c, folded c1_def]
  have it: "set (it (dom (pc_containers c1))) = dom (pc_containers c) \<union> seen" "distinct (it (dom (pc_containers c1)))"
    using A assms(1,2) seen by (auto simp: pc_ok_def visits_def)
  then have ns: "set ns = dom (pc_containers c) - seen" "distinct ns" using seen by (auto simp: ns_def)
  have ok: "pc_ok c'" "dom (pc_containers c') = seen"
    using cmir.removes_view [of c1 ns] A assms(1) ns(1) seen by (auto simp: c')
  have cfg: "pc_cfg (fold see_container xs d) = pc_cfg d" "pc_cfg (fold stopContainer xs d) = pc_cfg d" for xs d
    by (induction xs arbitrary: d) simp_all
  have "pc_containers c' n = pc_containers c n" if "n \<in> seen \<inter> dom (pc_containers c)" for n
    using that stop_keeps [of n ns c1] see_keeps [of n c names] ns(1) by (simp add: c' c1_def)
  moreover have "pc_cancelled c' = pc_cancelled c @ map (\<lambda>n. the (pc_containers c n)) ns"
  proof -
    have "the (pc_containers c1 n) = the (pc_containers c n)" if "n \<in> set ns" for n
      using that ns(1) see_keeps [of n c names] by (simp add: c1_def)
    then have "map (\<lambda>n. the (pc_containers c1 n)) ns = map (\<lambda>n. the (pc_containers c n)) ns" by simp
    moreover have "set ns \<subseteq> dom (pc_containers c1)" using A ns(1) by auto
    ultimately show ?thesis using stop_cancels [OF ns(2), of c1] A by (simp add: c')
  qed
  moreover have "pc_containers c' n = Some (newContainerWatcher n (path_join [cc_Dir (pc_cfg c), n]))" if "n \<in> seen" for n
  proof -
    have "n \<in> dom (pc_containers c')" using ok(2) that by simp
    then obtain cw where "pc_containers c' n = Some cw" by blast
    then show ?thesis using ok(1) cfg by (simp add: pc_ok_def c' c1_def)
  qed
  ultimately show ?thesis using ok(2) ns by (auto simp: pc_scan_def)
qed

lemma containers_mirror_directory_witness:
  "dom (pc_containers (pc_scan sorted_list_of_set (Inr [(''b'', False), (''tmp'', True)])
     (startContainer ''a'' (client_New [])))) = {''b''}"
proof -
  let ?c = "startContainer ''a'' (client_New [])"
  have "pc_ok ?c" by (simp add: pc_ok_def startContainer_def client_New_def NewWithConfig_def Let_def)
  moreover have "{n. (n, False) \<in> set [(''b'', False), (''tmp'', True)]} = {''b''}" by auto
  ultimately show ?thesis
    using containers_mirror_directory [of ?c sorted_list_of_set _ "[(''b'', False), (''tmp'', True)]"] visits_sorted [where 'a = string]
    by simp
qed


section \<open>The user's view\<close>

definition speaks :: "string \<Rightarrow> string \<Rightarrow> bool" where
  "speaks name ch \<longleftrightarrow> (\<exists>k. ch = makeChange ''open'' name k \<or> ch = makeChange ''close'' name k)"

definition speaks_all :: "string \<Rightarrow> string list list \<Rightarrow> bool" where
  "speaks_all name bs \<longleftrightarrow> (\<forall>b \<in> set bs. \<forall>ch \<in> set b. speaks name ch)"

text \<open>Container names in a port's text are determined, even names with colons.\<close>

lemma last_sep:
  assumes "xs @ c # ys = xs' @ c # ys'" "c \<notin> set ys" "c \<notin> set ys'"
  shows "xs = xs'"
proof -
  have "takeWhile (\<lambda>x. x \<noteq> c) (rev (zs @ c # ws)) = rev ws" if "c \<notin> set ws" for zs ws
    using that by (induction ws rule: rev_induct) auto
  then have "rev ys = rev ys'" using assms by metis
  with assms(1) show ?thesis by simp
qed

lemma port_text_name:
  assumes "port_text name k = port_text name' k'"
  shows "name = name'"
proof -
  have "drop 5 (port_text n j) = n @ CHR '':'' # itoa (unat (snd j))" for n j
    by (simp add: port_text_def)
  with assms have "name @ CHR '':'' # itoa (unat (snd k)) = name' @ CHR '':'' # itoa (unat (snd k'))" by metis
  then show ?thesis by (rule last_sep) simp_all
qed

lemma speaks_simps [simp]:
  "speaks name (makeChange ''open'' name k)" "speaks name (makeChange ''close'' name k)"
  unfolding speaks_def by blast+

lemma speaks_all_simps [simp]:
  "speaks_all name []" "speaks_all name (b # bs) \<longleftrightarrow> (\<forall>ch \<in> set b. speaks name ch) \<and> speaks_all name bs"
  "speaks_all name (bs @ cs) \<longleftrightarrow> speaks_all name bs \<and> speaks_all name cs"
  by (auto simp: speaks_all_def)

definition pw_speaks :: "port_watch \<times> containerWatcher \<Rightarrow> bool" where
  "pw_speaks s \<longleftrightarrow> speaks_all (cw_name (snd s)) (pw_calls (fst s)) \<and> speaks_all (cw_name (snd s)) (cw_emitted (snd s))"

lemma emit_speaks:
  "speaks_all name (cw_emitted cw) \<Longrightarrow> \<forall>ch \<in> set b. speaks name ch \<Longrightarrow> speaks_all name (cw_emitted (cw_emit b cw))"
  by (auto simp: cw_emit_def split: list.split bool.split)

lemma event_speaks: "pw_speaks s \<Longrightarrow> pw_speaks (ports_event its cb ev s) \<and> cw_name (snd (ports_event its cb ev s)) = cw_name (snd s)"
  by (cases s) (auto simp: ports_event_def on_sync_def ensureCB_def pw_speaks_def Let_def intro!: emit_speaks)

lemma read_speaks: "pw_speaks s \<Longrightarrow> pw_speaks (read_events cb es s) \<and> cw_name (snd (read_events cb es s)) = cw_name (snd s)"
proof (induction es arbitrary: s)
  case (Cons e es)
  with event_speaks [OF Cons.prems] show ?case by (cases e) simp
qed simp

lemma watchOnce_speaks:
  assumes "ports_watchOnce decode cb resp cw = (r, calls, cw')" "speaks_all (cw_name cw) (cw_emitted cw)"
  shows "speaks_all (cw_name cw) calls \<and> speaks_all (cw_name cw) (cw_emitted cw') \<and> cw_name cw' = cw_name cw"
proof (cases resp)
  case (PortStream ls ok)
  have "pw_speaks (port_watch0, cw)" using assms(2) by (simp add: pw_speaks_def port_watch0_def)
  moreover obtain pw1 where "read_events cb (decoded decode ls) (port_watch0, cw) = (pw1, cw')"
    "calls = pw_calls (ensureCB cb [] pw1)"
    using assms(1) PortStream by (auto simp: ports_watchOnce_def ports_lines_fold split: prod.splits)
  ultimately show ?thesis using read_speaks [of "(port_watch0, cw)" cb "decoded decode ls"]
    by (auto simp: pw_speaks_def ensureCB_def)
qed (use assms in \<open>auto simp: ports_watchOnce_def split: if_splits\<close>)

lemma connections_speak:
  assumes "cw_connections decode cb rs cw = (calls, cw')" "speaks_all (cw_name cw) (cw_emitted cw)"
  shows "speaks_all (cw_name cw) calls \<and> speaks_all (cw_name cw) (cw_emitted cw')"
  using assms
proof (induction rs arbitrary: cb cw calls)
  case (Cons r rs)
  obtain x c1 cw1 where w: "ports_watchOnce decode cb r cw = (x, c1, cw1)" by (metis prod_cases3)
  obtain c2 where n: "cw_connections decode False rs cw1 = (c2, cw')" "calls = c1 @ c2"
    using Cons.prems(1) w by (auto split: prod.splits)
  show ?case using Cons.IH [OF n(1)] watchOnce_speaks [OF w Cons.prems(2)] n(2) by simp
qed simp

text \<open>What one container's changes do to the ports of another: nothing.\<close>

lemma apply_change_other:
  assumes "speaks m ch"
  shows "m \<noteq> n \<Longrightarrow> apply_change ch V \<inter> range (port_text n) = V \<inter> range (port_text n)"
    "apply_change ch V \<inter> range (port_text m) = apply_change ch (V \<inter> range (port_text m)) \<inter> range (port_text m)"
    "apply_change ch V \<subseteq> V \<union> range (port_text m)"
  using assms port_text_name by (fastforce simp: speaks_def)+


definition of_sender :: "string \<Rightarrow> (string \<times> string list) list \<Rightarrow> string list list" where
  "of_sender n tg = map snd (filter (\<lambda>e. fst e = n) tg)"

lemma of_sender_simps [simp]:
  "of_sender n [] = []" "of_sender n (e # tg) = (if fst e = n then snd e # of_sender n tg else of_sender n tg)"
  "of_sender n (xs @ ys) = of_sender n xs @ of_sender n ys"
  by (simp_all add: of_sender_def)

lemma changes_other:
  assumes "\<forall>ch \<in> set b. speaks m ch"
  shows "m \<noteq> n \<Longrightarrow> fold apply_change b V \<inter> range (port_text n) = V \<inter> range (port_text n)"
    "fold apply_change b V \<inter> range (port_text m) = fold apply_change b (V \<inter> range (port_text m)) \<inter> range (port_text m)"
    "fold apply_change b V \<subseteq> V \<union> range (port_text m)"
  using assms
proof (induction b arbitrary: V)
  case (Cons ch b)
  { case 1 with Cons.IH(1) [of "apply_change ch V"] apply_change_other(1) [of m ch n V] show ?case by simp }
  { case 2
    with Cons.IH(2) [of "apply_change ch V"] Cons.IH(2) [of "apply_change ch (V \<inter> range (port_text m))"]
      apply_change_other(2) [of m ch V] show ?case by simp }
  { case 3 with Cons.IH(3) [of "apply_change ch V"] apply_change_other(3) [of m ch V] show ?case by auto }
qed simp_all

lemma view_by_sender:
  assumes "\<forall>(m, b) \<in> set tg. m \<in> N \<and> (\<forall>ch \<in> set b. speaks m ch)"
  shows "user_view (map snd tg) V \<inter> range (port_text n) = user_view (of_sender n tg) (V \<inter> range (port_text n)) \<inter> range (port_text n) \<and>
    user_view (map snd tg) V \<subseteq> V \<union> (\<Union>m \<in> N. range (port_text m))"
  using assms
proof (induction tg arbitrary: V)
  case (Cons e tg)
  obtain m b where e: "e = (m, b)" by fastforce
  have b: "\<forall>ch \<in> set b. speaks m ch" "m \<in> N" using Cons.prems e by auto
  define W where "W = fold apply_change b V"
  have cons: "user_view (b # bs) U = user_view bs (fold apply_change b U)" for bs U by (simp add: user_view_def)
  have IH: "user_view (map snd tg) U \<inter> range (port_text n) = user_view (of_sender n tg) (U \<inter> range (port_text n)) \<inter> range (port_text n)"
    "user_view (map snd tg) U \<subseteq> U \<union> (\<Union>m \<in> N. range (port_text m))" for U
    using Cons.IH [of U] Cons.prems by auto
  note C = changes_other [OF b(1)]
  have sp: "speaks_all n (of_sender n tg)" using Cons.prems by (auto simp: speaks_all_def of_sender_def)
  have own: "user_view bs U \<inter> range (port_text n) = user_view bs (U \<inter> range (port_text n)) \<inter> range (port_text n)"
    if "speaks_all n bs" for bs U
  proof -
    have "\<forall>ch \<in> set (concat bs). speaks n ch" using that by (auto simp: speaks_all_def)
    from changes_other(2) [OF this, of U] show ?thesis by (simp add: user_view_def)
  qed
  have "user_view (of_sender n tg) (W \<inter> range (port_text n)) \<inter> range (port_text n) =
      user_view (of_sender n (e # tg)) (V \<inter> range (port_text n)) \<inter> range (port_text n)"
  proof (cases "m = n")
    case True
    have "user_view (of_sender n tg) (fold apply_change b (V \<inter> range (port_text n)) \<inter> range (port_text n)) \<inter> range (port_text n) =
        user_view (of_sender n tg) (fold apply_change b (V \<inter> range (port_text n))) \<inter> range (port_text n)"
      using own [OF sp] by simp
    with True C(2) [of V] e show ?thesis by (simp add: W_def cons)
  next
    case False
    with C(1) [of n V] e show ?thesis by (simp add: W_def)
  qed
  moreover have "W \<subseteq> V \<union> (\<Union>m \<in> N. range (port_text m))" using C(3) [of V] b(2) by (auto simp: W_def)
  ultimately show ?case using IH [of W] e cons by (auto simp: W_def)
qed (simp add: user_view_def)


lemma new_watcher:
  assumes "list_all (honest decode) rs" "cw_connections decode cb rs (newContainerWatcher n sock) = (calls, cw)"
  shows "consistent calls cw \<and> length calls = (if cb \<and> rs \<noteq> [] then 1 else 0) \<and> cw_name cw = n"
    "speaks_all n calls \<and> speaks_all n (cw_emitted cw)"
  using connections_consistent [OF new_consistent _ assms] connections_speak [OF assms(2)]
  by (auto simp: newContainerWatcher_def)

lemma UN_split: "X \<subseteq> (\<Union>n \<in> N. R n) \<Longrightarrow> X = (\<Union>n \<in> N. X \<inter> R n)"
  by auto

lemma view_of_containers:
  assumes "\<forall>(m, b) \<in> set tg. m \<in> N \<and> (\<forall>ch \<in> set b. speaks m ch)"
    and "\<And>n. n \<in> N \<Longrightarrow> user_view (of_sender n tg) {} = port_text n ` D n"
  shows "user_view (map snd tg) {} = (\<Union>n \<in> N. port_text n ` D n)"
proof -
  note V = view_by_sender [OF assms(1), of "{}", unfolded Int_empty_left Un_empty_left]
  have T: "user_view (map snd tg) {} \<inter> range (port_text n) = port_text n ` D n" if "n \<in> N" for n
    using V [of n] assms(2) [OF that] by auto
  have "user_view (map snd tg) {} = (\<Union>n \<in> N. user_view (map snd tg) {} \<inter> range (port_text n))"
    using V by (intro UN_split) simp
  also have "\<dots> = (\<Union>n \<in> N. port_text n ` D n)" using T by (intro SUP_cong) simp_all
  finally show ?thesis .
qed

lemma results_length:
  assumes "distinct ns" "fst ` set tg \<subseteq> set ns" "\<forall>n \<in> set ns. length (of_sender n tg) = 1"
  shows "length tg = length ns"
proof -
  have "count_list (map fst tg) n = length (of_sender n tg)" for n by (induction tg) auto
  then have "length tg = (\<Sum>n \<in> set ns. length (of_sender n tg))"
    using sum_count_set [of "map fst tg" "set ns"] assms(2) by simp
  also have "\<dots> = length ns" using assms(1,3) by (simp add: distinct_card)
  finally show ?thesis .
qed

text \<open>
  C14. The user of a client sees the ports of all containers. Let each container of a set, those
  present at the start with a startup callback and those found later without one, have gone
  through any connections, and let the main goroutine have taken what their watchers posted, in
  any interleaving, the callbacks' results before the deadline. Then the ports open for the user
  are exactly the ports counted by the containers' watchers, whichever containers share port
  numbers.
\<close>

theorem client_view_is_containers:
  assumes "initial = scanDir entries" "distinct initial" "set initial \<subseteq> N" "\<forall>n \<in> set initial. conns n \<noteq> []"
    and "\<forall>n \<in> N. list_all (honest decode) (conns n) \<and>
      cw_connections decode (n \<in> set initial) (conns n) (newContainerWatcher n (sock n)) = (calls n, cw n)"
    and "\<forall>i. sel i" "Killed \<notin> set rounds" "results_by rounds = results_by (early rounds)"
    and "fst ` set (results_by rounds @ outs_by rounds) \<subseteq> N"
    and "\<forall>n \<in> N. of_sender n (results_by rounds) = calls n \<and> of_sender n (outs_by rounds) = cw_emitted (cw n)"
  shows "user_view (pc_changes (snd (client_run sel entries rounds (NewWithConfig cfg)))) {} =
    (\<Union>n \<in> N. port_text n ` dom (cw_portCounts (cw n)))"
proof -
  let ?tg = "results_by rounds @ outs_by rounds"
  have con: "consistent (calls n) (cw n) \<and> length (calls n) = (if n \<in> set initial then 1 else 0) \<and> cw_name (cw n) = n"
    and spk: "speaks_all n (calls n) \<and> speaks_all n (cw_emitted (cw n))" if "n \<in> N" for n
    using new_watcher [of decode "conns n" "n \<in> set initial" n "sock n"] assms(4,5) that by auto
  have tags: "m \<in> N \<and> (\<forall>ch \<in> set b. speaks m ch)" if "(m, b) \<in> set ?tg" for m b
  proof -
    have "m \<in> N" using that assms(9) by (metis fst_conv imageI subsetD)
    moreover have "b \<in> set (of_sender m ?tg)" using that by (force simp: of_sender_def)
    ultimately show ?thesis using spk [of m] assms(10) by (auto simp: speaks_all_def)
  qed
  have "m \<in> set initial" if "(m, b) \<in> set (results_by rounds)" for m b
  proof -
    have "b \<in> set (of_sender m (results_by rounds))" using that by (force simp: of_sender_def)
    moreover have "m \<in> N" using that tags by auto
    ultimately show ?thesis using con [of m] assms(10) by (auto split: if_splits)
  qed
  then have len: "length (results_by rounds) = length initial"
    using con assms(3,10) by (intro results_length [OF assms(2)]) auto
  let ?c = "snd (client_run sel entries rounds (NewWithConfig cfg))"
  have "pc_changes ?c = startup_snapshot (length initial) rounds # map snd (outs_by rounds)"
    using run_changes [OF refl refl, of sel entries rounds cfg] assms(1,6,7) len by auto
  moreover have "startup_snapshot (length initial) rounds = concat (map snd (results_by rounds))"
    using len assms(8) by (simp add: startup_snapshot_def)
  ultimately have view: "user_view (pc_changes ?c) {} = user_view (map snd ?tg) {}" by (simp add: user_view_def)
  have "user_view (of_sender n ?tg) {} = port_text n ` dom (cw_portCounts (cw n))" if "n \<in> N" for n
    using con [OF that] assms(10) that by (auto simp: consistent_def texts_def)
  with tags have "user_view (map snd ?tg) {} = (\<Union>n \<in> N. port_text n ` dom (cw_portCounts (cw n)))"
    by (intro view_of_containers) blast+
  with view show ?thesis by simp
qed


text \<open>A container present at the start whose only socket is announced in its first stream.\<close>

abbreviation demo_cw :: containerWatcher where
  "demo_cw \<equiv> newContainerWatcher ''a'' ''/peel/lo/a''"

lemma demo_connection:
  "cw_connections demo_decode True [demo_stream] demo_cw =
     ([[makeChange ''open'' ''a'' (port_of demo_listen)]], demo_cw\<lparr>cw_portCounts := [port_of demo_listen \<mapsto> 1]\<rparr>)"
proof -
  let ?its = "(sorted_list_of_set, sorted_list_of_set) :: orders"
  have c: "snapshot_counts {demo_listen} = [port_of demo_listen \<mapsto> 1]"
    using counts_insert [of "{}" demo_listen] by (simp add: snapshot_counts_def count_of_def fun_eq_iff split: if_splits)
  have "ports_lines demo_decode True [(demo_encode (add_event demo_listen), ?its), (demo_encode sync_event, ?its)] (port_watch0, demo_cw) =
      (\<lparr>pw_incoming = {demo_listen}, pw_synced = True, pw_fired = True,
         pw_calls = [[makeChange ''open'' ''a'' (port_of demo_listen)]]\<rparr>, demo_cw\<lparr>cw_portCounts := [port_of demo_listen \<mapsto> 1]\<rparr>)"
    unfolding ports_lines_fold demo_decoded
    by (simp add: ports_event_def on_sync_def ensureCB_def event_defs port_watch0_def c newContainerWatcher_def)
  then show ?thesis by (simp add: demo_stream_def ports_watchOnce_def ensureCB_def)
qed


lemma client_view_is_containers_witness:
  "user_view (pc_changes (snd (client_run (\<lambda>_. True) (Inr [(''a'', False)])
     [StartupResult ''a'' [makeChange ''open'' ''a'' (port_of demo_listen)]] (client_New [])))) {} =
   {port_text ''a'' (port_of demo_listen)}"
proof -
  let ?rounds = "[StartupResult ''a'' [makeChange ''open'' ''a'' (port_of demo_listen)]]"
  have "scanDir (Inr [(''a'', False)]) = [''a'']" by (simp add: scanDir_def)
  note T = client_view_is_containers [OF this [symmetric], of "{''a''}" "\<lambda>_. [demo_stream]" demo_decode "\<lambda>_. ''/peel/lo/a''"
      "\<lambda>_. [[makeChange ''open'' ''a'' (port_of demo_listen)]]" "\<lambda>_. demo_cw\<lparr>cw_portCounts := [port_of demo_listen \<mapsto> 1]\<rparr>"
      "\<lambda>_. True" ?rounds]
  have "\<forall>n \<in> {''a''}. list_all (honest demo_decode) [demo_stream] \<and>
      cw_connections demo_decode (n \<in> set [''a'']) [demo_stream] (newContainerWatcher n ''/peel/lo/a'') =
        ([[makeChange ''open'' ''a'' (port_of demo_listen)]], demo_cw\<lparr>cw_portCounts := [port_of demo_listen \<mapsto> 1]\<rparr>)"
    using demo_connection demo_honest by (simp del: cw_connections.simps)
  from T [OF _ _ _ this] show ?thesis
    by (simp add: client_New_def early_def newContainerWatcher_def)
qed

text \<open>
  C40. A container that answers late is not reported. When the startup deadline passes before any
  container has answered, the user gets an empty snapshot, and nothing the callbacks post
  afterwards reaches him; a watcher that was given a callback and then reads a snapshot and the
  sync marker emits no batch either, so that ports open at that time stay unreported until they
  are closed, however many they are.
\<close>

theorem late_results_dropped:
  assumes "scanDir entries \<noteq> []" "\<forall>r \<in> set late. \<exists>who ports. r = StartupResult who ports"
    and "decode (enc sync_event) = Some sync_event" "\<forall>l \<in> set ls. decode (enc (add_event l)) = Some (add_event l)"
    and "cw_connections decode True [PortStream (map (\<lambda>ev. (enc ev, its)) (map add_event ls @ [sync_event])) ok]
      (newContainerWatcher name sock) = (calls, cw)"
  shows "pc_changes (snd (client_run (\<lambda>_. True) entries (StartupDeadline # late) (NewWithConfig cfg))) = [[]] \<and>
    cw_emitted cw = [] \<and> dom (cw_portCounts cw) = port_of ` set ls"
proof -
  have "outs_by late = []" using assms(2) by (induction late) auto
  moreover have "Killed \<notin> set late" using assms(2) by auto
  ultimately have "pc_changes (snd (client_run (\<lambda>_. True) entries (StartupDeadline # late) (NewWithConfig cfg))) = [[]]"
    using run_changes [OF refl refl, of "\<lambda>_. True" entries "StartupDeadline # late" cfg]
    by (simp add: startup_snapshot_def early_def)
  moreover
  let ?evs = "map add_event ls @ [sync_event]" and ?new = "newContainerWatcher name sock"
  have "decoded decode (map (\<lambda>ev. (enc ev, its)) ?evs) = map (\<lambda>ev. (ev, its)) ?evs"
    using decoded_encoded [of "map (\<lambda>ev. (ev, its)) ?evs" decode enc] assms(3,4) by (simp add: comp_def)
  then have "cw = snd (read_events True (map (\<lambda>ev. (ev, its)) ?evs) (port_watch0, ?new))"
    using assms(5) by (simp add: ports_watchOnce_def ports_lines_fold split_beta del: map_map map_append)
  moreover have "read_events True (map (\<lambda>l. (add_event l, its)) ls) (pw, w) = (pw\<lparr>pw_incoming := pw_incoming pw \<union> set ls\<rparr>, w)"
    if "\<not> pw_synced pw" for pw w
    using that by (induction ls arbitrary: pw) (auto simp: ports_event_def add_event_def Let_def)
  ultimately show ?thesis
    using snapshot_dom [of "set ls"]
    by (simp add: comp_def port_watch0_def ports_event_def sync_event_def on_sync_def ensureCB_def newContainerWatcher_def)
qed


lemma late_results_dropped_witness:
  "pc_changes (snd (client_run (\<lambda>_. True) (Inr [(''a'', False)])
     [StartupDeadline, StartupResult ''a'' [makeChange ''open'' ''a'' (port_of demo_listen)]] (client_New []))) = [[]] \<and>
   dom (cw_portCounts (snd (cw_connections demo_decode True [demo_stream] demo_cw))) = {port_of demo_listen}"
proof -
  let ?its = "(sorted_list_of_set, sorted_list_of_set) :: orders"
  have st: "demo_stream = PortStream (map (\<lambda>ev. (demo_encode ev, ?its)) (map add_event [demo_listen] @ [sync_event])) False"
    by (simp add: demo_stream_def)
  obtain calls cw where c: "cw_connections demo_decode True [demo_stream] demo_cw = (calls, cw)" by fastforce
  have "scanDir (Inr [(''a'', False)]) \<noteq> []" by (simp add: scanDir_def)
  from late_results_dropped [OF this _ _ _ c [unfolded st], of "[StartupResult ''a'' [makeChange ''open'' ''a'' (port_of demo_listen)]]"]
  show ?thesis using demo_codec c by (simp add: client_New_def del: cw_connections.simps)
qed

end
