(* ===== verification/Config.thy ===== *)
theory Config
  imports FileSys
begin

text \<open>
  The configuration file, \<open>internal/config/config.go\<close>. A slice is \<open>None\<close> when it is nil. JSON
  decoding is an argument (\<open>unmarshal\<close>).
\<close>

section \<open>Data\<close>

record Config =
  c_Image :: string
  c_Platform :: string
  c_Insecure :: bool
  c_Username :: string
  c_Password :: string
  c_Auth :: string
  c_IdentityToken :: string
  c_RegistryToken :: string
  c_Entrypoint :: "string list option"
  c_Cmd :: "string list option"
  c_Env :: "string list option"
  c_WorkingDir :: string
  c_User :: string

definition config_DefaultPath :: string where
  "config_DefaultPath = ''/peel/config.json''"

record wireConfig =
  wire_image :: string
  wire_platform :: string
  wire_insecure :: string
  wire_username :: string
  wire_password :: string
  wire_auth :: string
  wire_identity_token :: string
  wire_registry_token :: string
  wire_working_dir :: string
  wire_user :: string
  wire_entrypoint :: "string list option"
  wire_cmd :: "string list option"
  wire_env :: "string list option"

text \<open>The elements of a slice; a nil slice has none.\<close>

definition elems :: "'a list option \<Rightarrow> 'a list" where
  "elems s = (case s of None \<Rightarrow> [] | Some xs \<Rightarrow> xs)"

section \<open>Loading\<close>

datatype config_error = ConfigUnreadable errno | ConfigMalformed | ImageRequired

definition parseBool :: "string \<Rightarrow> bool" where
  "parseBool s \<longleftrightarrow> to_lower (trim_space s) \<in> {''true'', ''1'', ''yes''}"

definition orNil :: "string list option \<Rightarrow> string list option" where
  "orNil s = (if elems s = [] then None else s)"

definition config_Load ::
  "(byte list \<Rightarrow> wireConfig option) \<Rightarrow> fs \<Rightarrow> string \<Rightarrow> (config_error, Config) result"
where
  "config_Load unmarshal fs path =
     (case read_file fs (kcomps path) of
        Inl e \<Rightarrow> Inl (ConfigUnreadable e)
      | Inr b \<Rightarrow>
          (case unmarshal b of
             None \<Rightarrow> Inl ConfigMalformed
           | Some w \<Rightarrow>
               if wire_image w = [] then Inl ImageRequired
               else Inr \<lparr>c_Image = wire_image w, c_Platform = wire_platform w,
                 c_Insecure = parseBool (wire_insecure w), c_Username = wire_username w,
                 c_Password = wire_password w, c_Auth = wire_auth w,
                 c_IdentityToken = wire_identity_token w, c_RegistryToken = wire_registry_token w,
                 c_Entrypoint = orNil (wire_entrypoint w), c_Cmd = orNil (wire_cmd w),
                 c_Env = orNil (wire_env w), c_WorkingDir = wire_working_dir w, c_User = wire_user w\<rparr>))"

section \<open>Well-formed configurations\<close>

text \<open>What the rest of the program may assume of a configuration.\<close>

definition wf_config :: "Config \<Rightarrow> bool" where
  "wf_config cfg \<longleftrightarrow> c_Image cfg \<noteq> [] \<and>
     c_Entrypoint cfg \<noteq> Some [] \<and> c_Cmd cfg \<noteq> Some [] \<and> c_Env cfg \<noteq> Some []"

lemma orNil_simps [simp]: "orNil s \<noteq> Some []" "elems (orNil s) = elems s"
  by (auto simp: orNil_def elems_def split: option.splits)

lemma config_Load_wf: "config_Load unmarshal fs path = Inr cfg \<Longrightarrow> wf_config cfg"
  by (auto simp: config_Load_def wf_config_def split: sum.splits option.splits if_splits)

end
