(* ===== verification/Rootfs.thy ===== *)
theory Rootfs
  imports FileSys
begin

unbundle bit_operations_syntax

text \<open>
  Unpacking image layers: \<open>internal/rootfs/extract.go\<close>. A layer is the sequence of items the tar
  reader returns: a header with the bytes of its body (and whether they could all be read), or
  a read error. Every function returns the file system it leaves behind together with the error,
  since a failed step may have changed it.
\<close>

section \<open>Tar entries\<close>

datatype typeflag =
    TypeReg | TypeRegA | TypeLink | TypeSymlink | TypeChar | TypeBlock | TypeDir | TypeFifo
  | TypeXHeader | TypeXGlobalHeader | TypeGNULongName | TypeGNULongLink | TypeOther char

record tar_header =
  h_name :: string
  h_type :: typeflag
  h_linkname :: string
  h_mode :: "64 word"
  h_uid :: int
  h_gid :: int
  h_devmajor :: "64 word"
  h_devminor :: "64 word"
  h_modtime :: "int option"
  h_pax :: "(string \<times> string) list"

datatype tar_item = TarEntry tar_header "byte list" bool | TarError

datatype rootfs_error =
    ReadingTar
  | OpaqueFailed string errno
  | WhiteoutFailed string errno
  | ExtractFailed string errno
  | CopyFailed string

section \<open>Protected paths\<close>

definition whiteoutPrefix :: string where
  "whiteoutPrefix = ''.wh.''"

definition whiteoutOpaque :: string where
  "whiteoutOpaque = ''.wh..wh..opq''"

definition protectedFiles :: "string list" where
  "protectedFiles = [''sbin/init'']"

definition mustRemainDirs :: "string list" where
  "mustRemainDirs = [''sbin'', ''peel'']"

definition protectedDirs :: "string list" where
  "protectedDirs = [''peel'']"

definition isProtected :: "string \<Rightarrow> bool" where
  "isProtected rel0 =
     (let rel = trim_prefix rel0 ''/'' in
      if rel = [] then False
      else if rel \<in> set protectedFiles then True
      else list_ex (\<lambda>d. rel = d \<or> has_prefix rel (d @ ''/'')) protectedDirs)"

section \<open>Modes\<close>

text \<open>
  Go's \<open>fs.FileMode\<close> has the permission bits of Unix in its low nine bits only; set-user-id,
  set-group-id and sticky are its bits 23, 22 and 20. \<open>os\<close> translates a mode for the kernel so:
\<close>

definition syscall_mode :: "uint32 \<Rightarrow> uint32" where
  "syscall_mode m =
     (m AND 0x1FF) OR (if bit m 23 then 0x800 else 0) OR (if bit m 22 then 0x400 else 0)
       OR (if bit m 20 then 0x200 else 0)"

definition hdr_perm :: "tar_header \<Rightarrow> uint32" where
  "hdr_perm hdr = ucast (h_mode hdr AND 0xFFF)"

text \<open>\<open>unix.Mkdev\<close>.\<close>

definition mkdev :: "uint32 \<Rightarrow> uint32 \<Rightarrow> nat" where
  "mkdev mj mn =
     (let mj' = ucast mj :: 64 word; mn' = ucast mn :: 64 word in
      unat (push_bit 8 (mj' AND 0xFFF) OR push_bit 32 (mj' AND 0xFFFFF000)
        OR (mn' AND 0xFF) OR push_bit 12 (mn' AND 0xFFFFFF00)))"

section \<open>Extraction\<close>

text \<open>\<open>filepath.Join(root, rel)\<close> as the kernel walks it.\<close>

definition under :: "string \<Rightarrow> string \<Rightarrow> string list" where
  "under root rel = kcomps (path_join [root, rel])"

definition applyXattrs :: "string list \<Rightarrow> tar_header \<Rightarrow> fs \<Rightarrow> fs" where
  "applyXattrs target hdr fs =
     fold (\<lambda>(k, v) fs.
        if has_prefix k ''SCHILY.xattr.'' then lsetxattr fs target (trim_prefix k ''SCHILY.xattr.'') v
        else fs) (h_pax hdr) fs"

definition setTimes :: "string list \<Rightarrow> int option \<Rightarrow> fs \<Rightarrow> fs" where
  "setTimes target t fs = (case t of None \<Rightarrow> fs | Some ns \<Rightarrow> utimes_nofollow fs target ns)"

text \<open>The link target of a hard link entry, relative to the root.\<close>

definition link_rel :: "tar_header \<Rightarrow> string" where
  "link_rel hdr = trim_prefix (path_clean (''/'' @ h_linkname hdr)) ''/''"

text \<open>
  Makes the object an entry describes (the \<open>switch\<close> of \<open>extractEntry\<close>). \<open>None\<close> in the first
  component: the entry is of a kind that is skipped, and the function returns.
\<close>

definition make_node ::
  "string \<Rightarrow> string \<Rightarrow> tar_header \<Rightarrow> byte list \<Rightarrow> bool \<Rightarrow> fs \<Rightarrow> rootfs_error option option \<times> fs"
where
  "make_node root rel hdr body ok fs =
     (let target = under root rel;
          fail = (\<lambda>(r, fs'). (Some (map_option (ExtractFailed (h_name hdr)) r), fs'))
      in case h_type hdr of
        TypeDir \<Rightarrow> fail (mkdir_all fs target (syscall_mode (hdr_perm hdr)))
      | TypeReg \<Rightarrow>
          (case open_trunc fs target (syscall_mode (hdr_perm hdr)) of
             (Inl e, fs1) \<Rightarrow> (Some (Some (ExtractFailed (h_name hdr) e)), fs1)
           | (Inr i, fs1) \<Rightarrow>
               (Some (if ok then None else Some (CopyFailed (h_name hdr))),
                upd_inode i (set_content body) fs1))
      | TypeRegA \<Rightarrow>
          (case open_trunc fs target (syscall_mode (hdr_perm hdr)) of
             (Inl e, fs1) \<Rightarrow> (Some (Some (ExtractFailed (h_name hdr) e)), fs1)
           | (Inr i, fs1) \<Rightarrow>
               (Some (if ok then None else Some (CopyFailed (h_name hdr))),
                upd_inode i (set_content body) fs1))
      | TypeSymlink \<Rightarrow> fail (symlink fs (h_linkname hdr) target)
      | TypeLink \<Rightarrow> fail (link fs (under root (link_rel hdr)) target)
      | TypeChar \<Rightarrow>
          fail (mknod fs target (Chr (mkdev (ucast (h_devmajor hdr)) (ucast (h_devminor hdr))))
            (hdr_perm hdr))
      | TypeBlock \<Rightarrow>
          fail (mknod fs target (Blk (mkdev (ucast (h_devmajor hdr)) (ucast (h_devminor hdr))))
            (hdr_perm hdr))
      | TypeFifo \<Rightarrow> fail (mknod fs target Fifo (hdr_perm hdr))
      | TypeXHeader \<Rightarrow> (None, fs)
      | TypeXGlobalHeader \<Rightarrow> (None, fs)
      | TypeGNULongName \<Rightarrow> (None, fs)
      | TypeGNULongLink \<Rightarrow> (None, fs)
      | TypeOther c \<Rightarrow> (None, fs))"

text \<open>Owner, mode, extended attributes and time; failures here are only logged.\<close>

definition set_attributes :: "string list \<Rightarrow> tar_header \<Rightarrow> fs \<Rightarrow> fs" where
  "set_attributes target hdr fs =
     (let fs1 = lchown fs target (h_uid hdr) (h_gid hdr);
          fs2 = (if h_type hdr \<noteq> TypeSymlink then chmod fs1 target (syscall_mode (hdr_perm hdr)) else fs1);
          fs3 = applyXattrs target hdr fs2
      in setTimes target (h_modtime hdr) fs3)"

text \<open>An entry in the way of the new one is removed, unless both are directories.\<close>

definition clear_way :: "string \<Rightarrow> string \<Rightarrow> tar_header \<Rightarrow> fs \<Rightarrow> errno option \<times> fs" where
  "clear_way root rel hdr fs =
     (case lstat fs (under root rel) of
        Inl e \<Rightarrow> (None, fs)
      | Inr i \<Rightarrow>
          if h_type hdr = TypeDir \<and> is_dir fs i then (None, fs)
          else remove_all fs (under root rel))"

definition extractEntry ::
  "string \<Rightarrow> string \<Rightarrow> tar_header \<Rightarrow> byte list \<Rightarrow> bool \<Rightarrow> fs \<Rightarrow> rootfs_error option \<times> fs"
where
  "extractEntry root rel hdr body ok fs =
     (case mkdir_all fs (kcomps (path_dir (path_join [root, rel]))) 0x1ED of
        (Some e, fs1) \<Rightarrow> (Some (ExtractFailed (h_name hdr) e), fs1)
      | (None, fs1) \<Rightarrow>
          (case clear_way root rel hdr fs1 of
             (Some e, fs2) \<Rightarrow> (Some (ExtractFailed (h_name hdr) e), fs2)
           | (None, fs2) \<Rightarrow>
               (case make_node root rel hdr body ok fs2 of
                  (None, fs3) \<Rightarrow> (None, fs3)
                | (Some (Some e), fs3) \<Rightarrow> (Some e, fs3)
                | (Some None, fs3) \<Rightarrow> (None, set_attributes (under root rel) hdr fs3))))"

section \<open>Whiteouts\<close>

text \<open>The loop of \<open>clearDir\<close> over the names in the directory.\<close>

fun clear_names :: "string \<Rightarrow> string \<Rightarrow> string list \<Rightarrow> fs \<Rightarrow> errno option \<times> fs" where
  "clear_names dirPath relDir [] fs = (None, fs)"
| "clear_names dirPath relDir (n # ns) fs =
     (if isProtected (path_join [relDir, n]) then clear_names dirPath relDir ns fs
      else
        (case remove_all fs (kcomps (path_join [dirPath, n])) of
           (Some e, fs1) \<Rightarrow> (Some e, fs1)
         | (None, fs1) \<Rightarrow> clear_names dirPath relDir ns fs1))"

definition clearDir :: "string \<Rightarrow> string \<Rightarrow> fs \<Rightarrow> errno option \<times> fs" where
  "clearDir dirPath relDir fs =
     (case read_dir fs (kcomps dirPath) of
        Inl e \<Rightarrow> (if e = ENOENT then None else Some e, fs)
      | Inr names \<Rightarrow> clear_names dirPath relDir names fs)"

section \<open>A layer\<close>

definition entry_rel :: "tar_header \<Rightarrow> string" where
  "entry_rel hdr = trim_prefix (path_clean (''/'' @ h_name hdr)) ''/''"

definition rel_dir :: "string \<Rightarrow> string" where
  "rel_dir rel = (let d = path_dir rel in if d = ''.'' then [] else d)"

text \<open>The name a whiteout entry deletes.\<close>

definition whiteout_target :: "string \<Rightarrow> string" where
  "whiteout_target rel =
     path_join [rel_dir rel, trim_prefix (path_base rel) whiteoutPrefix]"

text \<open>The body of the loop of \<open>ApplyLayer\<close> for one entry.\<close>

definition apply_entry ::
  "string \<Rightarrow> tar_header \<Rightarrow> byte list \<Rightarrow> bool \<Rightarrow> fs \<Rightarrow> rootfs_error option \<times> fs"
where
  "apply_entry root hdr body ok fs =
     (let rel = entry_rel hdr in
      if rel = [] \<or> rel = ''.'' then (None, fs)
      else
        let dir = rel_dir rel; base = path_base rel in
        if base = whiteoutOpaque then
          (if isProtected dir then (None, fs)
           else case clearDir (path_join [root, dir]) dir fs of
                  (Some e, fs1) \<Rightarrow> (Some (OpaqueFailed dir e), fs1)
                | (None, fs1) \<Rightarrow> (None, fs1))
        else if has_prefix base whiteoutPrefix then
          (let deleted = whiteout_target rel in
           if isProtected deleted \<or> deleted \<in> set mustRemainDirs then (None, fs)
           else case remove_all fs (under root deleted) of
                  (Some e, fs1) \<Rightarrow> (Some (WhiteoutFailed deleted e), fs1)
                | (None, fs1) \<Rightarrow> (None, fs1))
        else if isProtected rel then (None, fs)
        else if rel \<in> set mustRemainDirs \<and> h_type hdr \<noteq> TypeDir then (None, fs)
        else extractEntry root rel hdr body ok fs)"

fun ApplyLayer :: "string \<Rightarrow> tar_item list \<Rightarrow> fs \<Rightarrow> rootfs_error option \<times> fs" where
  "ApplyLayer root [] fs = (None, fs)"
| "ApplyLayer root (TarError # items) fs = (Some ReadingTar, fs)"
| "ApplyLayer root (TarEntry hdr body ok # items) fs =
     (case apply_entry root hdr body ok fs of
        (Some e, fs1) \<Rightarrow> (Some e, fs1)
      | (None, fs1) \<Rightarrow> ApplyLayer root items fs1)"

end
