(* ===== verification/RootfsSafety.thy ===== *)
theory RootfsSafety
  imports Rootfs FileTree
begin

text \<open>
  What keeps peel's own files safe from a layer: the protected part of the tree, elementary
  changes outside it (\<open>mut\<close>), and the proof that every step of \<open>ApplyLayer\<close> is a sequence of such
  changes as long as the entry does not lead through a symbolic link, does not wipe the root
  directory and does not alias a protected file.
\<close>

section \<open>The protected part of the tree\<close>

definition prot_elems :: "string list \<Rightarrow> bool" where
  "prot_elems es \<longleftrightarrow> es = [''sbin'', ''init''] \<or> (es \<noteq> [] \<and> hd es = ''peel'')"

definition prot_inos :: "fs \<Rightarrow> ino set" where
  "prot_inos fs = {i. \<exists>p. prot_elems p \<and> phys fs root_ino p = Some i}"

lemma prot_inosI: "phys fs root_ino p = Some i \<Longrightarrow> prot_elems p \<Longrightarrow> i \<in> prot_inos fs"
  unfolding prot_inos_def by blast

lemma prot_elems_simps [simp]:
  "prot_elems (''peel'' # p)" "prot_elems [''sbin'', ''init'']" "\<not> prot_elems []"
  by (simp_all add: prot_elems_def)

text \<open>peel is installed: \<open>/sbin/init\<close> is a regular file in the directory \<open>/sbin\<close>, \<open>/peel\<close> is a directory.\<close>

definition installed :: "fs \<Rightarrow> bool" where
  "installed fs \<longleftrightarrow>
     (case entry fs root_ino ''sbin'' of
        None \<Rightarrow> False
      | Some s \<Rightarrow>
          (case entry fs s ''init'' of
             None \<Rightarrow> False
           | Some i \<Rightarrow> \<not> is_dir fs i \<and> symlink_target fs i = None)) \<and>
     (case entry fs root_ino ''peel'' of None \<Rightarrow> False | Some p \<Rightarrow> is_dir fs p)"

text \<open>The protected part is the same in both: names, contents and attributes.\<close>

definition guarded :: "fs \<Rightarrow> fs \<Rightarrow> bool" where
  "guarded fs fs' \<longleftrightarrow>
     (\<forall>i \<in> prot_inos fs. f_inodes fs' i = f_inodes fs i) \<and>
     entry fs' root_ino ''peel'' = entry fs root_ino ''peel'' \<and>
     entry fs' root_ino ''sbin'' = entry fs root_ino ''sbin'' \<and>
     (\<forall>s. entry fs root_ino ''sbin'' = Some s \<longrightarrow> entry fs' s ''init'' = entry fs s ''init'')"

lemma installed_parts:
  assumes "installed fs"
  obtains s i p where "entry fs root_ino ''sbin'' = Some s" "entry fs s ''init'' = Some i"
    "\<not> is_dir fs i" "symlink_target fs i = None" "entry fs root_ino ''peel'' = Some p" "is_dir fs p"
  using assms by (auto simp: installed_def split: option.splits)

lemma phys_under_peel:
  assumes "\<forall>i \<in> prot_inos fs. f_inodes fs' i = f_inodes fs i"
    and "phys fs root_ino (''peel'' # p) = Some j"
  shows "phys fs' j q = phys fs j q"
  using assms(2)
proof (induction q arbitrary: j p)
  case (Cons c cs)
  then have "j \<in> prot_inos fs" by (auto intro: prot_inosI [of fs "''peel'' # p"])
  with assms(1) have e: "entry fs' j c = entry fs j c"
    by (simp add: entry_def dir_entries_def)
  show ?case
  proof (cases "entry fs j c")
    case (Some k)
    with Cons.prems have "phys fs root_ino (''peel'' # (p @ [c])) = Some k"
      using phys_snoc [of fs root_ino "''peel'' # p" c] by simp
    with Cons.IH Some e show ?thesis by simp
  qed (use e in simp)
qed simp

lemma guarded_phys:
  assumes "guarded fs fs'" "prot_elems p"
  shows "phys fs' root_ino p = phys fs root_ino p"
proof (cases "p = [''sbin'', ''init'']")
  case True
  with assms(1) show ?thesis by (auto simp: guarded_def split: option.splits)
next
  case False
  with assms(2) obtain q where q: "p = ''peel'' # q" by (cases p) (auto simp: prot_elems_def)
  show ?thesis
  proof (cases "entry fs root_ino ''peel''")
    case None
    with q assms(1) show ?thesis by (simp add: guarded_def)
  next
    case (Some j)
    then have "phys fs' j q = phys fs j q"
      using assms(1) phys_under_peel [of fs fs' "[]" j q] by (simp add: guarded_def)
    with q Some assms(1) show ?thesis by (simp add: guarded_def)
  qed
qed

lemma guarded_prot_inos: "guarded fs fs' \<Longrightarrow> prot_inos fs' = prot_inos fs"
  by (auto simp: prot_inos_def guarded_phys)

lemma guarded_refl [simp]: "guarded fs fs"
  by (simp add: guarded_def)

lemma guarded_trans:
  assumes "guarded a b" "guarded b c"
  shows "guarded a c"
  using assms guarded_prot_inos [OF assms(1)] by (auto simp: guarded_def)

section \<open>Changes outside it\<close>

text \<open>An entry a layer may set or delete.\<close>

definition open_entry :: "fs \<Rightarrow> ino \<Rightarrow> string \<Rightarrow> bool" where
  "open_entry fs d n \<longleftrightarrow>
     is_dir fs d \<and> proper n \<and> d \<notin> prot_inos fs \<and> \<not> (d = root_ino \<and> n \<in> {''sbin'', ''peel''}) \<and>
     \<not> (entry fs root_ino ''sbin'' = Some d \<and> n = ''init'')"

inductive mut :: "fs \<Rightarrow> fs \<Rightarrow> bool" where
  m_del: "open_entry fs d n \<Longrightarrow> mut fs (del_entry d n fs)"
| m_create: "open_entry fs d n \<Longrightarrow> (\<forall>es. nd = Dir es \<longrightarrow> es = []) \<Longrightarrow> mut fs (create_at d n nd m fs)"
| m_link: "open_entry fs d n \<Longrightarrow> i \<in> dom (f_inodes fs) \<Longrightarrow> \<not> is_dir fs i \<Longrightarrow> i \<noteq> root_ino \<Longrightarrow>
     mut fs (set_entry d n i fs)"
| m_attr: "i \<notin> prot_inos fs \<Longrightarrow> (\<And>x. same_shape x (f x)) \<Longrightarrow> mut fs (upd_inode i f fs)"

definition inv :: "fs \<Rightarrow> bool" where
  "inv fs \<longleftrightarrow> wf_fs fs \<and> installed fs"

lemma prot_inos_dom:
  assumes "wf_fs fs" "i \<in> prot_inos fs"
  shows "i \<in> dom (f_inodes fs)" "i < f_next fs"
proof -
  from assms(2) obtain p where "phys fs root_ino p = Some i" unfolding prot_inos_def by blast
  then show "i \<in> dom (f_inodes fs)" by (rule phys_dom [OF assms(1)])
  with assms(1) show "i < f_next fs" unfolding wf_fs_def by blast
qed

lemma mut_guarded:
  assumes "mut fs fs'" "wf_fs fs" "installed fs"
  shows "guarded fs fs'"
  using assms
proof (cases rule: mut.cases)
  case (m_create d n nd m)
  then have "d \<noteq> f_next fs" "root_ino \<noteq> f_next fs"
    using assms(2) is_dir_dom [of fs d] is_dir_dom [of fs root_ino] by (auto simp: wf_fs_def open_entry_def)
  moreover have "s \<noteq> f_next fs" if "entry fs root_ino ''sbin'' = Some s" for s
    using wf_fs_entry [OF assms(2) that] by simp
  moreover have "f_next fs \<notin> prot_inos fs" using prot_inos_dom(2) [OF assms(2)] by blast
  then have "f_inodes fs' i = f_inodes fs i" if "i \<in> prot_inos fs" for i
    using m_create that unfolding open_entry_def by (metis f_inodes_other(4))
  ultimately show ?thesis
    using m_create unfolding guarded_def open_entry_def by (simp add: create_at_simps) blast
next
  case (m_del d n)
  then have "f_inodes fs' i = f_inodes fs i" if "i \<in> prot_inos fs" for i
    using that unfolding open_entry_def by (metis f_inodes_other(2))
  with m_del show ?thesis unfolding guarded_def open_entry_def by auto
next
  case (m_link d n i)
  then have "f_inodes fs' j = f_inodes fs j" if "j \<in> prot_inos fs" for j
    using that unfolding open_entry_def by (metis f_inodes_other(3))
  with m_link show ?thesis unfolding guarded_def open_entry_def by auto
next
  case (m_attr i f)
  then have "f_inodes fs' j = f_inodes fs j" if "j \<in> prot_inos fs" for j
    using that by (metis f_inodes_other(1))
  with m_attr show ?thesis unfolding guarded_def by (simp add: upd_inode_shape)
qed

lemma mut_wf: "mut fs fs' \<Longrightarrow> wf_fs fs \<Longrightarrow> wf_fs fs'"
  by (erule mut.cases; simp only: open_entry_def)
    (blast intro: wf_fs_del wf_fs_link wf_fs_create wf_fs_attr)+

lemma guarded_installed:
  assumes "guarded fs fs'" "installed fs"
  shows "installed fs'"
proof -
  from assms(2) obtain s i p where
    *: "entry fs root_ino ''sbin'' = Some s" "entry fs s ''init'' = Some i"
      "\<not> is_dir fs i" "symlink_target fs i = None" "entry fs root_ino ''peel'' = Some p" "is_dir fs p"
    by (rule installed_parts)
  then have "phys fs root_ino [''sbin'', ''init''] = Some i" "phys fs root_ino [''peel''] = Some p"
    by simp_all
  then have "i \<in> prot_inos fs" "p \<in> prot_inos fs"
    by (blast intro: prot_inosI prot_elems_simps)+
  with assms(1) have same: "f_inodes fs' i = f_inodes fs i" "f_inodes fs' p = f_inodes fs p"
    by (auto simp: guarded_def)
  then have "\<not> is_dir fs' i" "symlink_target fs' i = None" "is_dir fs' p"
    using * by (simp_all add: is_dir_def dir_entries_def symlink_target_def)
  with assms(1) * show ?thesis by (simp add: installed_def guarded_def)
qed

text \<open>Any number of such changes.\<close>

definition harmless :: "fs \<Rightarrow> fs \<Rightarrow> bool" where
  "harmless fs fs' \<longleftrightarrow> inv fs \<longrightarrow> inv fs' \<and> guarded fs fs'"

lemma harmless_refl [simp, intro]: "harmless fs fs"
  by (simp add: harmless_def)

lemma harmless_mut: "mut fs fs' \<Longrightarrow> harmless fs fs'"
  unfolding harmless_def inv_def using mut_guarded mut_wf guarded_installed by blast

lemma harmless_trans [trans]: "harmless a b \<Longrightarrow> harmless b c \<Longrightarrow> harmless a c"
  using guarded_trans by (auto simp: harmless_def)

section \<open>Paths a layer may change\<close>

definition allowed :: "string list \<Rightarrow> bool" where
  "allowed es \<longleftrightarrow> es \<noteq> [] \<and> \<not> prot_elems es \<and> es \<noteq> [''sbin'']"

lemma inv_wf: "inv fs \<Longrightarrow> wf_fs fs"
  by (simp add: inv_def)

lemma allowed_open:
  assumes "inv fs" "located fs es d" "allowed es"
  shows "open_entry fs d (last es)"
proof -
  from assms(2) have d: "phys fs root_ino (butlast es) = Some d" "is_dir fs d" and ne: "es \<noteq> []"
    and pr: "proper (last es)"
    by (auto simp: located_def list_all_iff)
  have es: "es = butlast es @ [last es]" using ne by simp
  have uniq: "p = butlast es" if "phys fs root_ino p = Some d" for p
    using phys_dir_inj [OF inv_wf [OF assms(1)] that d] .
  from assms(1) obtain s i p where inst: "entry fs root_ino ''sbin'' = Some s" "entry fs s ''init'' = Some i"
    "\<not> is_dir fs i" by (auto simp: inv_def elim: installed_parts)
  have "d \<notin> prot_inos fs"
  proof
    assume "d \<in> prot_inos fs"
    then obtain p where p: "prot_elems p" "phys fs root_ino p = Some d" unfolding prot_inos_def by blast
    have "p \<noteq> [''sbin'', ''init'']" using p(2) inst d(2) by auto
    with p(1) have "p \<noteq> []" "hd p = ''peel''" by (auto simp: prot_elems_def)
    with uniq [OF p(2)] es have "prot_elems es" by (metis hd_append2 ne prot_elems_def)
    with assms(3) show False by (simp add: allowed_def)
  qed
  moreover have "\<not> (d = root_ino \<and> last es \<in> {''sbin'', ''peel''})"
  proof
    assume *: "d = root_ino \<and> last es \<in> {''sbin'', ''peel''}"
    then have "butlast es = []" using uniq [of "[]"] by simp
    with es have "es = [last es]" by simp
    with * have "es = [''sbin''] \<or> es = [''peel'']" by auto
    with assms(3) show False by (auto simp: allowed_def)
  qed
  moreover have "\<not> (entry fs root_ino ''sbin'' = Some d \<and> last es = ''init'')"
  proof
    assume *: "entry fs root_ino ''sbin'' = Some d \<and> last es = ''init''"
    then have "butlast es = [''sbin'']" using uniq [of "[''sbin'']"] by simp
    with * es have "es = [''sbin'', ''init'']" by simp
    with assms(3) show False by (simp add: allowed_def)
  qed
  ultimately show ?thesis using d(2) pr by (simp add: open_entry_def)
qed

text \<open>A missing name outside \<open>/peel\<close> is never one of the protected ones.\<close>

lemma missing_allowed:
  assumes "inv fs" "located fs es d" "entry fs d (last es) = None" "hd es \<noteq> ''peel''"
  shows "allowed es"
proof -
  have "phys fs root_ino es = None" using located_phys [OF assms(2)] assms(3) by simp
  moreover from assms(1) obtain s i p where "entry fs root_ino ''sbin'' = Some s" "entry fs s ''init'' = Some i"
    by (auto simp: inv_def elim: installed_parts)
  ultimately have "es \<noteq> [''sbin'']" "es \<noteq> [''sbin'', ''init'']" by auto
  with assms(2,4) show ?thesis by (auto simp: allowed_def prot_elems_def located_def)
qed

section \<open>The system calls on such paths\<close>

lemma remove_all_harmless:
  assumes "inv fs" "plain fs es" "list_all proper es" "allowed es" "remove_all fs es = (r, fs')"
  shows "harmless fs fs'"
    and "located fs es d \<Longrightarrow> located fs' es d"
    and "located fs es d \<Longrightarrow> entry fs' d (last es) = None"
proof -
  have ne: "es \<noteq> []" using assms(4) by (simp add: allowed_def)
  have *: "fs' = fs \<or> (\<exists>d. located fs es d \<and> fs' = del_entry d (last es) fs)"
  proof (cases "resolve fs es False")
    case (Inl e)
    with assms(5) show ?thesis by (auto simp: remove_all_def)
  next
    case (Inr x)
    obtain d n y where x: "x = (d, n, y)" by (cases x) auto
    note loc = resolve_located [OF assms(2,3) ne Inr [unfolded x]]
    have "y \<noteq> Some root_ino" using loc wf_fs_entry(1) [OF inv_wf [OF assms(1)]] by auto
    with assms(5) Inr x loc show ?thesis by (auto simp: remove_all_def split: option.splits if_splits)
  qed
  then show "harmless fs fs'"
    using allowed_open [OF assms(1) _ assms(4)] by (auto intro: harmless_mut m_del)
  assume loc: "located fs es d"
  show "located fs' es d"
    using * loc located_del [OF inv_wf [OF assms(1)] loc]
    by (auto simp: located_def)
  have "resolve fs es False = Inr (d, last es, entry fs d (last es))"
    using located_resolve [OF loc] by simp
  moreover have "entry fs d (last es) \<noteq> Some root_ino"
    using wf_fs_entry(1) [OF inv_wf [OF assms(1)]] by auto
  ultimately show "entry fs' d (last es) = None"
    using assms(5) by (auto simp: remove_all_def split: option.splits if_splits)
qed

lemma create_harmless:
  assumes "inv fs" "located fs es d" "allowed es" "\<forall>xs. nd = Dir xs \<longrightarrow> xs = []"
  shows "harmless fs (create_at d (last es) nd m fs)"
    and "located (create_at d (last es) nd m fs) es d"
    and "entry (create_at d (last es) nd m fs) d (last es) = Some (f_next fs)"
proof -
  show "harmless fs (create_at d (last es) nd m fs)"
    using allowed_open [OF assms(1-3)] assms(4) by (intro harmless_mut m_create) auto
  show "located (create_at d (last es) nd m fs) es d"
    by (rule located_create [OF inv_wf [OF assms(1)] assms(2)])
  have "is_dir fs d" using assms(2) by (simp add: located_def)
  then show "entry (create_at d (last es) nd m fs) d (last es) = Some (f_next fs)"
    using dir_not_next [OF inv_wf [OF assms(1)]] by (simp add: create_at_simps)
qed

lemma mkdir_missing_harmless:
  assumes "inv fs" "located fs (es @ [c]) d" "is_dir fs d" "hd (es @ [c]) \<noteq> ''peel''" "entry fs d c = None"
  shows "\<exists>fs' i. mkdir fs (es @ [c]) m = (None, fs') \<and> harmless fs fs' \<and> plain fs' (es @ [c, x]) \<and>
    phys fs' root_ino (es @ [c]) = Some i \<and> is_dir fs' i"
proof -
  let ?es = "es @ [c]" and ?m = "m AND NOT (f_umask fs)"
  let ?fs' = "create_at d c (Dir []) ?m fs"
  have "resolve fs ?es False = Inr (d, c, None)"
    using located_resolve [OF assms(2)] assms(5) by simp
  then have mk: "mkdir fs ?es m = (None, ?fs')"
    by (simp add: mkdir_def create_new_def)
  have al: "allowed ?es" using missing_allowed [OF assms(1,2) _ assms(4)] assms(5) by simp
  note cr = create_harmless [OF assms(1,2) al, of "Dir []" ?m, simplified]
  have dir: "is_dir ?fs' (f_next fs)" "phys ?fs' root_ino ?es = Some (f_next fs)"
    using cr located_phys [OF cr(2)]
      create_at_simps(1) [OF assms(3) dir_not_next [OF inv_wf [OF assms(1)] assms(3)]]
    by auto
  then have "plain ?fs' (?es @ [x])"
    using plain_extend [of ?fs' ?es x] cr(2) is_dir_not_symlink by (auto simp: located_def)
  with mk cr(1) dir show ?thesis by auto
qed

lemma mkdir_all_rev_harmless:
  assumes "inv fs" "plain fs (rev rs @ [x])" "list_all proper rs" "rs = [] \<or> last rs \<noteq> ''peel''"
    and "mkdir_all_rev fs m rs = (r, fs')"
  shows "harmless fs fs' \<and>
    (r = None \<longrightarrow> plain fs' (rev rs @ [x]) \<and> (\<exists>d. phys fs' root_ino (rev rs) = Some d \<and> is_dir fs' d))"
  using assms
proof (induction rs arbitrary: x r fs')
  case Nil
  then show ?case by (auto split: if_splits)
next
  case (Cons c rs)
  let ?es = "rev rs @ [c]"
  have pr: "list_all proper ?es" using Cons.prems(3) by simp
  have pl: "plain fs ?es" using plain_prefix Cons.prems(2) by fastforce
  have pe: "hd ?es \<noteq> ''peel''" using Cons.prems(4) by (cases rs rule: rev_cases) auto
  show ?case
  proof (cases "stat fs ?es")
    case (Inr i)
    then have "lstat fs ?es = Inr i" using stat_lstat [OF _ pr] Cons.prems(2) by simp
    then obtain d n where "resolve fs ?es False = Inr (d, n, Some i)"
      by (auto simp: lstat_def found_def split: sum.splits option.splits)
    from resolve_located [OF pl pr _ this] have "phys fs root_ino ?es = Some i"
      using located_phys by fastforce
    with Inr Cons.prems(2,5) show ?thesis by (auto split: if_splits)
  next
    case (Inl e)
    obtain r1 fs1 where rec: "mkdir_all_rev fs m rs = (r1, fs1)" by fastforce
    with Cons.IH [OF Cons.prems(1) pl _ _ rec] Cons.prems(3,4)
    have IH: "harmless fs fs1" "r1 = None \<Longrightarrow> plain fs1 ?es"
      "r1 = None \<Longrightarrow> \<exists>d. phys fs1 root_ino (rev rs) = Some d \<and> is_dir fs1 d"
      by (auto split: if_splits)
    show ?thesis
    proof (cases r1)
      case (Some e')
      with Inl rec IH(1) Cons.prems(5) show ?thesis by auto
    next
      case None
      then obtain d where d: "phys fs1 root_ino (rev rs) = Some d" "is_dir fs1 d" using IH(3) by blast
      have loc: "located fs1 ?es d" using IH(2) None d pr by (simp add: located_def)
      have inv1: "inv fs1" using IH(1) Cons.prems(1) by (simp add: harmless_def)
      have res: "resolve fs1 ?es False = Inr (d, c, entry fs1 d c)"
        using located_resolve [OF loc] by simp
      show ?thesis
      proof (cases "entry fs1 d c")
        case (Some j)
        with res have "mkdir fs1 ?es m = (Some EEXIST, fs1)" "lstat fs1 ?es = Inr j"
          by (simp_all add: mkdir_def create_new_def lstat_def found_def)
        moreover have "phys fs1 root_ino ?es = Some j" using located_phys [OF loc] Some by simp
        moreover have "plain fs1 (?es @ [x])" if "is_dir fs1 j"
          using plain_extend [of fs1 ?es x] IH(2) None \<open>phys fs1 root_ino ?es = Some j\<close>
            is_dir_not_symlink [OF that] by simp
        ultimately show ?thesis
          using Inl rec None IH(1) Cons.prems(5) by (auto split: if_splits)
      next
        case absent: None
        obtain fs2 i where mk: "mkdir fs1 ?es m = (None, fs2)" "harmless fs1 fs2" "plain fs2 (?es @ [x])"
            "phys fs2 root_ino ?es = Some i" "is_dir fs2 i"
          using mkdir_missing_harmless [OF inv1 loc d(2) pe absent, of m x] by auto
        then show ?thesis
          using Inl rec None IH(1) Cons.prems(5) harmless_trans by auto
      qed
    qed
  qed
qed

lemma mkdir_all_harmless:
  assumes "inv fs" "plain fs (es @ [x])" "list_all proper es" "es = [] \<or> hd es \<noteq> ''peel''"
    and "mkdir_all fs es m = (r, fs')"
  shows "harmless fs fs'"
    and "r = None \<Longrightarrow> plain fs' (es @ [x]) \<and> (\<exists>d. phys fs' root_ino es = Some d \<and> is_dir fs' d)"
  using mkdir_all_rev_harmless [of fs "rev es" x m r fs'] assms
  by (auto simp: mkdir_all_def last_rev)

section \<open>Path strings of a layer entry\<close>

lemma under_root: "list_all proper es \<Longrightarrow> es \<noteq> [] \<Longrightarrow> under ''/'' (join_with ''/'' es) = es"
  by (simp add: under_def path_join_root kcomps_join)

lemma parent_root:
  "list_all proper es \<Longrightarrow> es \<noteq> [] \<Longrightarrow>
   kcomps (path_dir (path_join [''/'', join_with ''/'' es])) =
     butlast es @ (if butlast es = [] then [''.''] else [])"
  by (simp add: path_join_root path_dir_root_join kcomps_join list_all_iff in_set_butlastD)

lemma join_inj:
  "list_all proper es \<Longrightarrow> list_all proper fs \<Longrightarrow> es \<noteq> [] \<Longrightarrow> fs \<noteq> [] \<Longrightarrow>
   join_with ''/'' es = join_with ''/'' fs \<longleftrightarrow> es = fs"
  by (metis split_join)

lemma split_on_pre: "split_on CHR ''/'' (''peel/'' @ t) = ''peel'' # split_on CHR ''/'' t"
  using split_on_append [of "CHR ''/''" "''peel''" t] by simp

lemma has_prefix_peel:
  assumes "list_all proper es" "es \<noteq> []"
  shows "has_prefix (join_with ''/'' es) ''peel/'' \<longleftrightarrow> hd es = ''peel'' \<and> tl es \<noteq> []"
proof
  assume "has_prefix (join_with ''/'' es) ''peel/''"
  then obtain t where "join_with ''/'' es = ''peel/'' @ t"
    unfolding has_prefix_def by (metis append_take_drop_id)
  then have "es = ''peel'' # split_on CHR ''/'' t" using split_join [OF assms] split_on_pre by metis
  then show "hd es = ''peel'' \<and> tl es \<noteq> []" by simp
next
  assume "hd es = ''peel'' \<and> tl es \<noteq> []"
  then obtain c cs where "es = ''peel'' # c # cs" by (metis list.collapse assms(2))
  then show "has_prefix (join_with ''/'' es) ''peel/''" by (simp add: has_prefix_def)
qed

lemma isProtected_join:
  assumes "list_all proper es"
  shows "isProtected (join_with ''/'' es) \<longleftrightarrow> prot_elems es"
proof (cases "es = []")
  case True
  then show ?thesis by (simp add: isProtected_def trim_prefix_def has_prefix_def)
next
  case False
  have np: "\<not> has_prefix (join_with ''/'' es) ''/''"
    using join_hd [OF assms False] join_not_Nil [OF assms False]
    by (cases "join_with ''/'' es") (auto simp: has_prefix_def)
  have "join_with ''/'' es = ''sbin/init'' \<longleftrightarrow> es = [''sbin'', ''init'']"
    using join_inj [OF assms, of "[''sbin'', ''init'']"] False by (simp add: proper_def)
  moreover have "join_with ''/'' es = ''peel'' \<longleftrightarrow> es = [''peel'']"
    using join_inj [OF assms, of "[''peel'']"] False by (simp add: proper_def)
  moreover have "es = [''peel''] \<or> (hd es = ''peel'' \<and> tl es \<noteq> []) \<longleftrightarrow> hd es = ''peel''"
    using False by (cases es) auto
  ultimately show ?thesis
    using False join_not_Nil [OF assms False] has_prefix_peel [OF assms False] np
    by (auto simp: isProtected_def protectedFiles_def protectedDirs_def trim_prefix_def prot_elems_def Let_def)
qed

lemma mustRemain_join:
  assumes "list_all proper es" "es \<noteq> []"
  shows "join_with ''/'' es \<in> set mustRemainDirs \<longleftrightarrow> es = [''sbin''] \<or> es = [''peel'']"
  using join_inj [OF assms(1), of "[''sbin'']"] join_inj [OF assms(1), of "[''peel'']"] assms(2)
  by (auto simp: mustRemainDirs_def proper_def)

lemma rel_dir_join: "list_all proper es \<Longrightarrow> es \<noteq> [] \<Longrightarrow> rel_dir (join_with ''/'' es) = join_with ''/'' (butlast es)"
proof -
  assume *: "list_all proper es" "es \<noteq> []"
  then have b: "list_all proper (butlast es)" by (auto simp: list_all_iff dest: in_set_butlastD)
  have "join_with ''/'' (butlast es) \<noteq> ''.''" if ne: "butlast es \<noteq> []"
  proof
    assume "join_with ''/'' (butlast es) = ''.''"
    with split_join [OF b ne] have "butlast es = [''.'']" by simp
    with b show False by (simp add: proper_def)
  qed
  with * b show ?thesis by (auto simp: rel_dir_def path_dir_join Let_def)
qed

section \<open>Extraction\<close>

text \<open>A file made at an allowed path: its attributes may be set.\<close>

definition ready :: "fs \<Rightarrow> string list \<Rightarrow> ino \<Rightarrow> ino \<Rightarrow> bool" where
  "ready fs es d i \<longleftrightarrow> inv fs \<and> located fs es d \<and> entry fs d (last es) = Some i \<and> i \<notin> prot_inos fs"

lemma ready_attr:
  assumes "ready fs es d i" "\<And>x. same_shape x (f x)"
  shows "harmless fs (upd_inode i f fs)" "ready (upd_inode i f fs) es d i"
    "symlink_target (upd_inode i f fs) j = symlink_target fs j"
proof -
  show h: "harmless fs (upd_inode i f fs)"
    using assms by (intro harmless_mut m_attr) (auto simp: ready_def)
  then have "inv (upd_inode i f fs)" "prot_inos (upd_inode i f fs) = prot_inos fs"
    using assms(1) guarded_prot_inos by (auto simp: harmless_def ready_def)
  then show "ready (upd_inode i f fs) es d i"
    using assms by (simp add: ready_def located_attr upd_inode_shape)
  show "symlink_target (upd_inode i f fs) j = symlink_target fs j"
    by (rule upd_inode_shape(2) [OF assms(2)])
qed

lemma ready_change:
  assumes "ready fs es d i" "\<And>x. same_shape x (f x)" "follow \<longrightarrow> symlink_target fs i = None"
  shows "harmless fs (change fs es follow f)" "ready (change fs es follow f) es d i"
    "symlink_target (change fs es follow f) j = symlink_target fs j"
proof -
  have "resolve fs es follow = Inr (d, last es, Some i)"
    using located_resolve [of fs es d follow] assms(1,3) by (auto simp: ready_def)
  then have "change fs es follow f = upd_inode i f fs" by (simp add: change_def found_def)
  with ready_attr [OF assms(1,2)] show "harmless fs (change fs es follow f)"
    "ready (change fs es follow f) es d i"
    "symlink_target (change fs es follow f) j = symlink_target fs j"
    by auto
qed

lemma fold_ready:
  assumes "\<And>x fs. ready fs es d i \<Longrightarrow> harmless fs (g x fs) \<and> ready (g x fs) es d i"
  shows "ready fs es d i \<Longrightarrow> harmless fs (fold g xs fs) \<and> ready (fold g xs fs) es d i"
proof (induction xs arbitrary: fs)
  case (Cons x xs)
  with assms have "harmless fs (g x fs)" "ready (g x fs) es d i" by blast+
  with Cons.IH [of "g x fs"] show ?case by (auto intro: harmless_trans)
qed simp

lemma lsetxattr_ready:
  "ready fs es d i \<Longrightarrow> harmless fs (lsetxattr fs es k v) \<and> ready (lsetxattr fs es k v) es d i"
  unfolding lsetxattr_def by (auto intro!: ready_change simp: same_shape_def)

lemma applyXattrs_ready:
  assumes "ready fs es d i"
  shows "harmless fs (applyXattrs es hdr fs)" "ready (applyXattrs es hdr fs) es d i"
  unfolding applyXattrs_def
  using fold_ready [OF _ assms, of "\<lambda>(k, v) fs.
        if has_prefix k ''SCHILY.xattr.'' then lsetxattr fs es (trim_prefix k ''SCHILY.xattr.'') v
        else fs" "h_pax hdr"] lsetxattr_ready
  by (auto split: prod.splits)

lemma set_attributes_harmless:
  assumes "ready fs es d i" "h_type hdr \<noteq> TypeSymlink \<longrightarrow> symlink_target fs i = None"
  shows "harmless fs (set_attributes es hdr fs)"
proof -
  define fs1 where "fs1 = lchown fs es (h_uid hdr) (h_gid hdr)"
  define fs2 where "fs2 = (if h_type hdr \<noteq> TypeSymlink then chmod fs1 es (syscall_mode (hdr_perm hdr)) else fs1)"
  define fs3 where "fs3 = applyXattrs es hdr fs2"
  have 1: "harmless fs fs1" "ready fs1 es d i" "symlink_target fs1 i = symlink_target fs i"
    unfolding fs1_def lchown_def using assms(1) by (auto intro!: ready_change simp: same_shape_def)
  have 2: "harmless fs1 fs2" "ready fs2 es d i"
    unfolding fs2_def chmod_def using 1 assms(2) by (auto intro!: ready_change simp: same_shape_def)
  have 3: "harmless fs2 fs3" "ready fs3 es d i"
    unfolding fs3_def using applyXattrs_ready [OF 2(2)] by auto
  have "harmless fs3 (setTimes es (h_modtime hdr) fs3)"
    using 3(2) by (auto simp: setTimes_def utimes_nofollow_def same_shape_def
        intro!: ready_change split: option.splits)
  with 1(1) 2(1) 3(1) have "harmless fs (setTimes es (h_modtime hdr) fs3)"
    using harmless_trans by blast
  then show ?thesis
    by (simp add: set_attributes_def Let_def fs1_def [symmetric] fs2_def [symmetric] fs3_def [symmetric])
qed

text \<open>
  Making the object: afterwards its attributes may be set. For a hard link this needs the
  linked file to be an unprotected one and no symbolic link.
\<close>

definition link_ok :: "fs \<Rightarrow> tar_header \<Rightarrow> bool" where
  "link_ok fs hdr \<longleftrightarrow>
     (case lstat fs (under ''/'' (link_rel hdr)) of
        Inl e \<Rightarrow> True
      | Inr i \<Rightarrow> i \<notin> prot_inos fs \<and> symlink_target fs i = None)"

lemma create_new_harmless:
  assumes "inv fs" "located fs es d" "allowed es" "\<forall>xs. nd = Dir xs \<longrightarrow> xs = []"
    and "create_new fs es nd m = (r, fs')"
  shows "harmless fs fs'" "r = None \<Longrightarrow> ready fs' es d (f_next fs)"
    "r = None \<Longrightarrow> symlink_target fs' (f_next fs) = (case nd of Symlink t \<Rightarrow> Some t | _ \<Rightarrow> None)"
proof -
  note cr = create_harmless [OF assms(1-4), of m]
  have res: "resolve fs es False = Inr (d, last es, entry fs d (last es))"
    using located_resolve [OF assms(2)] by simp
  have *: "(r \<noteq> None \<and> fs' = fs) \<or> (r = None \<and> fs' = create_at d (last es) nd m fs)"
    using assms(5) res by (auto simp: create_new_def split: option.splits)
  with cr(1) show "harmless fs fs'" by auto
  assume r: "r = None"
  with * have fs': "fs' = create_at d (last es) nd m fs" by simp
  have "f_next fs \<notin> prot_inos fs" using prot_inos_dom(2) [OF inv_wf [OF assms(1)]] by blast
  moreover have "prot_inos fs' = prot_inos fs" "inv fs'"
    using cr(1) assms(1) guarded_prot_inos fs' by (auto simp: harmless_def)
  ultimately show "ready fs' es d (f_next fs)"
    using cr fs' by (simp add: ready_def)
  have "is_dir fs d" using assms(2) by (simp add: located_def)
  with fs' dir_not_next [OF inv_wf [OF assms(1)] this]
  show "symlink_target fs' (f_next fs) = (case nd of Symlink t \<Rightarrow> Some t | _ \<Rightarrow> None)"
    by (simp add: create_at_simps)
qed

lemma open_trunc_new:
  assumes "located fs es d" "entry fs d (last es) = None"
  shows "open_trunc fs es m = (Inr (f_next fs), create_at d (last es) (Reg []) (m AND NOT (f_umask fs)) fs)"
  using located_resolve [OF assms(1), of True] assms(2) by (simp add: open_trunc_def)

lemma write_new_harmless:
  assumes "inv fs" "located fs es d" "allowed es" "entry fs d (last es) = None"
    and "open_trunc fs es m = (Inr i, fs1)" "fs' = upd_inode i (set_content body) fs1"
  shows "harmless fs fs'" "ready fs' es d i" "symlink_target fs' i = None"
proof -
  have fs1: "i = f_next fs" "create_new fs es (Reg []) (m AND NOT (f_umask fs)) = (None, fs1)"
    using open_trunc_new [OF assms(2,4), of m] assms(4,5) located_resolve [OF assms(2), of False]
    by (simp_all add: create_new_def)
  note cr = create_new_harmless [OF assms(1-3) _ fs1(2), simplified]
  note at = ready_attr [OF cr(2), of "set_content body"]
  from cr at fs1(1) assms(6) show "harmless fs fs'" "ready fs' es d i" "symlink_target fs' i = None"
    using harmless_trans by auto
qed

lemma link_harmless:
  assumes "inv fs" "located fs es d" "allowed es" "link fs old es = (r, fs')"
    and "\<And>i. lstat fs old = Inr i \<Longrightarrow> i \<notin> prot_inos fs \<and> symlink_target fs i = None"
  shows "harmless fs fs'" "r = None \<Longrightarrow> \<exists>i. ready fs' es d i \<and> symlink_target fs' i = None"
proof -
  have res: "resolve fs es False = Inr (d, last es, entry fs d (last es))"
    using located_resolve [OF assms(2)] by simp
  have *: "(r \<noteq> None \<and> fs' = fs) \<or>
      (r = None \<and> (\<exists>i. lstat fs old = Inr i \<and> \<not> is_dir fs i \<and> fs' = set_entry d (last es) i fs))"
    using assms(4) res by (auto simp: link_def lstat_def split: sum.splits option.splits if_splits)
  have step: "harmless fs fs'" "ready fs' es d i" "symlink_target fs' i = None"
    if i: "lstat fs old = Inr i" "\<not> is_dir fs i" "fs' = set_entry d (last es) i fs" for i
  proof -
    have root: "is_dir fs root_ino" using inv_wf [OF assms(1)] by (simp add: wf_fs_def)
    have "i \<in> dom (f_inodes fs)"
      using i(1) namei_dom [OF inv_wf [OF assms(1)], of root_ino "[]" 40 old False] is_dir_dom [OF root]
      by (auto simp: lstat_def resolve_def found_def split: sum.splits option.splits)
    moreover have "i \<noteq> root_ino" using i(2) root by metis
    ultimately show h: "harmless fs fs'"
      using allowed_open [OF assms(1-3)] i by (auto intro!: harmless_mut m_link)
    then have "prot_inos fs' = prot_inos fs" "inv fs'"
      using assms(1) guarded_prot_inos by (auto simp: harmless_def)
    moreover have "is_dir fs d" using assms(2) by (simp add: located_def)
    ultimately show "ready fs' es d i" "symlink_target fs' i = None"
      using i(3) assms(5) [OF i(1)] located_set [OF inv_wf [OF assms(1)] assms(2)]
      by (simp_all add: ready_def)
  qed
  from * step(1) show "harmless fs fs'" by auto
  assume "r = None"
  with * step show "\<exists>i. ready fs' es d i \<and> symlink_target fs' i = None" by blast
qed

end
