(* ===== verification/RootfsLayer.thy ===== *)
theory RootfsLayer
  imports RootfsSafety
begin

text \<open>
  Layers as a whole: which entries are safe, the theorem that \<open>ApplyLayer\<close> leaves peel's own files
  alone on safe layers, and the entries for which it does not.
\<close>

section \<open>One entry\<close>

lemma mkdir_all_dot: "wf_fs fs \<Longrightarrow> mkdir_all fs [''.''] m = (None, fs)"
  by (simp add: mkdir_all_def stat_def resolve_def found_def wf_fs_def)

lemma butlast_proper: "list_all proper es \<Longrightarrow> list_all proper (butlast es)"
  by (auto simp: list_all_iff dest: in_set_butlastD)

lemma mkdir_parent:
  assumes "inv fs" "plain fs es" "list_all proper es" "es \<noteq> []" "hd es \<noteq> ''peel''"
    and "mkdir_all fs (butlast es @ (if butlast es = [] then [''.''] else [])) m = (r, fs')"
  shows "harmless fs fs'" "r = None \<Longrightarrow> \<exists>d. located fs' es d"
proof -
  have es: "butlast es @ [last es] = es" using assms(4) by simp
  have "harmless fs fs' \<and> (r = None \<longrightarrow> (\<exists>d. located fs' es d))"
  proof (cases "butlast es = []")
    case True
    with assms(6) mkdir_all_dot [OF inv_wf [OF assms(1)]] have "r = None" "fs' = fs" by simp_all
    moreover have "is_dir fs root_ino" using inv_wf [OF assms(1)] by (simp add: wf_fs_def)
    ultimately show ?thesis using True assms by (auto simp: located_def)
  next
    case False
    then have "hd (butlast es) \<noteq> ''peel''" using assms(4,5) es by (metis hd_append2)
    with mkdir_all_harmless [of fs "butlast es" "last es" m r fs'] False es assms butlast_proper
    show ?thesis by (auto simp: located_def)
  qed
  then show "harmless fs fs'" "r = None \<Longrightarrow> \<exists>d. located fs' es d" by auto
qed

lemma clear_way_harmless:
  assumes "inv fs" "located fs es d" "allowed es" "rel = join_with ''/'' es"
    and "clear_way ''/'' rel hdr fs = (r, fs')"
  shows "harmless fs fs'" "located fs' es d"
    "entry fs' d (last es) = None \<or>
     (h_type hdr = TypeDir \<and> fs' = fs \<and> (\<exists>i. entry fs d (last es) = Some i \<and> is_dir fs i))"
proof -
  have pr: "list_all proper es" "es \<noteq> []" "plain fs es" using assms(2) by (auto simp: located_def)
  have u: "under ''/'' rel = es" using under_root pr assms(4) by simp
  have l: "lstat fs es = (case entry fs d (last es) of None \<Rightarrow> Inl ENOENT | Some i \<Rightarrow> Inr i)"
    using located_resolve [OF assms(2), of False] by (simp add: lstat_def found_def split: option.splits)
  note rm = remove_all_harmless [OF assms(1) pr(3,1) assms(3)]
  have *: "(fs' = fs \<and> entry fs d (last es) = None) \<or> remove_all fs es = (r, fs') \<or>
     (h_type hdr = TypeDir \<and> fs' = fs \<and> (\<exists>i. entry fs d (last es) = Some i \<and> is_dir fs i))"
    using assms(5) u l by (auto simp: clear_way_def split: option.splits if_splits)
  then show "harmless fs fs'" "located fs' es d"
    "entry fs' d (last es) = None \<or>
     (h_type hdr = TypeDir \<and> fs' = fs \<and> (\<exists>i. entry fs d (last es) = Some i \<and> is_dir fs i))"
    using rm assms(2) by blast+
qed

text \<open>Making the object at a path that is free, or is a directory that is to be one.\<close>

lemma allowed_dir_unprotected:
  assumes "inv fs" "located fs es d" "allowed es \<or> es = [''sbin'']"
    and "entry fs d (last es) = Some i" "is_dir fs i"
  shows "i \<notin> prot_inos fs"
proof
  assume "i \<in> prot_inos fs"
  then obtain p where p: "prot_elems p" "phys fs root_ino p = Some i" unfolding prot_inos_def by blast
  have "phys fs root_ino es = Some i" using located_phys [OF assms(2)] assms(4) by simp
  with phys_dir_inj [OF inv_wf [OF assms(1)] p(2)] assms(5) have "p = es" by blast
  with p(1) assms(3) show False by (auto simp: allowed_def prot_elems_def)
qed

lemma mkdir_all_existing:
  assumes "located fs es d" "entry fs d (last es) = Some i" "is_dir fs i"
  shows "mkdir_all fs es m = (None, fs)"
proof -
  have "resolve fs es True = Inr (d, last es, Some i)"
    using located_resolve [OF assms(1), of True] assms is_dir_not_symlink by simp
  then have "stat fs es = Inr i" by (simp add: stat_def found_def)
  moreover obtain c cs where "rev es = c # cs" "es = rev (c # cs)"
    using assms(1) by (metis located_def rev_rev_ident rev.simps(1) neq_Nil_conv)
  ultimately show ?thesis using assms(3) by (simp add: mkdir_all_def)
qed

lemma mkdir_all_new:
  assumes "inv fs" "located fs es d" "allowed es" "entry fs d (last es) = None"
    and "mkdir_all fs es m = (r, fs')"
  shows "harmless fs fs'" "r = None \<Longrightarrow> \<exists>d i. ready fs' es d i \<and> symlink_target fs' i = None"
proof -
  have pr: "list_all proper es" "es \<noteq> []" "plain fs es" using assms(2) by (auto simp: located_def)
  have "plain fs (es @ [x])" for x
    using plain_extend [OF pr(3)] located_phys [OF assms(2)] assms(4) by simp
  moreover have "hd es \<noteq> ''peel''" using assms(3) pr(2) by (auto simp: allowed_def prot_elems_def)
  ultimately have mk: "harmless fs fs'"
    "r = None \<Longrightarrow> plain fs' (es @ [''x'']) \<and> (\<exists>i. phys fs' root_ino es = Some i \<and> is_dir fs' i)"
    using mkdir_all_harmless [of fs es "''x''" m r fs'] assms(1,5) pr by auto
  then show "harmless fs fs'" by simp
  assume "r = None"
  then obtain i where i: "phys fs' root_ino es = Some i" "is_dir fs' i" "plain fs' es"
    using mk(2) plain_prefix by blast
  then obtain d' where d': "phys fs' root_ino (butlast es) = Some d'" "entry fs' d' (last es) = Some i"
    using phys_snoc [of fs' root_ino "butlast es" "last es"] pr(2) by (auto split: option.splits)
  then have loc: "located fs' es d'" using i pr entry_is_dir by (auto simp: located_def)
  have "inv fs'" using mk(1) assms(1) by (simp add: harmless_def)
  with allowed_dir_unprotected [OF this loc _ d'(2) i(2)] assms(3) loc d' i(2)
  have "ready fs' es d' i \<and> symlink_target fs' i = None"
    by (simp add: ready_def is_dir_not_symlink)
  then show "\<exists>d i. ready fs' es d i \<and> symlink_target fs' i = None" by blast
qed

definition made :: "tar_header \<Rightarrow> string list \<Rightarrow> fs \<Rightarrow> bool" where
  "made hdr es fs \<longleftrightarrow>
     (\<exists>d i. ready fs es d i \<and> (h_type hdr \<noteq> TypeSymlink \<longrightarrow> symlink_target fs i = None))"

lemma made_attributes: "made hdr es fs \<Longrightarrow> harmless fs (set_attributes es hdr fs)"
  unfolding made_def using set_attributes_harmless by blast

definition vacant :: "fs \<Rightarrow> string list \<Rightarrow> ino \<Rightarrow> bool" where
  "vacant fs es d \<longleftrightarrow> inv fs \<and> located fs es d \<and> allowed es \<and> entry fs d (last es) = None"

lemma made_dir:
  "vacant fs es d \<Longrightarrow> mkdir_all fs es m = (r, fs') \<Longrightarrow> harmless fs fs' \<and> (r = None \<longrightarrow> made hdr es fs')"
  using mkdir_all_new by (fastforce simp: made_def vacant_def)

lemma made_reg:
  "vacant fs es d \<Longrightarrow> open_trunc fs es m = (Inr i, fs1) \<Longrightarrow>
   harmless fs (upd_inode i (set_content b) fs1) \<and> made hdr es (upd_inode i (set_content b) fs1)"
  using write_new_harmless [of fs es d m i fs1 _ b, OF _ _ _ _ _ refl] by (auto simp: made_def vacant_def)

lemma made_node:
  "vacant fs es d \<Longrightarrow> create_new fs es nd m = (r, fs') \<Longrightarrow> (\<forall>xs. nd = Dir xs \<longrightarrow> xs = []) \<Longrightarrow>
   (\<forall>t. nd = Symlink t \<longrightarrow> h_type hdr = TypeSymlink) \<Longrightarrow>
   harmless fs fs' \<and> (r = None \<longrightarrow> made hdr es fs')"
  using create_new_harmless [of fs es d nd m r fs'] unfolding made_def vacant_def by (cases nd) auto

lemma made_link:
  assumes "vacant fs es d" "link fs (under ''/'' (link_rel hdr)) es = (r, fs')" "link_ok fs hdr"
  shows "harmless fs fs' \<and> (r = None \<longrightarrow> made hdr es fs')"
proof -
  have "i \<notin> prot_inos fs \<and> symlink_target fs i = None"
    if "lstat fs (under ''/'' (link_rel hdr)) = Inr i" for i
    using assms(3) that by (simp add: link_ok_def)
  with link_harmless [of fs es d "under ''/'' (link_rel hdr)" r fs'] assms(1,2) show ?thesis
    unfolding made_def vacant_def by blast
qed

lemma made_sym:
  assumes "vacant fs es d"
    and "symlink fs t es = (r, fs')" "h_type hdr = TypeSymlink"
  shows "harmless fs fs' \<and> (r = None \<longrightarrow> made hdr es fs')"
  using made_node [OF assms(1), of "Symlink t" "0x1FF" r fs' hdr] assms(2,3)
  by (auto simp: symlink_def split: if_splits)

lemma made_mknod:
  assumes "vacant fs es d"
    and "mknod fs es nd m = (r, fs')" "\<forall>xs. nd \<noteq> Dir xs" "\<forall>t. nd \<noteq> Symlink t"
  shows "harmless fs fs' \<and> (r = None \<longrightarrow> made hdr es fs')"
  using made_node [OF assms(1), of nd "m AND NOT (f_umask fs)" r fs' hdr] assms(2-4)
  by (auto simp: mknod_def split: if_splits)

lemma make_node_harmless:
  assumes pre: "vacant fs es d"
    and rel: "rel = join_with ''/'' es" and lk: "h_type hdr = TypeLink \<longrightarrow> link_ok fs hdr"
    and mk: "make_node ''/'' rel hdr body ok fs = (r, fs')"
  shows "harmless fs fs' \<and> (r = Some None \<longrightarrow> made hdr es fs')"
proof -
  have u: "under ''/'' rel = es" using under_root pre rel by (auto simp: located_def vacant_def)
  note m = mk [unfolded make_node_def u Let_def]
  have o: "open_trunc fs es k = (Inr (f_next fs), create_at d (last es) (Reg []) (k AND NOT (f_umask fs)) fs)" for k
    using open_trunc_new pre by (simp add: vacant_def)
  show ?thesis
  proof (cases "h_type hdr")
    case TypeDir
    with m made_dir [OF pre] show ?thesis by (auto split: prod.splits)
  next
    case TypeReg
    with m made_reg [OF pre o] o show ?thesis by auto
  next
    case TypeRegA
    with m made_reg [OF pre o] o show ?thesis by auto
  next
    case TypeSymlink
    with m made_sym [OF pre] show ?thesis by (auto split: prod.splits)
  next
    case TypeLink
    with m made_link [OF pre] lk show ?thesis by (auto split: prod.splits)
  next
    case TypeChar
    with m made_mknod [OF pre] show ?thesis by (auto split: prod.splits)
  next
    case TypeBlock
    with m made_mknod [OF pre] show ?thesis by (auto split: prod.splits)
  next
    case TypeFifo
    with m made_mknod [OF pre] show ?thesis by (auto split: prod.splits)
  qed (use m in auto)
qed

text \<open>An entry for a directory that is there sets its attributes only.\<close>

definition present_dir :: "fs \<Rightarrow> string list \<Rightarrow> ino \<Rightarrow> bool" where
  "present_dir fs es d \<longleftrightarrow>
     inv fs \<and> located fs es d \<and> (allowed es \<or> es = [''sbin'']) \<and>
     (\<exists>i. entry fs d (last es) = Some i \<and> is_dir fs i)"

lemma present_dir_made:
  assumes "present_dir fs es d"
  shows "made hdr es fs"
proof -
  from assms obtain i where i: "entry fs d (last es) = Some i" "is_dir fs i"
    and *: "inv fs" "located fs es d" "allowed es \<or> es = [''sbin'']"
    unfolding present_dir_def by blast
  with allowed_dir_unprotected [OF * i] is_dir_not_symlink [OF i(2)] show ?thesis
    unfolding made_def ready_def by blast
qed

lemma present_dir_steps:
  assumes "present_dir fs es d" "h_type hdr = TypeDir" "rel = join_with ''/'' es"
  shows "clear_way ''/'' rel hdr fs = (None, fs)" "make_node ''/'' rel hdr body ok fs = (Some None, fs)"
proof -
  from assms(1) obtain i where i: "entry fs d (last es) = Some i" "is_dir fs i"
    and loc: "located fs es d"
    unfolding present_dir_def by blast
  have u: "under ''/'' rel = es" using under_root loc assms(3) by (auto simp: located_def)
  have "lstat fs es = Inr i"
    using located_resolve [OF loc, of False] i by (simp add: lstat_def found_def)
  with u assms(2) i show "clear_way ''/'' rel hdr fs = (None, fs)" by (simp add: clear_way_def)
  show "make_node ''/'' rel hdr body ok fs = (Some None, fs)"
    using u assms(2) mkdir_all_existing [OF loc i] by (simp add: make_node_def)
qed

lemma installed_sbin: "inv fs \<Longrightarrow> located fs [''sbin''] d \<Longrightarrow> present_dir fs [''sbin''] d"
  by (auto simp: present_dir_def inv_def located_def elim!: installed_parts dest: entry_is_dir)

text \<open>The file system an entry's object is made in.\<close>

definition staged :: "string \<Rightarrow> string \<Rightarrow> tar_header \<Rightarrow> fs \<Rightarrow> fs" where
  "staged root rel hdr fs =
     snd (clear_way root rel hdr (snd (mkdir_all fs (kcomps (path_dir (path_join [root, rel]))) 0x1ED)))"

lemma clear_and_make:
  assumes "inv fs" "located fs es d" "allowed es \<or> es = [''sbin''] \<and> h_type hdr = TypeDir"
    and rel: "rel = join_with ''/'' es"
    and "clear_way ''/'' rel hdr fs = (r1, fs1)" "make_node ''/'' rel hdr body ok fs1 = (r2, fs2)"
    and "h_type hdr = TypeLink \<longrightarrow> link_ok fs1 hdr"
  shows "harmless fs fs1" "harmless fs1 fs2" "r2 = Some None \<Longrightarrow> made hdr es fs2"
proof -
  have "harmless fs fs1 \<and> harmless fs1 fs2 \<and> (r2 = Some None \<longrightarrow> made hdr es fs2)"
  proof (cases "h_type hdr = TypeDir \<and> present_dir fs es d")
    case True
    then show ?thesis
      using present_dir_steps [of fs es d hdr rel] assms(4-6) present_dir_made by auto
  next
    case False
    with installed_sbin assms(1-3) have al: "allowed es" by auto
    note cw = clear_way_harmless [OF assms(1,2) al rel assms(5)]
    have "vacant fs1 es d"
      using cw False assms(1,2) al unfolding vacant_def present_dir_def harmless_def by blast
    then show ?thesis
      using make_node_harmless [OF _ rel assms(7,6)] cw(1) by blast
  qed
  then show "harmless fs fs1" "harmless fs1 fs2" "r2 = Some None \<Longrightarrow> made hdr es fs2" by auto
qed

lemma extractEntry_harmless:
  assumes "inv fs" "plain fs es" "list_all proper es" "es \<noteq> []" "\<not> prot_elems es"
    and "es = [''sbin''] \<longrightarrow> h_type hdr = TypeDir" and rel: "rel = join_with ''/'' es"
    and "h_type hdr = TypeLink \<longrightarrow> link_ok (staged ''/'' rel hdr fs) hdr"
    and "extractEntry ''/'' rel hdr body ok fs = (r, fs')"
  shows "harmless fs fs'"
proof -
  have u: "under ''/'' rel = es" using under_root assms(3,4) rel by simp
  obtain r0 fs0 where mk: "mkdir_all fs (kcomps (path_dir (path_join [''/'', rel]))) 0x1ED = (r0, fs0)" by fastforce
  obtain r1 fs1 where cw: "clear_way ''/'' rel hdr fs0 = (r1, fs1)" by fastforce
  obtain r2 fs2 where mn: "make_node ''/'' rel hdr body ok fs1 = (r2, fs2)" by fastforce
  have "hd es \<noteq> ''peel''" using assms(4,5) by (auto simp: prot_elems_def)
  note mp = mkdir_parent [OF assms(1-4) this mk [unfolded rel parent_root [OF assms(3,4)]]]
  have lk: "h_type hdr = TypeLink \<longrightarrow> link_ok fs1 hdr" using assms(8) mk cw by (simp add: staged_def)
  have steps: "harmless fs0 fs1" "harmless fs1 fs2" "r2 = Some None \<Longrightarrow> made hdr es fs2" if r0: "r0 = None"
  proof -
    from mp(2) [OF r0] obtain d where loc: "located fs0 es d" by blast
    have "inv fs0" using mp(1) assms(1) by (simp add: harmless_def)
    moreover have "allowed es \<or> es = [''sbin''] \<and> h_type hdr = TypeDir"
      using assms(4-6) by (auto simp: allowed_def)
    ultimately show "harmless fs0 fs1" "harmless fs1 fs2" "r2 = Some None \<Longrightarrow> made hdr es fs2"
      using clear_and_make [OF _ loc _ rel cw mn lk] by blast+
  qed
  have "(fs' = fs0) \<or> (r0 = None \<and> fs' = fs1) \<or> (r0 = None \<and> fs' = fs2) \<or>
      (r0 = None \<and> r2 = Some None \<and> fs' = set_attributes es hdr fs2)"
    using assms(9) mk cw mn u by (auto simp: extractEntry_def split: option.splits)
  then show ?thesis
    using mp(1) steps made_attributes [of hdr es fs2] by (metis harmless_trans)
qed

section \<open>Whiteouts\<close>

lemma child_allowed:
  assumes "es \<noteq> []" "\<not> prot_elems (es @ [n])"
  shows "allowed (es @ [n])"
  using assms by (auto simp: allowed_def)

lemma clear_names_harmless:
  assumes "es \<noteq> []" "list_all proper es" "list_all proper ns" "inv fs" "located fs (es @ [x]) d"
    and "clear_names (path_join [''/'', join_with ''/'' es]) (join_with ''/'' es) ns fs = (r, fs')"
  shows "harmless fs fs'"
  using assms(3-6)
proof (induction ns arbitrary: fs)
  case (Cons n ns)
  have n: "proper n" "list_all proper (es @ [n])" using Cons.prems(1) assms(2) by simp_all
  have ch: "path_join [join_with ''/'' es, n] = join_with ''/'' (es @ [n])"
    "kcomps (path_join [path_join [''/'', join_with ''/'' es], n]) = es @ [n]"
    using path_join_root assms(2) path_join_snoc [OF assms(2) n(1)] kcomps_join [OF n(2)] by simp_all
  note step = Cons.prems(4) [simplified ch clear_names.simps isProtected_join [OF n(2)]]
  show ?case
  proof (cases "prot_elems (es @ [n])")
    case True
    with Cons.IH [OF _ Cons.prems(2,3)] Cons.prems(1) step show ?thesis by simp
  next
    case False
    obtain r1 fs1 where rm: "remove_all fs (es @ [n]) = (r1, fs1)" by fastforce
    have loc: "located fs (es @ [n]) d" using located_sibling [OF Cons.prems(3) n(1)] .
    then have pl: "plain fs (es @ [n])" by (simp add: located_def)
    note rh = remove_all_harmless [OF Cons.prems(2) pl n(2) child_allowed [OF assms(1) False] rm]
    have "harmless fs1 fs'"
    proof (cases r1)
      case None
      have "inv fs1" "located fs1 (es @ [x]) d"
        using rh(1) rh(2) [OF loc] Cons.prems(2,3) located_sibling
        by (auto simp: harmless_def located_def)
      with Cons.IH Cons.prems(1) step False rm None show ?thesis by simp
    next
      case (Some e)
      with step False rm show ?thesis by simp
    qed
    with rh(1) show ?thesis by (rule harmless_trans)
  qed
qed simp

lemma clearDir_harmless:
  assumes "inv fs" "es \<noteq> []" "list_all proper es" "plain fs (es @ [x])" "proper x"
    and "clearDir (path_join [''/'', join_with ''/'' es]) (join_with ''/'' es) fs = (r, fs')"
  shows "harmless fs fs'"
proof -
  have k: "kcomps (path_join [''/'', join_with ''/'' es]) = es"
    using path_join_root kcomps_join assms(2,3) by simp
  show ?thesis
  proof (cases "read_dir fs es")
    case (Inl e)
    with assms(6) k show ?thesis by (auto simp: clearDir_def)
  next
    case (Inr names)
    then obtain i xs where i: "stat fs es = Inr i" "dir_entries fs i = Some xs"
      and names: "names = sort (remdups (map fst xs))"
      by (auto simp: read_dir_def split: sum.splits option.splits)
    from i(1) obtain d n where "resolve fs es False = Inr (d, n, Some i)"
      using stat_lstat [OF assms(4,3)] by (auto simp: lstat_def found_def split: sum.splits option.splits)
    with resolve_located [OF plain_prefix [OF assms(4)] assms(3,2)] have "phys fs root_ino es = Some i"
      using located_phys by fastforce
    then have "located fs (es @ [x]) i"
      using assms(3-5) i(2) by (simp add: located_def is_dir_def)
    moreover have "proper m" if "m \<in> set names" for m
    proof -
      from that names have "map_of xs m \<noteq> None" by (auto simp: map_of_eq_None_iff)
      then obtain j where "entry fs i m = Some j" using i(2) by (auto simp: entry_def)
      then show ?thesis by (rule wf_fs_entry(5) [OF inv_wf [OF assms(1)]])
    qed
    then have "list_all proper names" by (simp add: list_all_iff)
    moreover have "clear_names (path_join [''/'', join_with ''/'' es]) (join_with ''/'' es) names fs = (r, fs')"
      using assms(6) Inr k by (simp add: clearDir_def)
    ultimately show ?thesis
      using clear_names_harmless [OF assms(2,3) _ assms(1)] by blast
  qed
qed

section \<open>Safe layers\<close>

text \<open>
  What an entry must not do: lead through a symbolic link, hard-link a protected file or a
  symbolic link, be an opaque whiteout of the root directory, or be a whiteout whose deleted name
  is empty, \<open>.\<close> or \<open>..\<close>.
\<close>

definition safe_entry :: "tar_header \<Rightarrow> fs \<Rightarrow> bool" where
  "safe_entry hdr fs \<longleftrightarrow>
     (let es = root_elems (h_name hdr); rel = join_with ''/'' es in
      es = [] \<or>
      plain fs es \<and>
      (if last es = whiteoutOpaque then butlast es \<noteq> []
       else if has_prefix (last es) whiteoutPrefix then
         drop (length whiteoutPrefix) (last es) \<notin> {[], ''.'', ''..''}
       else h_type hdr = TypeLink \<longrightarrow> link_ok (staged ''/'' rel hdr fs) hdr))"

fun safe_layer :: "tar_item list \<Rightarrow> fs \<Rightarrow> bool" where
  "safe_layer [] fs \<longleftrightarrow> True"
| "safe_layer (TarError # items) fs \<longleftrightarrow> True"
| "safe_layer (TarEntry hdr body ok # items) fs \<longleftrightarrow>
     safe_entry hdr fs \<and>
     (case apply_entry ''/'' hdr body ok fs of
        (Some e, fs1) \<Rightarrow> True
      | (None, fs1) \<Rightarrow> safe_layer items fs1)"

text \<open>An entry's name as path elements; what the loop body computes from it.\<close>

definition entry_elems :: "tar_header \<Rightarrow> string list \<Rightarrow> bool" where
  "entry_elems hdr es \<longleftrightarrow> es = root_elems (h_name hdr) \<and> es \<noteq> []"

lemma entry_elems_facts:
  assumes "entry_elems hdr es"
  shows "list_all proper es" "es \<noteq> []" "entry_rel hdr = join_with ''/'' es"
    "path_base (entry_rel hdr) = last es" "rel_dir (entry_rel hdr) = join_with ''/'' (butlast es)"
    "proper (last es)" "list_all proper (butlast es)"
proof -
  from assms have es: "es = root_elems (h_name hdr)" and ne: "es \<noteq> []" by (auto simp: entry_elems_def)
  have pr: "list_all proper es" by (simp add: es root_elems_proper)
  moreover have rel: "entry_rel hdr = join_with ''/'' es"
    unfolding entry_rel_def es by (rule trim_clean_root)
  ultimately show "list_all proper es" "es \<noteq> []" "entry_rel hdr = join_with ''/'' es"
    "path_base (entry_rel hdr) = last es" "rel_dir (entry_rel hdr) = join_with ''/'' (butlast es)"
    "proper (last es)" "list_all proper (butlast es)"
    using ne path_base_join [OF pr ne] rel_dir_join [OF pr ne] butlast_proper [OF pr]
    by (auto simp: list_all_iff)
qed

lemma opaque_harmless:
  assumes "inv fs" "entry_elems hdr es" "plain fs es" "last es = whiteoutOpaque" "butlast es \<noteq> []"
    and "apply_entry ''/'' hdr body ok fs = (r, fs')"
  shows "harmless fs fs'"
proof -
  note f = entry_elems_facts [OF assms(2)]
  have "plain fs (butlast es @ [last es])" using assms(3) f(2) by simp
  with clearDir_harmless [OF assms(1,5) f(7) _ f(6)] have
    "harmless fs (snd (clearDir (path_join [''/'', join_with ''/'' (butlast es)]) (join_with ''/'' (butlast es)) fs))"
    by (metis surjective_pairing)
  with assms(4,6) f(4,5) show ?thesis
    by (auto simp: apply_entry_def Let_def split: if_splits option.splits prod.splits)
qed

lemma whiteout_harmless:
  assumes "inv fs" "entry_elems hdr es" "plain fs es" "last es \<noteq> whiteoutOpaque"
    and "has_prefix (last es) whiteoutPrefix" "x = drop (length whiteoutPrefix) (last es)"
    and "x \<notin> {[], ''.'', ''..''}" "apply_entry ''/'' hdr body ok fs = (r, fs')"
  shows "harmless fs fs'"
proof -
  note f = entry_elems_facts [OF assms(2)]
  let ?es = "butlast es @ [x]"
  have x: "proper x" using f(6) assms(6,7) by (auto simp: proper_def dest: in_set_dropD)
  then have tg: "whiteout_target (entry_rel hdr) = join_with ''/'' ?es"
    using path_join_snoc(1) [OF f(7) x] assms(5,6) f(4,5)
    by (simp add: whiteout_target_def trim_prefix_def)
  have px: "list_all proper ?es" using x f(7) by simp
  have "plain fs (butlast es @ [last es])" using assms(3) f(2) by simp
  then have plx: "plain fs ?es" by (rule plain_snoc_change)
  have "harmless fs (snd (remove_all fs (under ''/'' (join_with ''/'' ?es))))"
    if "\<not> isProtected (join_with ''/'' ?es)" "join_with ''/'' ?es \<notin> set mustRemainDirs"
  proof -
    have "allowed ?es"
      using that isProtected_join [OF px] mustRemain_join [OF px] by (auto simp: allowed_def)
    with remove_all_harmless(1) [OF assms(1) plx px] under_root [OF px] show ?thesis
      by (metis surjective_pairing snoc_eq_iff_butlast)
  qed
  with assms(4,5,8) f(4) tg show ?thesis
    by (auto simp: apply_entry_def Let_def split: if_splits option.splits prod.splits)
qed

lemma apply_entry_harmless:
  assumes "inv fs" "safe_entry hdr fs" "apply_entry ''/'' hdr body ok fs = (r, fs')"
  shows "harmless fs fs'"
proof (cases "root_elems (h_name hdr) = []")
  case True
  then have "entry_rel hdr = []" unfolding entry_rel_def trim_clean_root by simp
  with assms(3) show ?thesis by (auto simp: apply_entry_def Let_def)
next
  case False
  then obtain es where es: "entry_elems hdr es" by (simp add: entry_elems_def)
  note f = entry_elems_facts [OF es]
  note safe = assms(2) [unfolded safe_entry_def Let_def, folded es [unfolded entry_elems_def, THEN conjunct1]]
  have pl: "plain fs es" using safe f(2) by simp
  consider (opq) "last es = whiteoutOpaque"
    | (wh) "last es \<noteq> whiteoutOpaque" "has_prefix (last es) whiteoutPrefix"
    | (ext) "last es \<noteq> whiteoutOpaque" "\<not> has_prefix (last es) whiteoutPrefix" by blast
  then show ?thesis
  proof cases
    case opq
    with safe f(2) opaque_harmless [OF assms(1) es pl _ _ assms(3)] show ?thesis by simp
  next
    case wh
    with safe f(2) whiteout_harmless [OF assms(1) es pl wh refl _ assms(3)] show ?thesis by simp
  next
    case ext
    then have lk: "h_type hdr = TypeLink \<longrightarrow> link_ok (staged ''/'' (entry_rel hdr) hdr fs) hdr"
      using safe f(2,3) by simp
    have "harmless fs fs'" if "extractEntry ''/'' (entry_rel hdr) hdr body ok fs = (r, fs')"
      "\<not> isProtected (entry_rel hdr)" "\<not> (entry_rel hdr \<in> set mustRemainDirs \<and> h_type hdr \<noteq> TypeDir)"
      using extractEntry_harmless [OF assms(1) pl f(1,2) _ _ f(3) lk that(1)] that(2,3) f(3)
        isProtected_join [OF f(1)] mustRemain_join [OF f(1,2)] by auto
    with assms(3) ext f(4) show ?thesis
      by (auto simp: apply_entry_def Let_def split: if_splits)
  qed
qed

lemma ApplyLayer_harmless:
  "inv fs \<Longrightarrow> safe_layer items fs \<Longrightarrow> ApplyLayer ''/'' items fs = (r, fs') \<Longrightarrow> harmless fs fs'"
proof (induction items fs rule: safe_layer.induct)
  case (3 hdr body ok items fs)
  obtain r1 fs1 where ap: "apply_entry ''/'' hdr body ok fs = (r1, fs1)" by fastforce
  with 3 have h: "harmless fs fs1" using apply_entry_harmless by auto
  then have "inv fs1" using "3.prems"(1) by (simp add: harmless_def)
  with 3 ap h show ?case by (cases r1) (auto intro: harmless_trans)
qed auto

end
