(* ===== verification/RootfsProps.thy ===== *)
theory RootfsProps
  imports RootfsLayer
begin

text \<open>
  The properties of layer extraction, with a small root file system to run it on.
\<close>

section \<open>A small root file system\<close>

definition demo_inode :: "node \<Rightarrow> inode" where
  "demo_inode nd = \<lparr>i_node = nd, i_mode = 0x1ED, i_uid = 0, i_gid = 0, i_xattr = [], i_mtime = None\<rparr>"

text \<open>\<open>/sbin/init\<close>, \<open>/peel/state.json\<close> and \<open>/etc/hosts\<close>.\<close>

definition demo_fs :: fs where
  "demo_fs =
     \<lparr>f_inodes = [0 \<mapsto> demo_inode (Dir [(''sbin'', 1), (''peel'', 3), (''etc'', 5)]),
                  1 \<mapsto> demo_inode (Dir [(''init'', 2)]),
                  2 \<mapsto> demo_inode (Reg [0x7F]),
                  3 \<mapsto> demo_inode (Dir [(''state.json'', 4)]),
                  4 \<mapsto> demo_inode (Reg [0x7B]),
                  5 \<mapsto> demo_inode (Dir [(''hosts'', 6)]),
                  6 \<mapsto> demo_inode (Reg [])],
      f_next = 7, f_umask = 0x12, f_devices = False\<rparr>"

definition demo_header :: "string \<Rightarrow> typeflag \<Rightarrow> string \<Rightarrow> tar_header" where
  "demo_header name t l =
     \<lparr>h_name = name, h_type = t, h_linkname = l, h_mode = 0x9ED, h_uid = 1000, h_gid = 1000,
      h_devmajor = 0, h_devminor = 0, h_modtime = Some 5, h_pax = []\<rparr>"

lemma demo_entry:
  "entry demo_fs d n =
     (if d = 0 then [''sbin'' \<mapsto> 1, ''peel'' \<mapsto> 3, ''etc'' \<mapsto> 5] n
      else if d = 1 then [''init'' \<mapsto> 2] n
      else if d = 3 then [''state.json'' \<mapsto> 4] n
      else if d = 5 then [''hosts'' \<mapsto> 6] n else None)"
  by (auto simp: entry_def dir_entries_def demo_fs_def demo_inode_def)

lemma demo_is_dir: "is_dir demo_fs d \<longleftrightarrow> d \<in> {0, 1, 3, 5}"
  by (auto simp: is_dir_def dir_entries_def demo_fs_def demo_inode_def)

lemma demo_dom: "dom (f_inodes demo_fs) = {0, 1, 2, 3, 4, 5, 6}"
  by (auto simp: demo_fs_def)

lemma demo_inv: "inv demo_fs"
proof -
  have "wf_fs demo_fs"
    unfolding wf_fs_def demo_entry demo_is_dir demo_dom
    by (auto simp: proper_def demo_fs_def split: if_splits)
  moreover have "installed demo_fs"
    by (simp add: installed_def demo_entry demo_is_dir) (simp add: symlink_target_def demo_fs_def demo_inode_def)
  ultimately show ?thesis by (simp add: inv_def)
qed

definition demo_layer :: "tar_item list" where
  "demo_layer =
     [TarEntry (demo_header ''./usr/bin/tool'' TypeReg []) [1, 2] True,
      TarEntry (demo_header ''sbin'' TypeDir []) [] True,
      TarEntry (demo_header ''sbin/init'' TypeReg []) [9] True,
      TarEntry (demo_header ''peel'' TypeSymlink ''/etc'') [] True,
      TarEntry (demo_header ''etc/.wh.hosts'' TypeReg []) [] True,
      TarEntry (demo_header ''sbin/.wh..wh..opq'' TypeReg []) [] True]"

text \<open>A check of safety that computes: no entry is a hard link.\<close>

fun safe_nolink :: "tar_item list \<Rightarrow> fs \<Rightarrow> bool" where
  "safe_nolink [] fs \<longleftrightarrow> True"
| "safe_nolink (TarError # items) fs \<longleftrightarrow> True"
| "safe_nolink (TarEntry hdr body ok # items) fs \<longleftrightarrow>
     h_type hdr \<noteq> TypeLink \<and>
     (let es = root_elems (h_name hdr) in
      es = [] \<or> plain fs es \<and>
      (if last es = whiteoutOpaque then butlast es \<noteq> []
       else has_prefix (last es) whiteoutPrefix \<longrightarrow>
         drop (length whiteoutPrefix) (last es) \<notin> {[], ''.'', ''..''})) \<and>
     (case apply_entry ''/'' hdr body ok fs of
        (Some e, fs1) \<Rightarrow> True
      | (None, fs1) \<Rightarrow> safe_nolink items fs1)"

lemma safe_nolink_safe: "safe_nolink items fs \<Longrightarrow> safe_layer items fs"
  by (induction items fs rule: safe_nolink.induct)
    (auto simp: safe_entry_def Let_def split: if_splits option.splits prod.splits)

lemma demo_layer_safe: "safe_layer demo_layer demo_fs"
  by (rule safe_nolink_safe) code_simp

section \<open>Protection\<close>

text \<open>
  C1. A layer all of whose entries are safe (see \<open>safe_entry\<close>), applied to a root file system on
  which peel is installed, leaves every protected path alone, whether or not the layer applies
  without error: \<open>/sbin/init\<close>, \<open>/peel\<close> and everything below \<open>/peel\<close> name the same inodes as
  before, with the same contents, names, modes and owners, and the file system stays well formed.
\<close>

theorem ApplyLayer_protects:
  assumes "inv fs" "safe_layer items fs" "ApplyLayer ''/'' items fs = (r, fs')"
  shows "inv fs' \<and>
    (\<forall>p. prot_elems p \<longrightarrow>
       phys fs' root_ino p = phys fs root_ino p \<and>
       (\<forall>i. phys fs root_ino p = Some i \<longrightarrow> f_inodes fs' i = f_inodes fs i))"
proof -
  have *: "inv fs'" "guarded fs fs'"
    using ApplyLayer_harmless [OF assms] assms(1) by (auto simp: harmless_def)
  with guarded_phys [OF *(2)] show ?thesis
    by (auto simp: guarded_def intro: prot_inosI)
qed

lemma ApplyLayer_protects_witness:
  "phys (snd (ApplyLayer ''/'' demo_layer demo_fs)) root_ino [''sbin'', ''init''] = Some 2 \<and>
   f_inodes (snd (ApplyLayer ''/'' demo_layer demo_fs)) 2 = f_inodes demo_fs 2 \<and>
   fst (ApplyLayer ''/'' demo_layer demo_fs) = None"
proof -
  have "phys demo_fs root_ino [''sbin'', ''init''] = Some 2" by (simp add: demo_entry)
  moreover have "fst (ApplyLayer ''/'' demo_layer demo_fs) = None" by code_simp
  ultimately show ?thesis
    using ApplyLayer_protects [OF demo_inv demo_layer_safe surjective_pairing] prot_elems_simps(2) by metis
qed

section \<open>What extraction makes\<close>

lemma change_located:
  assumes "located fs es d" "entry fs d (last es) = Some i" "follow \<longrightarrow> symlink_target fs i = None"
  shows "change fs es follow f = upd_inode i f fs"
  using located_resolve [OF assms(1), of follow] assms(2,3) by (simp add: change_def found_def)

lemma upd_inode_comp: "upd_inode i g (upd_inode i f fs) = upd_inode i (g \<circ> f) fs"
  by (auto simp: upd_inode_def option.map_comp)

lemma upd_inode_ident: "upd_inode i (\<lambda>x. x) fs = fs"
proof -
  have "(f_inodes fs)(i := map_option (\<lambda>x. x) (f_inodes fs i)) = f_inodes fs"
    by (auto simp: option.map_ident)
  then show ?thesis by (simp add: upd_inode_def)
qed

definition set_xattr :: "string \<times> string \<Rightarrow> inode \<Rightarrow> inode" where
  "set_xattr kv n =
     (if has_prefix (fst kv) ''SCHILY.xattr.'' then
        n\<lparr>i_xattr := filter (\<lambda>e. fst e \<noteq> trim_prefix (fst kv) ''SCHILY.xattr.'') (i_xattr n) @
          [(trim_prefix (fst kv) ''SCHILY.xattr.'', snd kv)]\<rparr>
      else n)"

definition header_attrs :: "tar_header \<Rightarrow> inode \<Rightarrow> inode" where
  "header_attrs hdr n =
     (let m = fold set_xattr (h_pax hdr)
            (n\<lparr>i_uid := h_uid hdr, i_gid := h_gid hdr, i_mode := syscall_mode (hdr_perm hdr)\<rparr>)
      in case h_modtime hdr of None \<Rightarrow> m | Some t \<Rightarrow> m\<lparr>i_mtime := Some t\<rparr>)"

lemma set_xattr_same [simp]:
  "i_node (set_xattr kv n) = i_node n" "i_mode (set_xattr kv n) = i_mode n"
  "i_uid (set_xattr kv n) = i_uid n" "i_gid (set_xattr kv n) = i_gid n"
  by (simp_all add: set_xattr_def)

lemma fold_set_xattr_same [simp]:
  "i_node (fold set_xattr ps n) = i_node n" "i_mode (fold set_xattr ps n) = i_mode n"
  "i_uid (fold set_xattr ps n) = i_uid n" "i_gid (fold set_xattr ps n) = i_gid n"
  by (induction ps arbitrary: n) simp_all

lemma header_attrs_simps:
  "i_node (header_attrs hdr n) = i_node n" "i_mode (header_attrs hdr n) = syscall_mode (hdr_perm hdr)"
  "i_uid (header_attrs hdr n) = h_uid hdr" "i_gid (header_attrs hdr n) = h_gid hdr"
  "h_modtime hdr = Some t \<Longrightarrow> i_mtime (header_attrs hdr n) = Some t"
  by (simp_all add: header_attrs_def Let_def split: option.splits)

lemma applyXattrs_located:
  assumes "located fs es d" "entry fs d (last es) = Some i"
  shows "applyXattrs es hdr fs = upd_inode i (fold set_xattr (h_pax hdr)) fs"
proof -
  have "fold (\<lambda>(k, v) fs.
        if has_prefix k ''SCHILY.xattr.'' then lsetxattr fs es (trim_prefix k ''SCHILY.xattr.'') v
        else fs) ps fs = upd_inode i (fold set_xattr ps) fs" for ps
    using assms
  proof (induction ps arbitrary: fs)
    case Nil
    show ?case by (simp add: id_def upd_inode_ident)
  next
    case (Cons kv ps)
    obtain k v where kv: "kv = (k, v)" by fastforce
    have step: "(if has_prefix k ''SCHILY.xattr.'' then lsetxattr fs es (trim_prefix k ''SCHILY.xattr.'') v
        else fs) = upd_inode i (set_xattr kv) fs"
    proof (cases "has_prefix k ''SCHILY.xattr.''")
      case True
      with kv show ?thesis
        by (simp add: lsetxattr_def change_located [OF Cons.prems] set_xattr_def [abs_def])
    next
      case False
      with kv show ?thesis by (simp add: set_xattr_def [abs_def] upd_inode_ident)
    qed
    have sh: "same_shape x (set_xattr kv x)" for x by (simp add: same_shape_def)
    have "located (upd_inode i (set_xattr kv) fs) es d" "entry (upd_inode i (set_xattr kv) fs) d (last es) = Some i"
      using Cons.prems located_attr [OF sh] upd_inode_shape(4) [OF sh] by simp_all
    from Cons.IH [OF this] step kv show ?case by (simp add: upd_inode_comp o_def)
  qed
  then show ?thesis by (simp add: applyXattrs_def)
qed

lemma set_attributes_located:
  assumes "located fs es d" "entry fs d (last es) = Some i" "symlink_target fs i = None"
    and "h_type hdr \<noteq> TypeSymlink"
  shows "set_attributes es hdr fs = upd_inode i (header_attrs hdr) fs"
proof -
  let ?own = "\<lambda>n. n\<lparr>i_uid := h_uid hdr, i_gid := h_gid hdr\<rparr>"
  let ?mode = "\<lambda>n. n\<lparr>i_mode := syscall_mode (hdr_perm hdr)\<rparr>"
  have sh: "same_shape x (?own x)" "same_shape x (?mode (?own x))"
    "same_shape x (fold set_xattr (h_pax hdr) (?mode (?own x)))" for x by (simp_all add: same_shape_def)
  note st = located_attr [OF sh(1)] upd_inode_shape(2,4) [OF sh(1)] located_attr [OF sh(2)]
    upd_inode_shape(4) [OF sh(2)] located_attr [OF sh(3)] upd_inode_shape(4) [OF sh(3)]
  show ?thesis
  proof (cases "h_modtime hdr")
    case None
    then show ?thesis
      using assms st
      by (simp add: set_attributes_def Let_def lchown_def chmod_def change_located upd_inode_comp o_def
          applyXattrs_located setTimes_def header_attrs_def [abs_def])
  next
    case (Some t)
    then show ?thesis
      using assms st
      by (simp add: set_attributes_def Let_def lchown_def chmod_def change_located upd_inode_comp o_def
          applyXattrs_located setTimes_def utimes_nofollow_def header_attrs_def [abs_def])
  qed
qed

lemma mkdir_parent_located:
  assumes "wf_fs fs" "located fs es d"
  shows "mkdir_all fs (butlast es @ (if butlast es = [] then [''.''] else [])) m = (None, fs)"
proof (cases "butlast es = []")
  case True
  then show ?thesis using mkdir_all_dot [OF assms(1)] by simp
next
  case False
  have l: "plain fs es" "list_all proper es" "es \<noteq> []" "phys fs root_ino (butlast es) = Some d" "is_dir fs d"
    using assms(2) by (auto simp: located_def)
  then have pl: "plain fs (butlast es)" using plain_prefix [of fs "butlast es" "[last es]"] by simp
  obtain d' where d': "phys fs root_ino (butlast (butlast es)) = Some d'" "entry fs d' (last (butlast es)) = Some d"
    using phys_snoc [of fs root_ino "butlast (butlast es)" "last (butlast es)"] False l(4)
    by (auto split: option.splits)
  then have "located fs (butlast es) d'"
    using pl butlast_proper [OF l(2)] False entry_is_dir [OF d'(2)] by (simp add: located_def)
  from mkdir_all_existing [OF this d'(2) l(5)] False show ?thesis by simp
qed

lemma clear_way_located:
  assumes "inv fs" "located fs es d" "allowed es" "rel = join_with ''/'' es" "h_type hdr \<noteq> TypeDir"
  shows "\<exists>fs1. clear_way ''/'' rel hdr fs = (None, fs1) \<and> vacant fs1 es d"
proof -
  obtain r fs1 where cw: "clear_way ''/'' rel hdr fs = (r, fs1)" by fastforce
  note h = clear_way_harmless [OF assms(1-4) cw]
  have "under ''/'' rel = es" using under_root assms(2,4) by (auto simp: located_def)
  moreover have "resolve fs es False = Inr (d, last es, entry fs d (last es))"
    using located_resolve [OF assms(2)] by simp
  moreover have "entry fs d (last es) \<noteq> Some root_ino"
    using wf_fs_entry(1) [OF inv_wf [OF assms(1)]] by auto
  ultimately have "r = None"
    using cw assms(5)
    by (auto simp: clear_way_def remove_all_def lstat_def found_def split: option.splits if_splits)
  with h assms(1,3,5) cw show ?thesis by (auto simp: vacant_def harmless_def)
qed

lemma make_regular:
  assumes "vacant fs es d" "rel = join_with ''/'' es" "h_type hdr \<in> {TypeReg, TypeRegA}"
  shows "make_node ''/'' rel hdr body True fs =
      (Some None, upd_inode (f_next fs) (set_content body)
         (create_at d (last es) (Reg []) (syscall_mode (hdr_perm hdr) AND NOT (f_umask fs)) fs))"
proof -
  have "under ''/'' rel = es" using under_root assms(1,2) by (auto simp: located_def vacant_def)
  then show ?thesis
    using assms open_trunc_new [of fs es d] by (auto simp: make_node_def vacant_def)
qed

definition regular_inode :: "tar_header \<Rightarrow> byte list \<Rightarrow> inode \<Rightarrow> bool" where
  "regular_inode hdr body n \<longleftrightarrow>
     i_node n = Reg body \<and> i_mode n = ucast (h_mode hdr AND 0x1FF) \<and>
     i_uid n = h_uid hdr \<and> i_gid n = h_gid hdr \<and>
     (h_modtime hdr \<noteq> None \<longrightarrow> i_mtime n = h_modtime hdr)"

lemma mode_masks:
  "(0xFFF :: 64 word) = mask 12" "(0x1FF :: 64 word) = mask 9" "(0x1FF :: 32 word) = mask 9"
  by (simp_all add: mask_eq_exp_minus_1)

lemma syscall_mode_hdr: "syscall_mode (hdr_perm hdr) = ucast (h_mode hdr AND 0x1FF)"
proof -
  have "\<not> bit (hdr_perm hdr) k" if "k \<ge> 12" for k
    using that by (simp add: hdr_perm_def mode_masks bit_simps)
  then have "syscall_mode (hdr_perm hdr) = hdr_perm hdr AND 0x1FF" by (simp add: syscall_mode_def)
  also have "\<dots> = ucast (h_mode hdr AND 0x1FF)"
    by (rule bit_word_eqI) (auto simp: hdr_perm_def mode_masks bit_simps)
  finally show ?thesis .
qed

lemma extract_regular:
  assumes "inv fs" "located fs es d" "allowed es" "rel = join_with ''/'' es"
    and "h_type hdr \<in> {TypeReg, TypeRegA}"
  shows "\<exists>fs' i n. extractEntry ''/'' rel hdr body True fs = (None, fs') \<and> located fs' es d \<and>
    entry fs' d (last es) = Some i \<and> symlink_target fs' i = None \<and> f_inodes fs' i = Some n \<and>
    regular_inode hdr body n"
proof -
  have nd: "h_type hdr \<noteq> TypeDir" "h_type hdr \<noteq> TypeSymlink" using assms(5) by auto
  obtain fs1 where fs1: "clear_way ''/'' rel hdr fs = (None, fs1)" "vacant fs1 es d"
    using clear_way_located [OF assms(1-4) nd(1)] by blast
  let ?m = "syscall_mode (hdr_perm hdr) AND NOT (f_umask fs1)" and ?i = "f_next fs1"
  define fs2 where "fs2 = upd_inode ?i (set_content body) (create_at d (last es) (Reg []) ?m fs1)"
  have v: "inv fs1" "located fs1 es d" "allowed es" "entry fs1 d (last es) = None"
    using fs1(2) by (auto simp: vacant_def)
  have d: "d \<noteq> ?i" using dir_not_next inv_wf [OF v(1)] v(2) by (auto simp: located_def)
  have loc2: "located fs2 es d" "entry fs2 d (last es) = Some ?i" "symlink_target fs2 ?i = None"
    using create_harmless [OF v(1-3), of "Reg []" ?m] v(2) d
    by (simp_all add: fs2_def located_attr upd_inode_shape create_at_simps located_def)
  have n2: "f_inodes fs2 ?i = Some (set_content body (fresh_inode (Reg []) ?m))"
    using create_at_inode [OF d] by (simp add: fs2_def upd_inode_def)
  define fs3 where "fs3 = upd_inode ?i (header_attrs hdr) fs2"
  have sh: "same_shape x (header_attrs hdr x)" for x by (simp add: same_shape_def header_attrs_simps)
  have u: "under ''/'' rel = es" "kcomps (path_dir (path_join [''/'', rel])) = butlast es @ (if butlast es = [] then [''.''] else [])"
    using under_root parent_root assms(2,4) by (auto simp: located_def)
  have "extractEntry ''/'' rel hdr body True fs = (None, fs3)"
    using mkdir_parent_located [OF inv_wf [OF assms(1)] assms(2)] fs1(1) make_regular [OF fs1(2) assms(4,5)]
      set_attributes_located [OF loc2 nd(2)]
    by (simp add: extractEntry_def u fs3_def fs2_def)
  moreover have "located fs3 es d" "entry fs3 d (last es) = Some ?i" "symlink_target fs3 ?i = None"
    using loc2 by (simp_all add: fs3_def located_attr [OF sh] upd_inode_shape [OF sh])
  moreover have "regular_inode hdr body (header_attrs hdr (set_content body (fresh_inode (Reg []) ?m)))"
    by (auto simp: regular_inode_def header_attrs_simps syscall_mode_hdr set_content_def fresh_inode_def)
  then have "\<exists>n. f_inodes fs3 ?i = Some n \<and> regular_inode hdr body n"
    using n2 by (simp add: fs3_def upd_inode_def)
  ultimately show ?thesis by blast
qed

lemma apply_regular:
  assumes "inv fs" "es = root_elems (h_name hdr)" "located fs es d" "allowed es"
    and "\<not> has_prefix (last es) whiteoutPrefix" "h_type hdr \<in> {TypeReg, TypeRegA}"
  shows "\<exists>fs' i n. apply_entry ''/'' hdr body True fs = (None, fs') \<and> stat fs' es = Inr i \<and>
    lstat fs' es = Inr i \<and> f_inodes fs' i = Some n \<and> regular_inode hdr body n"
proof -
  have ee: "entry_elems hdr es" using assms(2,4) by (auto simp: entry_elems_def allowed_def)
  note f = entry_elems_facts [OF ee]
  obtain fs' i n where x: "extractEntry ''/'' (entry_rel hdr) hdr body True fs = (None, fs')"
    "located fs' es d" "entry fs' d (last es) = Some i" "symlink_target fs' i = None" "f_inodes fs' i = Some n"
    "regular_inode hdr body n"
    using extract_regular [OF assms(1,3,4) f(3) assms(6), of body] by blast
  have "last es \<noteq> whiteoutOpaque" using assms(5) by (auto simp: whiteoutOpaque_def whiteoutPrefix_def has_prefix_def)
  moreover have "\<not> isProtected (entry_rel hdr)" "entry_rel hdr \<notin> set mustRemainDirs"
    using assms(4) f(3) isProtected_join [OF f(1)] mustRemain_join [OF f(1,2)]
    by (auto simp: allowed_def)
  moreover have "entry_rel hdr \<noteq> []" "entry_rel hdr \<noteq> ''.''"
    using f(3) join_not_Nil [OF f(1,2)] split_join [OF f(1,2)] f(1) by (auto simp: proper_def)
  ultimately have "apply_entry ''/'' hdr body True fs = (None, fs')"
    using x(1) assms(5) f(4) by (simp add: apply_entry_def Let_def)
  moreover have "lstat fs' es = Inr i" "stat fs' es = Inr i"
    using located_resolve [OF x(2), of False] located_resolve [OF x(2), of True] x(3,4)
    by (simp_all add: lstat_def stat_def found_def)
  ultimately show ?thesis using x(5,6) by blast
qed

text \<open>
  C20. A regular file entry at a path outside the protected ones, whose parent directory exists and
  is reached without symbolic links, is extracted without error whatever was at the path before;
  afterwards reading the path gives the entry's bytes, and the file has the entry's owner, group
  and modification time. Its mode is the low nine bits of the entry's mode: the set-user-id,
  set-group-id and sticky bits are lost.
\<close>

theorem extract_file_contents:
  assumes "inv fs" "es = root_elems (h_name hdr)" "located fs es d" "allowed es"
    and "\<not> has_prefix (last es) whiteoutPrefix" "h_type hdr \<in> {TypeReg, TypeRegA}"
  shows "\<exists>fs' i n. apply_entry ''/'' hdr body True fs = (None, fs') \<and> read_file fs' es = Inr body \<and>
    lstat fs' es = Inr i \<and> f_inodes fs' i = Some n \<and> regular_inode hdr body n"
  using apply_regular [OF assms, of body] by (fastforce simp: read_file_def regular_inode_def)

lemma extract_file_contents_witness:
  "read_file (snd (apply_entry ''/'' (demo_header ''/etc/hosts'' TypeReg []) [65, 66] True demo_fs))
     [''etc'', ''hosts''] = Inr [65, 66]"
proof -
  have "located demo_fs [''etc'', ''hosts''] 5"
    by (simp add: located_def proper_def demo_entry demo_is_dir, code_simp)
  moreover have "root_elems (h_name (demo_header ''/etc/hosts'' TypeReg [])) = [''etc'', ''hosts'']"
    "allowed [''etc'', ''hosts'']" "\<not> has_prefix (last [''etc'', ''hosts'']) whiteoutPrefix"
    "h_type (demo_header ''/etc/hosts'' TypeReg []) \<in> {TypeReg, TypeRegA}"
    by code_simp+
  ultimately show ?thesis
    using extract_file_contents [OF demo_inv, of "[''etc'', ''hosts'']" "demo_header ''/etc/hosts'' TypeReg []" 5 "[65, 66]"]
    by auto
qed

section \<open>What the safety conditions exclude\<close>

lemma resolve_root_name:
  assumes "wf_fs fs" "proper n"
  shows "resolve fs [n] False = Inr (root_ino, n, entry fs root_ino n)"
proof -
  have "located fs [n] root_ino" using assms by (simp add: located_def plain_def wf_fs_def is_dir_not_symlink)
  then show ?thesis using located_resolve by fastforce
qed

lemma clear_names_root_entries:
  assumes "wf_fs fs" "list_all proper ns"
  shows "\<exists>fs'. clear_names ''/'' [] ns fs = (None, fs') \<and>
    (\<forall>n. entry fs' root_ino n = (if n \<in> set ns \<and> n \<noteq> ''peel'' then None else entry fs root_ino n))"
  using assms
proof (induction ns arbitrary: fs)
  case (Cons n ns)
  have n: "proper n" using Cons.prems(2) by simp
  have pj: "path_join [[], n] = n" "kcomps (path_join [''/'', n]) = [n]"
    using path_join_snoc(1) [of "[]" n] path_join_root [of "[n]"] kcomps_join [of "[n]"] n by simp_all
  have pr: "isProtected n \<longleftrightarrow> n = ''peel''"
    using isProtected_join [of "[n]"] n by (auto simp: prot_elems_def)
  show ?case
  proof (cases "n = ''peel''")
    case True
    from Cons.IH [OF Cons.prems(1)] Cons.prems(2) obtain fs' where
      "clear_names ''/'' [] ns fs = (None, fs')"
      "\<forall>m. entry fs' root_ino m = (if m \<in> set ns \<and> m \<noteq> ''peel'' then None else entry fs root_ino m)"
      by auto
    with True pj pr show ?thesis by auto
  next
    case False
    have e: "entry fs root_ino n \<noteq> Some root_ino" using wf_fs_entry(1) [OF Cons.prems(1)] by auto
    obtain fs1 where rm: "remove_all fs [n] = (None, fs1)" "wf_fs fs1"
      "\<And>m. entry fs1 root_ino m = (if m = n then None else entry fs root_ino m)"
      using resolve_root_name [OF Cons.prems(1) n] e Cons.prems(1) wf_fs_del
      by (cases "entry fs root_ino n") (auto simp: remove_all_def)
    from Cons.IH [OF rm(2)] Cons.prems(2) obtain fs' where
      "clear_names ''/'' [] ns fs1 = (None, fs')"
      "\<forall>m. entry fs' root_ino m = (if m \<in> set ns \<and> m \<noteq> ''peel'' then None else entry fs1 root_ino m)"
      by auto
    with rm False pj pr show ?thesis by auto
  qed
qed simp


text \<open>
  C27. An opaque whiteout in the root directory deletes every name of the root directory except
  \<open>peel\<close>, \<open>/sbin\<close> with \<open>/sbin/init\<close> included: \<open>clearDir\<close> looks at each child's own path, and
  \<open>sbin\<close> is a directory that must remain, not a protected path.
\<close>

theorem opaque_root_removes_sbin:
  assumes "wf_fs fs" "h_name hdr = ''.wh..wh..opq''"
  shows "\<exists>fs'. apply_entry ''/'' hdr body ok fs = (None, fs') \<and>
    (\<forall>n. entry fs' root_ino n = (if n = ''peel'' then entry fs root_ino n else None))"
proof -
  have rel: "entry_rel hdr = whiteoutOpaque" unfolding entry_rel_def assms(2) by code_simp
  have str: "path_base whiteoutOpaque = whiteoutOpaque" "rel_dir whiteoutOpaque = []"
    "\<not> isProtected []" "path_join [''/'', []] = ''/''" "kcomps ''/'' = [''.'']" by code_simp+
  from assms(1) obtain xs where xs: "dir_entries fs root_ino = Some xs" by (auto simp: wf_fs_def is_dir_def)
  then have rd: "read_dir fs [''.''] = Inr (sort (remdups (map fst xs)))"
    by (simp add: read_dir_def stat_def resolve_def found_def is_dir_def)
  have e: "entry fs root_ino n = map_of xs n" for n using xs by (simp add: entry_def)
  have "proper n" if "n \<in> fst ` set xs" for n
    using that e wf_fs_entry(5) [OF assms(1), of root_ino n] by (metis map_of_eq_None_iff option.exhaust)
  then have "list_all proper (sort (remdups (map fst xs)))" by (simp add: list_all_iff)
  from clear_names_root_entries [OF assms(1) this] obtain fs' where fs':
    "clear_names ''/'' [] (sort (remdups (map fst xs))) fs = (None, fs')"
    "\<And>n. entry fs' root_ino n = (if n \<in> fst ` set xs \<and> n \<noteq> ''peel'' then None else entry fs root_ino n)"
    by auto
  then have "apply_entry ''/'' hdr body ok fs = (None, fs')"
    using rel str rd by (simp add: apply_entry_def clearDir_def whiteoutOpaque_def)
  moreover have "entry fs root_ino n = None" if "n \<notin> fst ` set xs" for n
    using that e by (simp add: map_of_eq_None_iff)
  ultimately show ?thesis using fs'(2) by auto
qed

lemma opaque_root_removes_sbin_witness:
  "entry (snd (apply_entry ''/'' (demo_header ''.wh..wh..opq'' TypeReg []) [] True demo_fs)) 0 ''sbin'' = None"
  using opaque_root_removes_sbin [OF inv_wf [OF demo_inv], of "demo_header ''.wh..wh..opq'' TypeReg []" "[]" True]
  by (auto simp: demo_header_def)

text \<open>
  A whiteout whose deleted name is empty, \<open>.\<close> or \<open>..\<close> at the top of a layer deletes every name
  of the root directory, \<open>/peel\<close> and \<open>/sbin\<close> included, and then fails: the deleted path is the
  root directory itself, which neither guard recognises.
\<close>

lemma whiteout_root_removes_all:
  assumes "wf_fs fs" "h_name hdr \<in> {''.wh.'', ''.wh..'', ''.wh...''}"
  shows "\<exists>e fs'. apply_entry ''/'' hdr body ok fs = (Some (WhiteoutFailed e EBUSY), fs') \<and>
    (\<forall>n. entry fs' root_ino n = None)"
proof -
  define r where "r = h_name hdr"
  have r: "r \<in> {''.wh.'', ''.wh..'', ''.wh...''}" using assms(2) by (simp add: r_def)
  then have str: "entry_rel hdr = r" "r \<noteq> []" "r \<noteq> ''.''" "path_base r = r" "r \<noteq> whiteoutOpaque"
    "has_prefix r whiteoutPrefix" "\<not> isProtected (whiteout_target r)" "whiteout_target r \<notin> set mustRemainDirs"
    "under ''/'' (whiteout_target r) = [''.'']"
    unfolding entry_rel_def r_def [symmetric] by (elim insertE emptyE; hypsubst; code_simp)+
  have "is_dir fs root_ino" using assms(1) by (simp add: wf_fs_def)
  then have rm: "remove_all fs [''.''] = (Some EBUSY, upd_inode root_ino (map_entries (\<lambda>_. [])) fs)"
    by (simp add: remove_all_def resolve_def)
  have "entry (upd_inode root_ino (map_entries (\<lambda>_. [])) fs) root_ino n = None" for n
    by (auto simp: entry_def dir_entries_def upd_inode_def map_entries_def split: option.splits node.splits)
  with rm str show ?thesis by (simp add: apply_entry_def)
qed

text \<open>
  A layer that makes \<open>x\<close> a symbolic link to \<open>/peel\<close> and then has a file entry \<open>x/state.json\<close>
  overwrites \<open>/peel/state.json\<close>, and one that hard-links \<open>/sbin/init\<close> changes its owner and mode
  through the new name: the protection goes by the entry's name, not by the file it leads to.
\<close>

lemma protection_is_by_name:
  "(let fs' = snd (ApplyLayer ''/''
        [TarEntry (demo_header ''x'' TypeSymlink ''/peel'') [] True,
         TarEntry (demo_header ''x/state.json'' TypeReg []) [9, 9] True] demo_fs)
    in read_file fs' [''peel'', ''state.json''] = Inr [9, 9]) \<and>
   (let fs' = snd (ApplyLayer ''/''
        [TarEntry (demo_header ''y'' TypeLink ''sbin/init'') [] True] demo_fs)
    in map_option i_uid (f_inodes demo_fs 2) = Some 0 \<and> map_option i_uid (f_inodes fs' 2) = Some 1000 \<and>
       lstat fs' [''sbin'', ''init''] = Inr 2)"
  by code_simp

end
