(* ===== verification/StateFile.thy ===== *)
theory StateFile
  imports RootfsProps
begin

text \<open>
  The state file, \<open>internal/state/state.go\<close>: which image is unpacked and how to run it. JSON
  encoding and decoding are arguments; times are numbers.
\<close>

section \<open>Data\<close>

record Runtime =
  rt_Entrypoint :: "string list"
  rt_Cmd :: "string list"
  rt_Env :: "string list"
  rt_WorkingDir :: string
  rt_User :: string

record State =
  st_Reference :: string
  st_Digest :: string
  st_Runtime :: Runtime
  st_UnpackedAt :: int

definition state_DefaultPath :: string where
  "state_DefaultPath = ''/peel/state.json''"

section \<open>Loading and saving\<close>

datatype state_error =
    StateUnreadable errno | Marshaling | CreatingDir errno | WritingTmp errno | Renaming errno

text \<open>A missing file and a corrupt one both mean that nothing has been unpacked.\<close>

definition state_Load :: "(byte list \<Rightarrow> State option) \<Rightarrow> fs \<Rightarrow> string \<Rightarrow> (state_error, State option) result" where
  "state_Load unmarshal fs path =
     (case read_file fs (kcomps path) of
        Inl e \<Rightarrow> if e = ENOENT then Inr None else Inl (StateUnreadable e)
      | Inr b \<Rightarrow> Inr (unmarshal b))"

text \<open>
  \<open>Save\<close> is a sequence of system calls, and the process can be stopped after any of them. The model
  therefore keeps every file system the calls pass through: a run is an error, if one occurred, and
  the file systems from before the first call to after the last. \<open>write_file_run\<close> is
  \<open>os.WriteFile\<close>: open and truncate, then write, one file system for every number of bytes that
  may have been written when the process stops.
\<close>

type_synonym 'e run = "'e option \<times> fs list"

definition one_call :: "(fs \<Rightarrow> errno option \<times> fs) \<Rightarrow> fs \<Rightarrow> errno run" where
  "one_call c fs = (case c fs of (e, fs') \<Rightarrow> (e, [fs']))"

definition write_file_run :: "string list \<Rightarrow> byte list \<Rightarrow> uint32 \<Rightarrow> fs \<Rightarrow> errno run" where
  "write_file_run es b m fs =
     (case open_trunc fs es m of
        (Inl e, fs1) \<Rightarrow> (Some e, [fs1])
      | (Inr i, fs1) \<Rightarrow> (None, fs1 # map (\<lambda>n. upd_inode i (set_content (take n b)) fs1) [0..<Suc (length b)]))"

text \<open>Going on with the next call where the run has got to, unless it has failed.\<close>

definition and_then :: "'e run \<Rightarrow> (errno \<Rightarrow> 'e) \<Rightarrow> (fs \<Rightarrow> errno run) \<Rightarrow> 'e run" where
  "and_then r err c =
     (case r of
        (Some e, h) \<Rightarrow> (Some e, h)
      | (None, h) \<Rightarrow> (case c (last h) of (e, h') \<Rightarrow> (map_option err e, h @ h')))"

definition save_run :: "(State \<Rightarrow> byte list option) \<Rightarrow> fs \<Rightarrow> string \<Rightarrow> State \<Rightarrow> state_error run" where
  "save_run marshal fs path s =
     (case marshal s of
        None \<Rightarrow> (Some Marshaling, [fs])
      | Some b \<Rightarrow>
          let r1 = and_then (None, [fs]) CreatingDir (one_call (\<lambda>fs. mkdir_all fs (kcomps (path_dir path)) 0x1ED));
              tmp = kcomps (path @ ''.tmp'');
              r2 = and_then r1 WritingTmp (write_file_run tmp b 0x180)
          in and_then r2 Renaming (one_call (\<lambda>fs. rename_file fs tmp (kcomps path))))"

definition state_Save ::
  "(State \<Rightarrow> byte list option) \<Rightarrow> fs \<Rightarrow> string \<Rightarrow> State \<Rightarrow> state_error option \<times> fs"
where
  "state_Save marshal fs path s = (case save_run marshal fs path s of (e, h) \<Rightarrow> (e, last h))"

lemma write_file_run_result: "write_file fs es b m = (case write_file_run es b m fs of (e, h) \<Rightarrow> (e, last h))"
  by (auto simp: write_file_def write_file_run_def split: prod.split sum.split)

text \<open>What \<open>Save\<close> returns and leaves, call by call.\<close>

lemma state_Save_eq:
  "state_Save marshal fs path s =
     (case marshal s of
        None \<Rightarrow> (Some Marshaling, fs)
      | Some b \<Rightarrow>
          (case mkdir_all fs (kcomps (path_dir path)) 0x1ED of
             (Some e, fs1) \<Rightarrow> (Some (CreatingDir e), fs1)
           | (None, fs1) \<Rightarrow>
               (case write_file fs1 (kcomps (path @ ''.tmp'')) b 0x180 of
                  (Some e, fs2) \<Rightarrow> (Some (WritingTmp e), fs2)
                | (None, fs2) \<Rightarrow>
                    (case rename_file fs2 (kcomps (path @ ''.tmp'')) (kcomps path) of
                       (e, fs3) \<Rightarrow> (map_option Renaming e, fs3)))))"
proof -
  have "h \<noteq> []" if "write_file_run es b m fs' = (e, h)" for es b m fs' e h
    using that by (auto simp: write_file_run_def split: prod.splits sum.splits)
  then show ?thesis
    by (auto simp: state_Save_def save_run_def and_then_def one_call_def write_file_run_result Let_def
        split: option.split prod.split)
qed

section \<open>Reading a file whose directory is known\<close>

definition contents :: "fs \<Rightarrow> ino \<Rightarrow> (errno, byte list) result" where
  "contents fs i =
     (case map_option i_node (f_inodes fs i) of
        Some (Reg b) \<Rightarrow> Inr b | Some (Dir _) \<Rightarrow> Inl EISDIR | Some Sock \<Rightarrow> Inl ENXIO | _ \<Rightarrow> Inr [])"

lemma read_located:
  assumes "located fs es d" "\<And>i. entry fs d (last es) = Some i \<Longrightarrow> symlink_target fs i = None"
  shows "read_file fs es = (case entry fs d (last es) of None \<Rightarrow> Inl ENOENT | Some i \<Rightarrow> contents fs i)"
  using located_resolve [of fs es d True] assms
  by (auto simp: read_file_def stat_def found_def contents_def split: option.splits node.splits)


section \<open>Saving is atomic\<close>

definition tmp_name :: "string \<Rightarrow> string" where
  "tmp_name f = f @ ''.tmp''"

text \<open>
  A path \<open>ds @ [f]\<close> a state can be saved at: its directory \<open>d\<close> exists and is reached without symbolic
  links, the path is no directory and no symbolic link, and a temporary file left by an earlier
  run is a regular file of its own.
\<close>

definition saveable :: "fs \<Rightarrow> string list \<Rightarrow> string \<Rightarrow> ino \<Rightarrow> bool" where
  "saveable fs ds f d \<longleftrightarrow>
     wf_fs fs \<and> located fs (ds @ [f]) d \<and>
     (\<forall>i. entry fs d f = Some i \<longrightarrow> \<not> is_dir fs i \<and> symlink_target fs i = None) \<and>
     (\<forall>j. entry fs d (tmp_name f) = Some j \<longrightarrow>
        (\<exists>n b. f_inodes fs j = Some n \<and> i_node n = Reg b) \<and> entry fs d f \<noteq> Some j)"

lemma proper_tmp: "proper f \<Longrightarrow> proper (tmp_name f)" and tmp_neq [simp]: "tmp_name f \<noteq> f" "f \<noteq> tmp_name f"
  by (auto simp: proper_def tmp_name_def)

lemma tmp_path: "CHR ''/'' # join_with ''/'' (ds @ [f]) @ ''.tmp'' = CHR ''/'' # join_with ''/'' (ds @ [tmp_name f])"
  by (cases "ds = []") (simp_all add: join_snoc tmp_name_def)

text \<open>Writing the temporary file, up to any number of bytes of its contents.\<close>

definition tmp_written :: "fs \<Rightarrow> ino \<Rightarrow> string \<Rightarrow> ino \<Rightarrow> byte list \<Rightarrow> fs \<Rightarrow> bool" where
  "tmp_written fs d f i b fs2 \<longleftrightarrow>
     wf_fs fs2 \<and> entry fs2 d f = entry fs d f \<and> entry fs2 d (tmp_name f) = Some i \<and>
     (\<forall>j. entry fs d f = Some j \<longrightarrow> j \<noteq> i \<and> f_inodes fs2 j = f_inodes fs j) \<and>
     (\<exists>n. f_inodes fs2 i = Some n \<and> i_node n = Reg b)"

lemma set_content_simps [simp]:
  "entry (upd_inode i (set_content b) fs) d n = entry fs d n"
  "f_inodes (upd_inode i (set_content b) fs) i = map_option (set_content b) (f_inodes fs i)"
  "wf_fs fs \<Longrightarrow> wf_fs (upd_inode i (set_content b) fs)"
  "located (upd_inode i (set_content b) fs) es d = located fs es d"
  by (simp_all add: located_attr [OF same_shape_set_content] upd_inode_shape(4) [OF same_shape_set_content] wf_fs_attr [OF same_shape_set_content])
    (simp add: upd_inode_def)

lemma set_content_reg: "i_node n = Reg b \<Longrightarrow> i_node (set_content b' n) = Reg b'"
  by (simp add: set_content_def)

lemma open_tmp:
  assumes "saveable fs ds f d"
  shows "\<exists>i fs1. open_trunc fs (ds @ [tmp_name f]) m = (Inr i, fs1) \<and> tmp_written fs d f i [] fs1 \<and>
    located fs1 (ds @ [f]) d"
proof -
  have wf: "wf_fs fs" and loc: "located fs (ds @ [f]) d" using assms by (auto simp: saveable_def)
  have pf: "proper (tmp_name f)" using loc proper_tmp by (simp add: located_def)
  note tloc = located_sibling [OF loc pf]
  have d: "is_dir fs d" "d \<noteq> f_next fs" using loc dir_not_next [OF wf] by (auto simp: located_def)
  show ?thesis
  proof (cases "entry fs d (tmp_name f)")
    case None
    let ?fs1 = "create_at d (tmp_name f) (Reg []) (m AND NOT (f_umask fs)) fs"
    have "open_trunc fs (ds @ [tmp_name f]) m = (Inr (f_next fs), ?fs1)"
      using located_resolve [OF tloc, of True] None by (simp add: open_trunc_def)
    moreover have "j \<noteq> f_next fs \<and> f_inodes ?fs1 j = f_inodes fs j" if "entry fs d f = Some j" for j
    proof -
      have "\<not> is_dir fs j" using that assms by (simp add: saveable_def)
      then have "j \<noteq> d" "j \<noteq> f_next fs" using d wf_fs_entry(3) [OF wf that] by auto
      then show ?thesis by simp
    qed
    then have "tmp_written fs d f (f_next fs) [] ?fs1"
      using wf_fs_create [OF wf d(1) _ pf] d create_at_inode [OF d(2)]
      by (simp add: tmp_written_def create_at_simps fresh_inode_def)
    ultimately show ?thesis using located_create [OF wf loc] by blast
  next
    case (Some j)
    then obtain n b where j: "f_inodes fs j = Some n" "i_node n = Reg b" "entry fs d f \<noteq> Some j"
      using assms by (auto simp: saveable_def)
    let ?fs1 = "upd_inode j (set_content []) fs"
    have "\<not> is_dir fs j" "\<not> is_sock fs j" "symlink_target fs j = None"
      using j by (auto simp: is_dir_def is_sock_def dir_entries_def symlink_target_def)
    then have "open_trunc fs (ds @ [tmp_name f]) m = (Inr j, ?fs1)"
      using located_resolve [OF tloc, of True] Some by (simp add: open_trunc_def)
    moreover have "tmp_written fs d f j [] ?fs1"
      using wf j Some by (auto simp: tmp_written_def set_content_reg)
    ultimately show ?thesis using loc by auto
  qed
qed


lemma write_tmp:
  assumes "tmp_written fs d f i b fs1" "located fs1 (ds @ [f]) d"
  shows "tmp_written fs d f i b' (upd_inode i (set_content b') fs1)"
    "located (upd_inode i (set_content b') fs1) (ds @ [f]) d"
proof -
  show "tmp_written fs d f i b' (upd_inode i (set_content b') fs1)"
    using assms(1) by (auto simp: tmp_written_def set_content_reg)
  show "located (upd_inode i (set_content b') fs1) (ds @ [f]) d"
    using assms(2) by simp
qed

lemma tmp_invisible:
  assumes "saveable fs ds f d" "tmp_written fs d f i b fs2" "located fs2 (ds @ [f]) d"
  shows "read_file fs2 (ds @ [f]) = read_file fs (ds @ [f])"
proof -
  have "symlink_target fs2 j = None" if "entry fs2 d f = Some j" for j
    using that assms by (auto simp: tmp_written_def saveable_def symlink_target_def)
  moreover have "contents fs2 j = contents fs j" if "entry fs d f = Some j" for j
    using that assms(2) by (simp add: tmp_written_def contents_def)
  ultimately show ?thesis
    using read_located [OF assms(3)] read_located [of fs "ds @ [f]" d] assms(1,2)
    by (auto simp: saveable_def tmp_written_def split: option.splits)
qed

lemma rename_tmp:
  assumes "saveable fs ds f d" "tmp_written fs d f i b fs2" "located fs2 (ds @ [f]) d"
  shows "\<exists>fs3. rename_file fs2 (ds @ [tmp_name f]) (ds @ [f]) = (None, fs3) \<and>
    read_file fs3 (ds @ [f]) = Inr b \<and> entry fs3 d (tmp_name f) = None \<and> saveable fs3 ds f d"
proof -
  have W: "wf_fs fs2" "entry fs2 d f = entry fs d f" "entry fs2 d (tmp_name f) = Some i"
    "\<And>j. entry fs d f = Some j \<Longrightarrow> j \<noteq> i \<and> f_inodes fs2 j = f_inodes fs j"
    and n: "\<exists>n. f_inodes fs2 i = Some n \<and> i_node n = Reg b"
    using assms(2) by (auto simp: tmp_written_def)
  have d: "is_dir fs2 d" and pf: "proper f" "proper (tmp_name f)" using assms(3) proper_tmp by (auto simp: located_def)
  have i: "\<not> is_dir fs2 i" "symlink_target fs2 i = None" "i \<noteq> root_ino" "i \<in> dom (f_inodes fs2)"
    using n wf_fs_entry [OF W(1,3)] by (auto simp: is_dir_def dir_entries_def symlink_target_def)
  have old: "resolve fs2 (ds @ [tmp_name f]) False = Inr (d, tmp_name f, Some i)"
    using located_resolve [OF located_sibling [OF assms(3) pf(2)], of False] W(3) by simp
  have new: "resolve fs2 (ds @ [f]) False = Inr (d, f, entry fs d f)"
    using located_resolve [OF assms(3), of False] W(2) by simp
  have nd: "\<not> is_dir fs2 j" if "entry fs d f = Some j" for j
    using that W(4) assms(1) by (auto simp: saveable_def is_dir_def dir_entries_def)
  let ?fs3 = "set_entry d f i (del_entry d (tmp_name f) fs2)"
  have r: "rename_file fs2 (ds @ [tmp_name f]) (ds @ [f]) = (None, ?fs3)"
    using old new nd W(4) by (auto simp: rename_file_def split: option.splits)
  have wf3: "wf_fs ?fs3"
    by (rule wf_fs_link [OF wf_fs_del [OF W(1)]]) (use d pf(1) i in simp_all)
  have loc3: "located ?fs3 (ds @ [f]) d"
    using located_set [OF wf_fs_del located_del] W(1) assms(3) by blast
  have e3: "entry ?fs3 d f = Some i" "entry ?fs3 d (tmp_name f) = None" using d by simp_all
  have "f_inodes ?fs3 i = f_inodes fs2 i"
    using i(1) d f_inodes_other(2,3) [of i d] by metis
  then have "contents ?fs3 i = Inr b" using n by (auto simp: contents_def)
  then have "read_file ?fs3 (ds @ [f]) = Inr b" using read_located [OF loc3] e3 i(2) by simp
  moreover have "saveable ?fs3 ds f d" using wf3 loc3 e3 i by (simp add: saveable_def)
  ultimately show ?thesis using r e3(2) by blast
qed


lemma state_Load_read: "read_file fs' (kcomps path) = read_file fs (kcomps path) \<Longrightarrow>
    state_Load unmarshal fs' path = state_Load unmarshal fs path"
  by (simp add: state_Load_def)

lemma save_paths:
  assumes "located fs (ds @ [f]) d" "path = CHR ''/'' # join_with ''/'' (ds @ [f])" "wf_fs fs"
  shows "kcomps path = ds @ [f]" "kcomps (path @ ''.tmp'') = ds @ [tmp_name f]"
    "mkdir_all fs (kcomps (path_dir path)) m = (None, fs)"
proof -
  have p: "list_all proper (ds @ [f])" "list_all proper (ds @ [tmp_name f])"
    using assms(1) proper_tmp by (auto simp: located_def)
  show "kcomps path = ds @ [f]" using kcomps_join [OF p(1)] assms(2) by simp
  show "kcomps (path @ ''.tmp'') = ds @ [tmp_name f]" using kcomps_join [OF p(2)] assms(2) tmp_path [of ds f] by simp
  show "mkdir_all fs (kcomps (path_dir path)) m = (None, fs)"
    using mkdir_parent_located [OF assms(3,1), of m] path_dir_root_join [OF p(1)] kcomps_join [of ds] p(1) assms(2)
    by simp
qed

text \<open>
  C10. The state file is replaced atomically for whoever stops peel. At a path whose directory exists
  (and where nothing but a regular file is in the way), saving succeeds, and loading then gives
  back the state; and if the process is stopped anywhere in between, after any of the system calls
  and after any number of bytes were written, loading gives either what it gave before or the
  new state, complete, never a part of it and never nothing. This is about what the kernel has
  been told: the code does not call fsync, so a power failure is not covered.
\<close>

theorem state_Save_atomic:
  assumes "saveable fs ds f d" "path = CHR ''/'' # join_with ''/'' (ds @ [f])"
    and "marshal s = Some b" "unmarshal b = Some s"
  shows "\<exists>fs'. state_Save marshal fs path s = (None, fs') \<and> state_Load unmarshal fs' path = Inr (Some s) \<and>
    (\<forall>m \<in> set (snd (save_run marshal fs path s)).
       state_Load unmarshal m path = state_Load unmarshal fs path \<or> state_Load unmarshal m path = Inr (Some s))"
proof -
  have "wf_fs fs" "located fs (ds @ [f]) d" using assms(1) by (auto simp: saveable_def)
  note P = save_paths [OF this(2) assms(2) this(1)]
  obtain i fs1 where o: "open_trunc fs (ds @ [tmp_name f]) 0x180 = (Inr i, fs1)"
    and t: "tmp_written fs d f i [] fs1" "located fs1 (ds @ [f]) d"
    using open_tmp [OF assms(1)] by blast
  note W = write_tmp [OF t]
  obtain fs3 where r: "rename_file (upd_inode i (set_content b) fs1) (ds @ [tmp_name f]) (ds @ [f]) = (None, fs3)"
    "read_file fs3 (ds @ [f]) = Inr b"
    using rename_tmp [OF assms(1) W [of b]] by blast
  have R: "save_run marshal fs path s =
    (None, [fs, fs, fs1] @ map (\<lambda>n. upd_inode i (set_content (take n b)) fs1) [0..<Suc (length b)] @ [fs3])"
    using P o r(1) assms(3) by (simp add: save_run_def and_then_def one_call_def write_file_run_def)
  have L: "state_Load unmarshal fs3 path = Inr (Some s)" using r(2) P(1) assms(4) by (simp add: state_Load_def)
  have "state_Load unmarshal (upd_inode i (set_content b') fs1) path = state_Load unmarshal fs path" for b'
    using tmp_invisible [OF assms(1) W] P(1) by (intro state_Load_read) simp
  moreover have "state_Load unmarshal fs1 path = state_Load unmarshal fs path"
    using tmp_invisible [OF assms(1) t] P(1) by (intro state_Load_read) simp
  ultimately show ?thesis using L by (auto simp: R state_Save_def)
qed


definition demo_state :: "string \<Rightarrow> State" where
  "demo_state ref =
     \<lparr>st_Reference = ref, st_Digest = ''sha256:0'',
      st_Runtime = \<lparr>rt_Entrypoint = [''tool''], rt_Cmd = [], rt_Env = [], rt_WorkingDir = [], rt_User = []\<rparr>,
      st_UnpackedAt = 0\<rparr>"

text \<open>A stand-in for JSON that is enough for such states.\<close>

definition demo_marshal :: "State \<Rightarrow> byte list option" where
  "demo_marshal s = Some (bytes_of (st_Reference s))"

definition demo_unmarshal :: "byte list \<Rightarrow> State option" where
  "demo_unmarshal b = Some (demo_state (text_of b))"

lemma demo_saveable: "saveable demo_fs [''peel''] ''state.json'' 3"
proof -
  have "plain demo_fs [''peel'', ''state.json'']"
    by (simp add: plain_def demo_entry upt_rec) (simp add: symlink_target_def demo_fs_def demo_inode_def)
  moreover have "symlink_target demo_fs 4 = None" by (simp add: symlink_target_def demo_fs_def demo_inode_def)
  ultimately show ?thesis
    using inv_wf [OF demo_inv]
    by (simp add: saveable_def located_def proper_def demo_entry demo_is_dir tmp_name_def)
qed

lemma state_Save_atomic_witness:
  "\<exists>fs'. state_Save demo_marshal demo_fs state_DefaultPath (demo_state ''nginx'') = (None, fs') \<and>
     state_Load demo_unmarshal fs' state_DefaultPath = Inr (Some (demo_state ''nginx''))"
proof -
  have "state_DefaultPath = CHR ''/'' # join_with ''/'' ([''peel''] @ [''state.json''])"
    by (simp add: state_DefaultPath_def)
  moreover have "demo_marshal (demo_state ''nginx'') = Some (bytes_of ''nginx'')"
    "demo_unmarshal (bytes_of ''nginx'') = Some (demo_state ''nginx'')"
    by (simp add: demo_marshal_def demo_state_def) (simp add: demo_unmarshal_def)
  ultimately show ?thesis using state_Save_atomic [OF demo_saveable, of state_DefaultPath] by blast
qed

end
