(* ===== verification/Entrypoint.thy ===== *)
theory Entrypoint
  imports Config StateFile
begin

unbundle bit_operations_syntax

text \<open>
  What to run: \<open>internal/entrypoint/entrypoint.go\<close>. Overrides of the configuration are merged into
  the image's runtime configuration; the result is resolved against the file system to an
  executable, an environment and a user.
\<close>

section \<open>Data\<close>

record Spec =
  sp_Path :: string
  sp_Argv :: "string list"
  sp_Env :: "string list"
  sp_Dir :: string
  sp_UID :: uint32
  sp_GID :: uint32
  sp_Groups :: "uint32 list"

definition defaultPath :: string where
  "defaultPath = ''/usr/local/sbin:/usr/local/bin:/usr/sbin:/usr/bin:/sbin:/bin''"

datatype entrypoint_error =
    NoCommand
  | StatError errno
  | IsDirectory string
  | NotExecutable string
  | NotInPath string
  | UserFile errno
  | LineTooLong
  | UserNotFound string
  | GroupNotFound string

section \<open>Environment\<close>

definition env_key :: "string \<Rightarrow> string" where
  "env_key kv = fst (cut CHR ''='' kv)"

text \<open>One override: the first entry with its key is replaced, or it is appended.\<close>

fun env_set :: "string \<Rightarrow> string list \<Rightarrow> string list" where
  "env_set kv [] = [kv]"
| "env_set kv (e # es) = (if env_key e = env_key kv then kv # es else e # env_set kv es)"

definition mergeEnv :: "string list \<Rightarrow> string list \<Rightarrow> string list" where
  "mergeEnv base override = fold env_set override base"

fun lookupEnv :: "string list \<Rightarrow> string \<Rightarrow> string" where
  "lookupEnv [] key = []"
| "lookupEnv (kv # env) key =
     (case cut CHR ''='' kv of (k, v, ok) \<Rightarrow> if ok \<and> k = key then v else lookupEnv env key)"

section \<open>Merging\<close>

definition Merge :: "Runtime \<Rightarrow> Config \<Rightarrow> Runtime" where
  "Merge rt cfg =
     rt\<lparr>rt_Entrypoint := (if elems (c_Entrypoint cfg) \<noteq> [] then elems (c_Entrypoint cfg) else rt_Entrypoint rt),
        rt_Cmd := (if elems (c_Cmd cfg) \<noteq> [] then elems (c_Cmd cfg) else rt_Cmd rt),
        rt_Env := mergeEnv (rt_Env rt) (elems (c_Env cfg)),
        rt_WorkingDir := (if c_WorkingDir cfg \<noteq> [] then c_WorkingDir cfg else rt_WorkingDir rt),
        rt_User := (if c_User cfg \<noteq> [] then c_User cfg else rt_User rt)\<rparr>"

section \<open>Executables\<close>

definition checkExecutable :: "fs \<Rightarrow> string \<Rightarrow> entrypoint_error option" where
  "checkExecutable fs path =
     (case stat fs (kcomps path) of
        Inl e \<Rightarrow> Some (StatError e)
      | Inr i \<Rightarrow>
          if is_dir fs i then Some (IsDirectory path)
          else if (case f_inodes fs i of None \<Rightarrow> 0 | Some n \<Rightarrow> i_mode n AND 0x49) = 0 then Some (NotExecutable path)
          else None)"

fun look_dirs :: "fs \<Rightarrow> string \<Rightarrow> string \<Rightarrow> string list \<Rightarrow> (entrypoint_error, string) result" where
  "look_dirs fs root file [] = Inl (NotInPath file)"
| "look_dirs fs root file (dir # dirs) =
     (if dir = [] then look_dirs fs root file dirs
      else
        let p = path_join [root, dir, file] in
        if checkExecutable fs p = None then Inr p else look_dirs fs root file dirs)"

definition lookPath :: "fs \<Rightarrow> string \<Rightarrow> string \<Rightarrow> string \<Rightarrow> (entrypoint_error, string) result" where
  "lookPath fs root file pathEnv =
     (if contains_char file CHR ''/'' then
        (let p = path_join [root, file] in
         case checkExecutable fs p of Some e \<Rightarrow> Inl e | None \<Rightarrow> Inr p)
      else look_dirs fs root file (split_on CHR '':'' pathEnv))"

section \<open>Users and groups\<close>

text \<open>One line of \<open>/etc/passwd\<close> or \<open>/etc/group\<close>.\<close>

definition passwd_line :: "string \<Rightarrow> string \<Rightarrow> (uint32 \<times> uint32) option" where
  "passwd_line name line =
     (if line = [] \<or> has_prefix line ''#'' then None
      else
        let fields = split_on CHR '':'' line in
        if length fields < 4 \<or> fields ! 0 \<noteq> name then None
        else case (parse_uint (fields ! 2) 10 32, parse_uint (fields ! 3) 10 32) of
               (Inr uid, Inr gid) \<Rightarrow> Some (word_of_nat uid, word_of_nat gid)
             | _ \<Rightarrow> None)"

definition group_line :: "string \<Rightarrow> string \<Rightarrow> uint32 option" where
  "group_line name line =
     (if line = [] \<or> has_prefix line ''#'' then None
      else
        let fields = split_on CHR '':'' line in
        if length fields < 3 \<or> fields ! 0 \<noteq> name then None
        else case parse_uint (fields ! 2) 10 32 of
               Inr gid \<Rightarrow> Some (word_of_nat gid)
             | _ \<Rightarrow> None)"

text \<open>The scanning loop: the first line that gives a result, or the scanner's error at the end.\<close>

fun first_line :: "(string \<Rightarrow> 'a option) \<Rightarrow> string list \<Rightarrow> bool \<Rightarrow> (entrypoint_error, 'a option) result" where
  "first_line f [] toolong = (if toolong then Inl LineTooLong else Inr None)"
| "first_line f (l # ls) toolong = (case f l of Some x \<Rightarrow> Inr (Some x) | None \<Rightarrow> first_line f ls toolong)"

definition scan_file :: "fs \<Rightarrow> string \<Rightarrow> (string \<Rightarrow> 'a option) \<Rightarrow> (entrypoint_error, 'a option) result" where
  "scan_file fs path f =
     (case read_file fs (kcomps path) of
        Inl e \<Rightarrow> if e = ENOENT then Inr None else Inl (UserFile e)
      | Inr b \<Rightarrow> (case scan_lines (text_of b) of (ls, toolong) \<Rightarrow> first_line f ls toolong))"

definition lookupPasswd :: "fs \<Rightarrow> string \<Rightarrow> string \<Rightarrow> (entrypoint_error, (uint32 \<times> uint32) option) result" where
  "lookupPasswd fs root name = scan_file fs (path_join [root, ''etc'', ''passwd'']) (passwd_line name)"

definition lookupGroup :: "fs \<Rightarrow> string \<Rightarrow> string \<Rightarrow> (entrypoint_error, uint32 option) result" where
  "lookupGroup fs root name = scan_file fs (path_join [root, ''etc'', ''group'']) (group_line name)"

definition resolveUser :: "fs \<Rightarrow> string \<Rightarrow> string \<Rightarrow> (entrypoint_error, uint32 \<times> uint32) result" where
  "resolveUser fs root spec =
     (if spec = [] then Inr (0, 0)
      else
        (case cut CHR '':'' spec of (userPart, groupPart, hasGroup) \<Rightarrow>
           let numeric = (case parse_uint userPart 10 32 of Inl e \<Rightarrow> None | Inr n \<Rightarrow> Some (word_of_nat n, 0)) in
           (case lookupPasswd fs root userPart of
              Inl e \<Rightarrow> Inl e
            | Inr pu \<Rightarrow>
                (case (if pu \<noteq> None then pu else numeric) of
                   None \<Rightarrow> Inl (UserNotFound userPart)
                 | Some (uid, gid) \<Rightarrow>
                     if hasGroup then
                       (case parse_uint groupPart 10 32 of
                          Inr n \<Rightarrow> Inr (uid, word_of_nat n)
                        | Inl _ \<Rightarrow>
                            (case lookupGroup fs root groupPart of
                               Inl e \<Rightarrow> Inl e
                             | Inr (Some g) \<Rightarrow> Inr (uid, g)
                             | Inr None \<Rightarrow> Inl (GroupNotFound groupPart)))
                     else Inr (uid, gid)))))"

section \<open>Resolving\<close>

definition Resolve :: "fs \<Rightarrow> string \<Rightarrow> Runtime \<Rightarrow> (entrypoint_error, Spec) result" where
  "Resolve fs root rt =
     (let argv = rt_Entrypoint rt @ rt_Cmd rt in
      if argv = [] then Inl NoCommand
      else
        let dir = (if rt_WorkingDir rt = [] then ''/'' else rt_WorkingDir rt);
            env = (if lookupEnv (rt_Env rt) ''PATH'' = [] then rt_Env rt @ [''PATH='' @ defaultPath] else rt_Env rt)
        in case resolveUser fs root (rt_User rt) of
             Inl e \<Rightarrow> Inl e
           | Inr (uid, gid) \<Rightarrow>
               (case lookPath fs root (hd argv) (lookupEnv env ''PATH'') of
                  Inl e \<Rightarrow> Inl e
                | Inr path \<Rightarrow>
                    Inr \<lparr>sp_Path = path, sp_Argv = argv, sp_Env = env, sp_Dir = dir,
                         sp_UID = uid, sp_GID = gid, sp_Groups = []\<rparr>))"

section \<open>Environments as maps\<close>

definition env_map :: "string list \<Rightarrow> string \<rightharpoonup> string" where
  "env_map env = map_of (map (\<lambda>kv. (env_key kv, kv)) env)"

lemma env_map_set: "env_map (env_set kv env) = (env_map env)(env_key kv \<mapsto> kv)"
  by (induction env) (auto simp: env_map_def fun_eq_iff)

lemma env_map_merge: "env_map (mergeEnv base override) = env_map base ++ env_map (rev override)"
proof (induction override rule: rev_induct)
  case Nil
  then show ?case by (simp add: mergeEnv_def env_map_def)
next
  case (snoc kv override)
  have "env_map (mergeEnv base (override @ [kv])) = (env_map (mergeEnv base override))(env_key kv \<mapsto> kv)"
    by (simp add: mergeEnv_def env_map_set)
  then show ?case using snoc by (simp add: env_map_def map_add_def fun_eq_iff)
qed

lemma env_keys_set:
  "map env_key (env_set kv env) = (if env_key kv \<in> set (map env_key env) then map env_key env else map env_key env @ [env_key kv])"
  by (induction env) auto

lemma env_set_length: "length env \<le> length (env_set kv env)"
  by (induction env) auto

text \<open>What looking up gives, in terms of the map: entries without \<open>=\<close> are passed over.\<close>

definition env_value :: "string \<Rightarrow> string" where
  "env_value kv = fst (snd (cut CHR ''='' kv))"

lemma env_cut: "cut CHR ''='' kv = (env_key kv, env_value kv, CHR ''='' \<in> set kv)"
  using cut_ok_iff [of "CHR ''=''" kv] by (simp add: env_key_def env_value_def prod_eq_iff)

lemma lookupEnv_map:
  "lookupEnv env k = (case env_map (filter (\<lambda>kv. CHR ''='' \<in> set kv) env) k of None \<Rightarrow> [] | Some kv \<Rightarrow> env_value kv)"
  by (induction env) (auto simp: env_cut env_map_def)


lemma env_map_filter_merge:
  assumes "\<forall>kv \<in> set override. CHR ''='' \<in> set kv"
  shows "env_map (filter (\<lambda>kv. CHR ''='' \<in> set kv) (mergeEnv base override)) =
    env_map (filter (\<lambda>kv. CHR ''='' \<in> set kv) base) ++ env_map (rev override)"
proof -
  have one: "env_map (filter (\<lambda>kv. CHR ''='' \<in> set kv) (env_set kv env)) =
      (env_map (filter (\<lambda>kv. CHR ''='' \<in> set kv) env))(env_key kv \<mapsto> kv)" if "CHR ''='' \<in> set kv" for kv env
    using that by (induction env) (auto simp: env_map_def fun_eq_iff)
  show ?thesis
    using assms
  proof (induction override rule: rev_induct)
    case Nil
    then show ?case by (simp add: mergeEnv_def env_map_def)
  next
    case (snoc kv override)
    then have "env_map (filter (\<lambda>kv. CHR ''='' \<in> set kv) (mergeEnv base (override @ [kv]))) =
        (env_map (filter (\<lambda>kv. CHR ''='' \<in> set kv) base) ++ env_map (rev override))(env_key kv \<mapsto> kv)"
      using one [of kv] by (simp add: mergeEnv_def)
    then show ?case by (simp add: env_map_def map_add_def fun_eq_iff)
  qed
qed

text \<open>
  C18. Merging environments is overriding of maps. As a map from variable to entry, the merged
  environment is the image's one overridden by the configuration's, of which the last entry for a
  variable counts; no variable is lost, the image's entries keep their places and new variables
  follow, and one that occurred once occurs once. For overrides that are assignments, looking a
  variable up gives the value of its last override if it has one, and the image's value
  otherwise.
\<close>

theorem mergeEnv_refines:
  assumes "\<forall>kv \<in> set override. CHR ''='' \<in> set kv"
  shows "env_map (mergeEnv base override) = env_map base ++ env_map (rev override) \<and>
    take (length base) (map env_key (mergeEnv base override)) = map env_key base \<and>
    (distinct (map env_key base) \<longrightarrow> distinct (map env_key (mergeEnv base override))) \<and>
    lookupEnv (mergeEnv base override) k =
      (case env_map (rev override) k of Some kv \<Rightarrow> env_value kv | None \<Rightarrow> lookupEnv base k)"
proof -
  have "take (length base) (map env_key (mergeEnv base override)) = map env_key base \<and>
      length base \<le> length (mergeEnv base override)"
    unfolding mergeEnv_def
  proof (induction override rule: rev_induct)
    case (snoc kv override)
    then show ?case using env_set_length [of "fold env_set override base" kv] by (simp add: env_keys_set)
  qed simp
  moreover have "distinct (map env_key base) \<longrightarrow> distinct (map env_key (mergeEnv base override))"
    unfolding mergeEnv_def by (induction override rule: rev_induct) (auto simp: env_keys_set)
  moreover have "lookupEnv (mergeEnv base override) k =
      (case env_map (rev override) k of Some kv \<Rightarrow> env_value kv | None \<Rightarrow> lookupEnv base k)"
    unfolding lookupEnv_map env_map_filter_merge [OF assms] by (simp add: map_add_def split: option.splits)
  ultimately show ?thesis using env_map_merge by blast
qed

lemma mergeEnv_refines_witness:
  "lookupEnv (mergeEnv [''PATH=/bin'', ''HOME=/''] [''HOME=/root'', ''A=1'', ''HOME=/h'']) ''HOME'' = ''/h''"
  using mergeEnv_refines [of "[''HOME=/root'', ''A=1'', ''HOME=/h'']" "[''PATH=/bin'', ''HOME=/'']" "''HOME''"]
  by (simp add: env_map_def env_key_def env_value_def)

section \<open>Resolving commands\<close>

lemma look_dirs_find:
  "look_dirs fs root file dirs =
     (case find (\<lambda>dir. dir \<noteq> [] \<and> checkExecutable fs (path_join [root, dir, file]) = None) dirs of
        None \<Rightarrow> Inl (NotInPath file) | Some dir \<Rightarrow> Inr (path_join [root, dir, file]))"
  by (induction dirs) (auto simp: Let_def)

lemma look_dirs_executable: "look_dirs fs root file dirs = Inr p \<Longrightarrow> checkExecutable fs p = None"
  by (auto simp: look_dirs_find find_Some_iff split: option.splits)

lemma lookPath_executable: "lookPath fs root file pathEnv = Inr p \<Longrightarrow> checkExecutable fs p = None"
  by (auto simp: lookPath_def Let_def look_dirs_executable split: if_splits option.splits)

text \<open>
  C15. What is started. A runtime configuration that resolves gives a command line of its entrypoint
  followed by its arguments, never empty; the environment is the configured one, with the default
  search path added if it has none; the working directory is never empty; and the executable is a
  file that exists, is no directory and has an execute bit: the one the command names if it names
  a path, and otherwise the one in the first directory of the search path that has such a file. A
  configuration without a command is refused.
\<close>

theorem Resolve_sound:
  assumes "Resolve fs root rt = Inr spec"
  shows "sp_Argv spec = rt_Entrypoint rt @ rt_Cmd rt \<and> sp_Argv spec \<noteq> [] \<and> sp_Dir spec \<noteq> [] \<and>
    (\<exists>i n. stat fs (kcomps (sp_Path spec)) = Inr i \<and> \<not> is_dir fs i \<and> f_inodes fs i = Some n \<and> i_mode n AND 0x49 \<noteq> 0) \<and>
    (\<exists>added. sp_Env spec = rt_Env rt @ added \<and> (added = [] \<longleftrightarrow> lookupEnv (rt_Env rt) ''PATH'' \<noteq> [])) \<and>
    (if contains_char (hd (sp_Argv spec)) CHR ''/'' then sp_Path spec = path_join [root, hd (sp_Argv spec)]
     else \<exists>dir. find (\<lambda>dir. dir \<noteq> [] \<and> checkExecutable fs (path_join [root, dir, hd (sp_Argv spec)]) = None)
         (split_on CHR '':'' (lookupEnv (sp_Env spec) ''PATH'')) = Some dir \<and>
       sp_Path spec = path_join [root, dir, hd (sp_Argv spec)])"
proof -
  let ?argv = "rt_Entrypoint rt @ rt_Cmd rt"
  have ne: "?argv \<noteq> []" using assms by (auto simp: Resolve_def)
  then obtain uid gid path where sp: "sp_Argv spec = ?argv" "sp_Path spec = path" "sp_Dir spec \<noteq> []"
    "sp_Env spec = (if lookupEnv (rt_Env rt) ''PATH'' = [] then rt_Env rt @ [''PATH='' @ defaultPath] else rt_Env rt)"
    and path: "lookPath fs root (hd ?argv) (lookupEnv (sp_Env spec) ''PATH'') = Inr path"
    using assms by (auto simp: Resolve_def Let_def split: sum.splits)
  have "\<exists>i n. stat fs (kcomps path) = Inr i \<and> \<not> is_dir fs i \<and> f_inodes fs i = Some n \<and> i_mode n AND 0x49 \<noteq> 0"
    using lookPath_executable [OF path] by (auto simp: checkExecutable_def split: sum.splits if_splits option.splits)
  moreover have "if contains_char (hd ?argv) CHR ''/'' then path = path_join [root, hd ?argv]
     else \<exists>dir. find (\<lambda>dir. dir \<noteq> [] \<and> checkExecutable fs (path_join [root, dir, hd ?argv]) = None)
         (split_on CHR '':'' (lookupEnv (sp_Env spec) ''PATH'')) = Some dir \<and> path = path_join [root, dir, hd ?argv]"
    using path by (auto simp: lookPath_def look_dirs_find Let_def split: option.splits if_splits)
  moreover have "\<exists>added. sp_Env spec = rt_Env rt @ added \<and> (added = [] \<longleftrightarrow> lookupEnv (rt_Env rt) ''PATH'' \<noteq> [])"
    using sp(4) by simp
  ultimately show ?thesis unfolding sp(1,2) using ne sp(3) by blast
qed


definition demo_rt :: Runtime where
  "demo_rt = \<lparr>rt_Entrypoint = [''init''], rt_Cmd = [''-v''], rt_Env = [''A=1''], rt_WorkingDir = [], rt_User = []\<rparr>"

lemma Resolve_sound_witness:
  "\<exists>spec. Resolve demo_fs ''/'' demo_rt = Inr spec \<and> sp_Argv spec = [''init'', ''-v''] \<and>
     (\<exists>i. stat demo_fs (kcomps ''/sbin/init'') = Inr i \<and> \<not> is_dir demo_fs i)"
proof -
  have "case Resolve demo_fs ''/'' demo_rt of Inr s \<Rightarrow> sp_Path s = ''/sbin/init'' | _ \<Rightarrow> False" by code_simp
  then obtain spec where spec: "Resolve demo_fs ''/'' demo_rt = Inr spec" "sp_Path spec = ''/sbin/init''"
    by (auto split: sum.splits)
  have "rt_Entrypoint demo_rt @ rt_Cmd demo_rt = [''init'', ''-v'']" by (simp add: demo_rt_def)
  with Resolve_sound [OF spec(1)] spec show ?thesis by auto
qed

section \<open>An empty search path\<close>

lemma lookupEnv_append:
  "lookupEnv (env @ env') k =
     (if env_map (filter (\<lambda>kv. CHR ''='' \<in> set kv) env) k = None then lookupEnv env' k else lookupEnv env k)"
  by (induction env) (auto simp: env_cut env_map_def)

text \<open>
  An empty \<open>PATH\<close> disables the default one. When the environment sets \<open>PATH\<close> to the empty string,
  the default search path is appended to the environment, but the search still uses the empty
  one: a command without a slash is never found, whatever executables the default directories
  hold.
\<close>

lemma empty_path_not_defaulted:
  assumes "env_map (filter (\<lambda>kv. CHR ''='' \<in> set kv) (rt_Env rt)) ''PATH'' = Some ''PATH=''"
    and "rt_Entrypoint rt @ rt_Cmd rt = file # args" "\<not> contains_char file CHR ''/''"
    and "resolveUser fs root (rt_User rt) = Inr ug"
  shows "Resolve fs root rt = Inl (NotInPath file)"
proof -
  have e: "lookupEnv (rt_Env rt) ''PATH'' = []" using assms(1) by (simp add: lookupEnv_map env_value_def)
  then have "lookupEnv (rt_Env rt @ [''PATH='' @ defaultPath]) ''PATH'' = []"
    using assms(1) by (simp add: lookupEnv_append)
  then show ?thesis using assms e by (cases ug) (simp add: Resolve_def Let_def lookPath_def)
qed

section \<open>Users\<close>

text \<open>The lines of a password file: name, user and group numbers, and the rest of the line.\<close>

type_synonym user_entry = "string \<times> uint32 \<times> uint32 \<times> string"

definition user_line :: "user_entry \<Rightarrow> string" where
  "user_line e =
     (case e of (n, u, g, rest) \<Rightarrow> n @ '':x:'' @ itoa (unat u) @ '':'' @ itoa (unat g) @ '':'' @ rest)"

definition good_user :: "user_entry \<Rightarrow> bool" where
  "good_user e \<longleftrightarrow>
     (case e of (n, u, g, rest) \<Rightarrow>
        CHR '':'' \<notin> set n \<and> newline \<notin> set n \<and> \<not> has_prefix n ''#'' \<and>
        newline \<notin> set rest \<and> carriage_return \<notin> set rest) \<and> length (user_line e) < 65536"

definition passwd_text :: "user_entry list \<Rightarrow> string" where
  "passwd_text us = concat (map (\<lambda>e. user_line e @ [newline]) us)"

lemma split_lines:
  "\<forall>l \<in> set ls. c \<notin> set l \<Longrightarrow> split_on c (concat (map (\<lambda>l. l @ [c]) ls)) = ls @ [[]]"
  by (induction ls) (auto simp: split_on_append)

lemma scan_lines_text:
  assumes "\<forall>l \<in> set ls. newline \<notin> set l \<and> length l < 65536 \<and> (l = [] \<or> last l \<noteq> carriage_return)"
  shows "scan_lines (concat (map (\<lambda>l. l @ [newline]) ls)) = (ls, False)"
proof -
  have "map drop_cr ls = ls" using assms by (intro map_idI) (auto simp: drop_cr_def)
  moreover have "takeWhile (\<lambda>l. length l < 65536) ls = ls" using assms by (simp add: takeWhile_eq_all_conv)
  ultimately show ?thesis using assms split_lines [of ls newline]
    by (simp add: scan_lines_def Let_def del: takeWhile_eq_all_conv)
qed

lemma newline_itoa [simp]: "newline \<notin> set (itoa n)" "carriage_return \<notin> set (itoa n)"
  by (auto simp: newline_def carriage_return_def dest: itoa_chars)

lemma good_user_line:
  assumes "good_user e"
  shows "newline \<notin> set (user_line e)" "last (user_line e) \<noteq> carriage_return" "length (user_line e) < 65536"
proof -
  obtain n u g rest where e: "e = (n, u, g, rest)" by (cases e)
  then have rest: "newline \<notin> set rest" "carriage_return \<notin> set rest" "newline \<notin> set n"
    and "length (user_line e) < 65536" using assms by (auto simp: good_user_def)
  then show "length (user_line e) < 65536" by simp
  show "newline \<notin> set (user_line e)" using e rest by (simp add: user_line_def) (simp add: newline_def)
  have "last (user_line e) = (if rest = [] then CHR '':'' else last rest)" using e by (simp add: user_line_def)
  then show "last (user_line e) \<noteq> carriage_return"
  proof (cases "rest = []")
    case False
    then have "last rest \<in> set rest" by simp
    with rest(2) False \<open>last (user_line e) = _\<close> show ?thesis by metis
  qed (simp add: carriage_return_def)
qed

lemma unat_uint32 [simp]: "parse_uint (itoa (unat (u :: uint32))) 10 32 = Inr (unat u)"
proof -
  have "unat u < 2 ^ 32" using unsigned_less [of u] by simp
  then show ?thesis using parse_format [of 10 "unat u" 32] by simp
qed

lemma passwd_user_line:
  assumes "good_user (n, u, g, rest)"
  shows "passwd_line name (user_line (n, u, g, rest)) = (if n = name then Some (u, g) else None)"
proof -
  have n: "CHR '':'' \<notin> set n" "\<not> has_prefix n ''#''" using assms by (auto simp: good_user_def)
  let ?l = "user_line (n, u, g, rest)"
  have "split_on CHR '':'' ?l = n # ''x'' # itoa (unat u) # itoa (unat g) # split_on CHR '':'' rest"
    using n split_on_append [of "CHR '':''" n] split_on_append [of "CHR '':''" "itoa (unat u)"]
      split_on_append [of "CHR '':''" "itoa (unat g)"] by (simp add: user_line_def)
  moreover have "?l \<noteq> []" "\<not> has_prefix ?l ''#''"
    using n(2) by (cases n; simp add: user_line_def has_prefix_def)+
  ultimately show ?thesis by (simp add: passwd_line_def Let_def)
qed


lemma first_line_map:
  "(\<forall>x \<in> set xs. f (g x) = (if k x = name then Some (v x) else None)) \<Longrightarrow>
   first_line f (map g xs) False = Inr (map_of (map (\<lambda>x. (k x, v x)) xs) name)"
  by (induction xs) auto

text \<open>
  C34. Users are found as \<open>/etc/passwd\<close> lists them. Where the file consists of lines of the usual form
  (a name without colon or newline that does not start with \<open>#\<close>, the numbers in decimal), a user
  given by name resolves to the numbers of the first line with that name; a name that is not
  listed resolves to itself as a number with group 0 if it is a number that fits 32 bits, and is
  refused otherwise.
\<close>

theorem resolveUser_passwd:
  assumes "read_file fs (kcomps (path_join [root, ''etc'', ''passwd''])) = Inr (bytes_of (passwd_text us))"
    and "\<forall>e \<in> set us. good_user e" "spec \<noteq> []" "CHR '':'' \<notin> set spec"
  shows "resolveUser fs root spec =
    (case map_of (map (\<lambda>(n, u, g, rest). (n, u, g)) us) spec of
       Some ug \<Rightarrow> Inr ug
     | None \<Rightarrow> (case parse_uint spec 10 32 of Inr n \<Rightarrow> Inr (word_of_nat n, 0) | Inl _ \<Rightarrow> Inl (UserNotFound spec)))"
proof -
  have "scan_lines (passwd_text us) = (map user_line us, False)"
    using scan_lines_text [of "map user_line us"] good_user_line assms(2) by (simp add: passwd_text_def comp_def)
  moreover have "first_line (passwd_line spec) (map user_line us) False =
      Inr (map_of (map (\<lambda>e. (fst e, fst (snd e), fst (snd (snd e)))) us) spec)"
    using passwd_user_line assms(2) by (intro first_line_map) auto
  ultimately have "lookupPasswd fs root spec = Inr (map_of (map (\<lambda>(n, u, g, rest). (n, u, g)) us) spec)"
    using assms(1) by (simp add: lookupPasswd_def scan_file_def case_prod_unfold)
  then show ?thesis
    using assms(3,4) by (auto simp: resolveUser_def Let_def split: option.splits sum.splits)
qed

definition passwd_fs :: fs where
  "passwd_fs = upd_inode 6 (set_content (bytes_of (passwd_text [(''root'', 0, 0, ''/root''), (''www'', 33, 34, []), (''www'', 1, 1, [])])))
     (upd_inode 5 (\<lambda>n. n\<lparr>i_node := Dir [(''passwd'', 6)]\<rparr>) demo_fs)"

lemma resolveUser_passwd_witness:
  "resolveUser passwd_fs ''/'' ''www'' = Inr (33, 34) \<and> resolveUser passwd_fs ''/'' ''7'' = Inr (7, 0)"
proof -
  let ?us = "[(''root'', 0, 0, ''/root''), (''www'', 33, 34, []), (''www'', 1, 1, [])] :: user_entry list"
  have "stat passwd_fs (kcomps (path_join [''/'', ''etc'', ''passwd''])) = Inr 6" by code_simp
  moreover have "f_inodes passwd_fs 6 = Some (set_content (bytes_of (passwd_text ?us)) (demo_inode (Reg [])))"
    by (simp add: passwd_fs_def upd_inode_def demo_fs_def)
  ultimately have "read_file passwd_fs (kcomps (path_join [''/'', ''etc'', ''passwd''])) = Inr (bytes_of (passwd_text ?us))"
    by (simp add: read_file_def set_content_def demo_inode_def)
  moreover have i: "itoa 0 = ''0''" "itoa 1 = ''1''" "itoa 33 = ''33''" "itoa 34 = ''34''" by code_simp+
  have "\<forall>e \<in> set ?us. good_user e"
    by (simp add: good_user_def user_line_def newline_def carriage_return_def has_prefix_def i i(2) [unfolded One_nat_def])
  moreover have "itoa 7 = ''7''" by code_simp
  then have "parse_uint ''7'' 10 32 = Inr 7" using parse_format [of 10 7 32] by simp
  ultimately show ?thesis using resolveUser_passwd [of passwd_fs "''/''" ?us] by simp
qed

end
