(* ===== verification/Network.thy ===== *)
theory Network
  imports GoNetIP StateFile "HOL-Library.Multiset"
begin

unbundle bit_operations_syntax

text \<open>
  Bringing the network up, \<open>internal/network/network.go\<close>. The DHCP clients and netlink are outside
  the program: what they answer is part of the argument (\<open>iface\<close>), what the program asks of netlink
  is recorded.
  Interfaces, and the two protocols on each, are configured by goroutines that append what they
  learned to a shared list; the order they finish in is an argument.
\<close>

section \<open>Nameservers\<close>

text \<open>The loop of \<open>dedup\<close> with the set of strings seen.\<close>

fun dedup_loop :: "string set \<Rightarrow> IP list \<Rightarrow> IP list" where
  "dedup_loop seen [] = []"
| "dedup_loop seen (ip # ips) =
     (if IP_String ip \<in> seen then dedup_loop seen ips
      else ip # dedup_loop (insert (IP_String ip) seen) ips)"

definition dedup :: "IP list \<Rightarrow> IP list" where
  "dedup ips = sort_key IP_String (dedup_loop {} ips)"

definition resolv_text :: "IP list \<Rightarrow> string" where
  "resolv_text ns =
     ''# written by peel'' @ [newline] @
     concat (map (\<lambda>ip. ''nameserver '' @ IP_String ip @ [newline]) ns)"

datatype network_error = NetCreatingDir errno | NetWriting errno

definition WriteResolvConf :: "string \<Rightarrow> IP list \<Rightarrow> fs \<Rightarrow> network_error option \<times> fs" where
  "WriteResolvConf root ns fs =
     (if ns = [] then (None, fs)
      else
        let path = path_join [root, ''etc'', ''resolv.conf''] in
        (case mkdir_all fs (kcomps (path_dir path)) 0x1ED of
           (Some e, fs1) \<Rightarrow> (Some (NetCreatingDir e), fs1)
         | (None, fs1) \<Rightarrow>
             (case write_file fs1 (kcomps path) (bytes_of (resolv_text ns)) 0x1A4 of
                (Some e, fs2) \<Rightarrow> (Some (NetWriting e), fs2)
              | (None, fs2) \<Rightarrow> (None, fs2))))"

section \<open>What an interface answers\<close>

record dhcp_ack =
  ack_ip :: IP
  ack_mask :: "byte list"
  ack_routers :: "IP list"
  ack_dns :: "IP list"

text \<open>An answer of \<open>netlink.AddrList\<close>: the addresses with their flags.\<close>

datatype poll = AddrListFailed | Addresses "(IP \<times> uint32) list"

text \<open>
  An interface with all answers of netlink and the DHCP libraries about it: whether it can be
  brought up, the two clients (\<open>None\<close>: the request failed), which addresses and routes netlink
  accepts, the address lists seen by polling until the context's time is over (at least one), and
  which of the two goroutines appends first.
\<close>

record iface =
  ln_Name :: string
  ln_Index :: nat
  ln_up :: bool
  ln_client4 :: bool
  ln_lease :: "dhcp_ack option"
  ln_addr_ok :: "IP \<Rightarrow> byte list \<Rightarrow> bool"
  ln_route_ok :: "IP \<Rightarrow> bool"
  ln_poll :: poll
  ln_polls :: "poll list"
  ln_client6 :: bool
  ln_message6 :: bool
  ln_reply6 :: "IP list option"
  ln_v4_first :: bool

text \<open>What was asked of netlink about an interface, in order.\<close>

datatype netlink_call = LinkSetUp nat | AddrReplace nat IP "byte list" | RouteReplace nat IP

section \<open>IPv4\<close>

text \<open>\<open>net.IP.DefaultMask\<close>.\<close>

definition DefaultMask :: "IP \<Rightarrow> byte list" where
  "DefaultMask ip =
     (case To4 ip of
        None \<Rightarrow> []
      | Some ip4 \<Rightarrow>
          if unat (hd ip4) < 0x80 then [0xFF, 0, 0, 0]
          else if unat (hd ip4) < 0xC0 then [0xFF, 0xFF, 0, 0]
          else [0xFF, 0xFF, 0xFF, 0])"

datatype v4_error = V4Client | V4Request | V4Address

text \<open>The loop over the routers: it stops at the first route netlink takes.\<close>

fun add_route :: "(IP \<Rightarrow> bool) \<Rightarrow> nat \<Rightarrow> IP list \<Rightarrow> netlink_call list" where
  "add_route route_ok idx [] = []"
| "add_route route_ok idx (gw # gws) =
     RouteReplace idx gw # (if route_ok gw then [] else add_route route_ok idx gws)"

definition configureLinkV4 :: "iface \<Rightarrow> (v4_error, IP list) result \<times> netlink_call list" where
  "configureLinkV4 ln =
     (if \<not> ln_client4 ln then (Inl V4Client, [])
      else case ln_lease ln of
        None \<Rightarrow> (Inl V4Request, [])
      | Some ack \<Rightarrow>
          let mask = (if ack_mask ack = [] then DefaultMask (ack_ip ack) else ack_mask ack);
              call = AddrReplace (ln_Index ln) (ack_ip ack) mask
          in if \<not> ln_addr_ok ln (ack_ip ack) mask then (Inl V4Address, [call])
             else (Inr (ack_dns ack), call # add_route (ln_route_ok ln) (ln_Index ln) (ack_routers ack)))"

section \<open>IPv6\<close>

definition IsLinkLocalUnicast :: "IP \<Rightarrow> bool" where
  "IsLinkLocalUnicast ip =
     (case To4 ip of
        Some ip4 \<Rightarrow> ip4 ! 0 = 169 \<and> ip4 ! 1 = 254
      | None \<Rightarrow> length ip = 16 \<and> ip ! 0 = 0xFE \<and> ip ! 1 AND 0xC0 = 0x80)"

definition IFA_F_TENTATIVE :: uint32 where
  "IFA_F_TENTATIVE = 0x40"

datatype wait_error = AddrListError | ContextDone

definition usable :: "(IP \<times> uint32) list \<Rightarrow> bool" where
  "usable as \<longleftrightarrow> list_ex (\<lambda>(ip, flags). IsLinkLocalUnicast ip \<and> flags AND IFA_F_TENTATIVE = 0) as"

text \<open>
  The first list, and those seen after each pause; when there are no more the context has ended,
  as it does at the latest after the timeout \<open>configureLink\<close> gives it.
\<close>

fun waitForUsableLinkLocal :: "poll \<Rightarrow> poll list \<Rightarrow> (wait_error, unit) result" where
  "waitForUsableLinkLocal AddrListFailed ps = Inl AddrListError"
| "waitForUsableLinkLocal (Addresses as) ps =
     (if usable as then Inr ()
      else case ps of [] \<Rightarrow> Inl ContextDone | p # ps' \<Rightarrow> waitForUsableLinkLocal p ps')"

datatype v6_error = V6Wait wait_error | V6Client | V6Message | V6Request

definition configureLinkV6 :: "iface \<Rightarrow> (v6_error, IP list) result" where
  "configureLinkV6 ln =
     (case waitForUsableLinkLocal (ln_poll ln) (ln_polls ln) of
        Inl e \<Rightarrow> Inl (V6Wait e)
      | Inr _ \<Rightarrow>
          if \<not> ln_client6 ln then Inl V6Client
          else if \<not> ln_message6 ln then Inl V6Message
          else case ln_reply6 ln of None \<Rightarrow> Inl V6Request | Some dns \<Rightarrow> Inr dns)"

section \<open>Interfaces\<close>

definition configureLink :: "iface \<Rightarrow> IP list \<times> netlink_call list" where
  "configureLink ln =
     (if \<not> ln_up ln then ([], [LinkSetUp (ln_Index ln)])
      else
        (case configureLinkV4 ln of (v4, calls) \<Rightarrow>
           let d4 = (case v4 of Inl _ \<Rightarrow> [] | Inr dns \<Rightarrow> dns);
               d6 = (case configureLinkV6 ln of Inl _ \<Rightarrow> [] | Inr dns \<Rightarrow> dns)
           in (if ln_v4_first ln then d4 @ d6 else d6 @ d4, LinkSetUp (ln_Index ln) # calls)))"

text \<open>
  All interfaces, or \<open>None\<close> if they cannot be listed; \<open>arrive\<close> is the order in which the goroutines
  append what they learned. The result has the nameservers and, for each interface configured,
  what was asked of netlink.
\<close>

definition Configure ::
  "iface list option \<Rightarrow> (IP list list \<Rightarrow> IP list list) \<Rightarrow> string \<Rightarrow> fs \<Rightarrow> (IP list \<times> netlink_call list list) \<times> fs"
where
  "Configure links arrive root fs =
     (case links of
        None \<Rightarrow> (([], []), fs)
      | Some ls \<Rightarrow>
          let rs = map configureLink (filter (\<lambda>ln. ln_Name ln \<noteq> ''lo'') ls);
              ns = dedup (concat (arrive (map fst rs)))
          in ((ns, map snd rs), snd (WriteResolvConf root ns fs)))"

section \<open>One interface\<close>

text \<open>The routers tried: those up to and including the first that is accepted.\<close>

lemma add_route_tried:
  "add_route ok idx rs =
     map (RouteReplace idx) (takeWhile (\<lambda>g. \<not> ok g) rs @ take 1 (dropWhile (\<lambda>g. \<not> ok g) rs))"
  by (induction rs) simp_all

text \<open>
  A usable address was seen: some list polled, with none that could not be read before it, has a
  link-local address that is not tentative.
\<close>

definition link_local_seen :: "iface \<Rightarrow> bool" where
  "link_local_seen ln \<longleftrightarrow>
     (\<exists>before as rest. ln_poll ln # ln_polls ln = before @ Addresses as # rest \<and> AddrListFailed \<notin> set before \<and>
        (\<exists>ip flags. (ip, flags) \<in> set as \<and> IsLinkLocalUnicast ip \<and> flags AND 0x40 = 0))"

lemma wait_usable:
  "waitForUsableLinkLocal p ps = Inr () \<longleftrightarrow>
     (\<exists>qs as rs. p # ps = qs @ Addresses as # rs \<and> AddrListFailed \<notin> set qs \<and> usable as)"
proof (induction p ps rule: waitForUsableLinkLocal.induct)
  case (1 ps)
  then show ?case by (auto simp: Cons_eq_append_conv)
next
  case (2 as ps)
  show ?case
  proof (cases "usable as")
    case True
    then have "Addresses as # ps = [] @ Addresses as # ps \<and> AddrListFailed \<notin> set [] \<and> usable as" by simp
    with True show ?thesis by fastforce
  next
    case False
    have "(\<exists>qs bs rs. Addresses as # ps = qs @ Addresses bs # rs \<and> AddrListFailed \<notin> set qs \<and> usable bs)
      \<longleftrightarrow> (\<exists>qs bs rs. ps = qs @ Addresses bs # rs \<and> AddrListFailed \<notin> set qs \<and> usable bs)"
      (is "?l \<longleftrightarrow> ?r")
    proof
      assume ?l
      then obtain qs bs rs where "Addresses as # ps = qs @ Addresses bs # rs" "AddrListFailed \<notin> set qs" "usable bs" by blast
      with False show ?r by (cases qs) auto
    next
      assume ?r
      then obtain qs bs rs where "ps = qs @ Addresses bs # rs" "AddrListFailed \<notin> set qs" "usable bs" by blast
      then show ?l by (intro exI [of _ "Addresses as # qs"]) auto
    qed
    with False "2.IH" show ?thesis by (cases ps) auto
  qed
qed

lemma v6_learned:
  "(case configureLinkV6 ln of Inl _ \<Rightarrow> [] | Inr dns \<Rightarrow> dns) =
     (if link_local_seen ln \<and> ln_client6 ln \<and> ln_message6 ln then case ln_reply6 ln of None \<Rightarrow> [] | Some dns \<Rightarrow> dns
      else [])"
proof -
  have "usable as \<longleftrightarrow> (\<exists>ip flags. (ip, flags) \<in> set as \<and> IsLinkLocalUnicast ip \<and> flags AND 0x40 = 0)" for as
    by (auto simp: usable_def list_ex_iff IFA_F_TENTATIVE_def)
  then have "link_local_seen ln \<longleftrightarrow> waitForUsableLinkLocal (ln_poll ln) (ln_polls ln) = Inr ()"
    unfolding wait_usable link_local_seen_def by simp
  then show ?thesis
    by (cases "waitForUsableLinkLocal (ln_poll ln) (ln_polls ln)") (auto simp: configureLinkV6_def split: option.split)
qed

text \<open>The lease an interface gets, and the mask its address is set with.\<close>

definition leased :: "iface \<Rightarrow> dhcp_ack option" where
  "leased ln = (if ln_up ln \<and> ln_client4 ln then ln_lease ln else None)"

definition lease_mask :: "dhcp_ack \<Rightarrow> byte list" where
  "lease_mask ack = (if ack_mask ack = [] then DefaultMask (ack_ip ack) else ack_mask ack)"

lemma v4_leased:
  assumes "ln_up ln"
  shows "configureLinkV4 ln =
    (case leased ln of
       None \<Rightarrow> (Inl (if ln_client4 ln then V4Request else V4Client), [])
     | Some ack \<Rightarrow>
         let call = AddrReplace (ln_Index ln) (ack_ip ack) (lease_mask ack) in
         if ln_addr_ok ln (ack_ip ack) (lease_mask ack)
         then (Inr (ack_dns ack), call # add_route (ln_route_ok ln) (ln_Index ln) (ack_routers ack))
         else (Inl V4Address, [call]))"
  using assms by (simp add: configureLinkV4_def leased_def lease_mask_def Let_def split: option.split)

section \<open>Deduplication\<close>

lemma dedup_loop_strings:
  "set (map IP_String (dedup_loop seen ips)) = set (map IP_String ips) - seen \<and>
   distinct (map IP_String (dedup_loop seen ips))"
  by (induction seen ips rule: dedup_loop.induct) auto

lemma dedup_loop_subset: "set (dedup_loop seen ips) \<subseteq> set ips"
  by (induction seen ips rule: dedup_loop.induct) auto

lemma dedup_strings:
  "map IP_String (dedup ips) = sorted_list_of_set (IP_String ` set ips)" "set (dedup ips) \<subseteq> set ips"
proof -
  have "distinct (map IP_String (dedup ips))"
    using dedup_loop_strings [of "{}" ips] by (simp add: dedup_def distinct_map)
  moreover have "sorted (map IP_String (dedup ips))" by (simp add: dedup_def)
  moreover have "set (map IP_String (dedup ips)) = IP_String ` set ips"
    using dedup_loop_strings [of "{}" ips] by (simp add: dedup_def)
  ultimately show "map IP_String (dedup ips) = sorted_list_of_set (IP_String ` set ips)"
    by (metis sorted_list_of_set.idem_if_sorted_distinct)
  show "set (dedup ips) \<subseteq> set ips" using dedup_loop_subset [of "{}" ips] by (simp add: dedup_def)
qed

text \<open>The same interface up to which protocol finishes first.\<close>

definition retimed :: "iface \<Rightarrow> iface \<Rightarrow> bool" where
  "retimed a b \<longleftrightarrow> b = a\<lparr>ln_v4_first := ln_v4_first b\<rparr>"

lemma retimed_link:
  assumes "retimed a b"
  shows "ln_Name b = ln_Name a" "snd (configureLink b) = snd (configureLink a)"
    "set (fst (configureLink b)) = set (fst (configureLink a))"
proof -
  obtain x where b: "b = a\<lparr>ln_v4_first := x\<rparr>" using assms unfolding retimed_def by blast
  have "configureLinkV4 b = configureLinkV4 a" "configureLinkV6 b = configureLinkV6 a"
    unfolding b configureLinkV4_def configureLinkV6_def Let_def by (simp_all split: option.split sum.split)
  then show "ln_Name b = ln_Name a" "snd (configureLink b) = snd (configureLink a)"
    "set (fst (configureLink b)) = set (fst (configureLink a))"
    by (auto simp: b configureLink_def Let_def split: prod.splits)
qed

lemma retimed_links:
  assumes "list_all2 retimed links links'"
  shows "list_all2 retimed (filter (\<lambda>ln. ln_Name ln \<noteq> ''lo'') links) (filter (\<lambda>ln. ln_Name ln \<noteq> ''lo'') links')"
  using assms by (induction rule: list_all2_induct) (auto simp: retimed_link(1))

text \<open>
  C36. The network's configuration does not depend on timing. Whatever the order in which interfaces
  finish, and the two protocols on each of them, the same is asked of netlink for every interface
  but the loopback one, and \<open>resolv.conf\<close> gets the same text: each nameserver once, in the order of
  their textual form, and exactly those some interface learned.
\<close>

theorem Configure_order_independent:
  assumes "\<forall>ls. mset (arrive ls) = mset ls" "\<forall>ls. mset (arrive' ls) = mset ls" "list_all2 retimed links links'"
    and "Configure (Some links) arrive root fs = ((ns, calls), fs')"
    and "Configure (Some links') arrive' root fs = ((ns', calls'), fs'')"
  shows "calls' = calls \<and> resolv_text ns' = resolv_text ns \<and> fs'' = fs' \<and>
    distinct (map IP_String ns) \<and> sorted (map IP_String ns) \<and>
    IP_String ` set ns = IP_String ` (\<Union>ln \<in> {ln \<in> set links. ln_Name ln \<noteq> ''lo''}. set (fst (configureLink ln)))"
proof -
  let ?ls = "filter (\<lambda>ln. ln_Name ln \<noteq> ''lo'') links" and ?ls' = "filter (\<lambda>ln. ln_Name ln \<noteq> ''lo'') links'"
  let ?dns = "\<lambda>ls. map fst (map configureLink ls)"
  have a: "set (concat (arrive (?dns ?ls))) = set (concat (?dns ?ls))"
    "set (concat (arrive' (?dns ?ls'))) = set (concat (?dns ?ls'))"
    using assms(1,2) mset_eq_setD by (metis set_concat)+
  have "map snd (map configureLink ?ls') = map snd (map configureLink ?ls) \<and> set (concat (?dns ?ls')) = set (concat (?dns ?ls))"
    using retimed_links [OF assms(3)] by (induction rule: list_all2_induct) (auto simp: retimed_link)
  then have c: "calls' = calls" and s: "set (concat (arrive' (?dns ?ls'))) = set (concat (arrive (?dns ?ls)))"
    using a assms(4,5) by (auto simp: Configure_def Let_def)
  have ns: "ns = dedup (concat (arrive (?dns ?ls)))" "ns' = dedup (concat (arrive' (?dns ?ls')))"
    and fs: "fs' = snd (WriteResolvConf root ns fs)" "fs'' = snd (WriteResolvConf root ns' fs)"
    using assms(4,5) by (auto simp: Configure_def Let_def)
  then have eq: "map IP_String ns' = map IP_String ns" using dedup_strings(1) s by metis
  have tx: "resolv_text xs = ''# written by peel'' @ [newline] @
      concat (map (\<lambda>s. ''nameserver '' @ s @ [newline]) (map IP_String xs))" for xs
    by (simp add: resolv_text_def comp_def)
  have t: "resolv_text ns' = resolv_text ns" unfolding tx eq by simp
  have "ns' = [] \<longleftrightarrow> ns = []" using eq by (metis Nil_is_map_conv)
  then have "WriteResolvConf root ns' fs = WriteResolvConf root ns fs" unfolding WriteResolvConf_def t by simp
  then have "fs'' = fs'" using fs by simp
  moreover have "distinct (map IP_String ns)" "sorted (map IP_String ns)"
    "IP_String ` set ns = IP_String ` set (concat (?dns ?ls))"
    using dedup_strings(1) [of "concat (arrive (?dns ?ls))"] ns(1) a(1) set_map [of IP_String ns] by simp_all
  ultimately show ?thesis using c t by simp
qed

definition demo_iface :: "string \<Rightarrow> bool \<Rightarrow> iface" where
  "demo_iface name v4_first =
     \<lparr>ln_Name = name, ln_Index = 2, ln_up = True, ln_client4 = True,
      ln_lease = Some \<lparr>ack_ip = [10, 0, 0, 5], ack_mask = [], ack_routers = [[10, 0, 0, 1], [10, 0, 0, 2]], ack_dns = [[8, 8, 8, 8]]\<rparr>,
      ln_addr_ok = (\<lambda>_ _. True), ln_route_ok = (\<lambda>g. g = [10, 0, 0, 1]),
      ln_poll = Addresses [([0xFE, 0x80, 0, 0, 0, 0, 0, 0, 0, 0, 0, 0, 0, 0, 0, 1], 0x40)],
      ln_polls = [Addresses [([0xFE, 0x80, 0, 0, 0, 0, 0, 0, 0, 0, 0, 0, 0, 0, 0, 1], 0)]],
      ln_client6 = True, ln_message6 = True, ln_reply6 = Some [[9, 9, 9, 9]], ln_v4_first = v4_first\<rparr>"

lemma Configure_order_independent_witness:
  "snd (Configure (Some [demo_iface ''eth0'' True, demo_iface ''lo'' True]) id ''/'' demo_fs) =
   snd (Configure (Some [demo_iface ''eth0'' False, demo_iface ''lo'' False]) rev ''/'' demo_fs)"
proof -
  have R: "list_all2 retimed [demo_iface ''eth0'' True, demo_iface ''lo'' True] [demo_iface ''eth0'' False, demo_iface ''lo'' False]"
    by (simp add: retimed_def demo_iface_def)
  obtain ns calls fs' where C: "Configure (Some [demo_iface ''eth0'' True, demo_iface ''lo'' True]) id ''/'' demo_fs = ((ns, calls), fs')"
    by (metis prod.exhaust)
  obtain ns' calls' fs'' where C': "Configure (Some [demo_iface ''eth0'' False, demo_iface ''lo'' False]) rev ''/'' demo_fs = ((ns', calls'), fs'')"
    by (metis prod.exhaust)
  have "fs'' = fs'" using Configure_order_independent [OF _ _ R C C'] by simp
  with C C' show ?thesis by simp
qed

text \<open>
  C39. What is asked of netlink for one interface, and what is learned. It is brought up first. If
  that worked and the DHCPv4 server gave a lease, its address is set, with the mask of the lease or else
  the default one of its class; if netlink took it, the routers of the lease are tried in
  order up to and including the first that is accepted, so there is at most one default route and it
  is through the first router that works. Nothing else is asked, and nothing without a lease. The
  nameservers learned are exactly those of a lease whose address was set and those of the DHCPv6 reply;
  the latter counts if and only if a link-local address past duplicate detection was seen (before
  reading addresses failed or the time was over) and the request could be sent.
\<close>

theorem link_configuration:
  assumes "configureLink ln = (dns, calls)" "idx = ln_Index ln"
  shows "calls = LinkSetUp idx #
      (case leased ln of
         None \<Rightarrow> []
       | Some ack \<Rightarrow>
           AddrReplace idx (ack_ip ack) (lease_mask ack) #
           (if ln_addr_ok ln (ack_ip ack) (lease_mask ack)
            then map (RouteReplace idx)
              (takeWhile (\<lambda>g. \<not> ln_route_ok ln g) (ack_routers ack) @
               take 1 (dropWhile (\<lambda>g. \<not> ln_route_ok ln g) (ack_routers ack)))
            else [])) \<and>
    set dns =
      (case leased ln of
         None \<Rightarrow> {}
       | Some ack \<Rightarrow> if ln_addr_ok ln (ack_ip ack) (lease_mask ack) then set (ack_dns ack) else {}) \<union>
      (if ln_up ln \<and> link_local_seen ln \<and> ln_client6 ln \<and> ln_message6 ln
       then case ln_reply6 ln of None \<Rightarrow> {} | Some reply \<Rightarrow> set reply else {})"
proof (cases "ln_up ln")
  case False
  with assms show ?thesis by (auto simp: configureLink_def leased_def)
next
  case True
  note defs = configureLink_def v6_learned v4_leased [OF True] add_route_tried Let_def
  show ?thesis
  proof (cases "leased ln")
    case None
    with True assms show ?thesis by (auto simp: defs split: option.splits if_splits)
  next
    case (Some ack)
    with True assms show ?thesis
      by (cases "ln_addr_ok ln (ack_ip ack) (lease_mask ack)") (auto simp: defs split: option.splits if_splits)
  qed
qed

lemma link_configuration_witness:
  "configureLink (demo_iface ''eth0'' True) =
     ([[8, 8, 8, 8], [9, 9, 9, 9]], [LinkSetUp 2, AddrReplace 2 [10, 0, 0, 5] [0xFF, 0, 0, 0], RouteReplace 2 [10, 0, 0, 1]]) \<and>
   link_local_seen (demo_iface ''eth0'' True)"
proof -
  let ?ln = "demo_iface ''eth0'' True"
  have "snd (configureLink ?ln) = [LinkSetUp 2, AddrReplace 2 [10, 0, 0, 5] [0xFF, 0, 0, 0], RouteReplace 2 [10, 0, 0, 1]]"
    "fst (configureLink ?ln) = [[8, 8, 8, 8], [9, 9, 9, 9]]" by code_simp+
  then have c: "configureLink ?ln =
      ([[8, 8, 8, 8], [9, 9, 9, 9]], [LinkSetUp 2, AddrReplace 2 [10, 0, 0, 5] [0xFF, 0, 0, 0], RouteReplace 2 [10, 0, 0, 1]])"
    by (metis prod.collapse)
  from link_configuration [OF c refl]
  have "link_local_seen ?ln" by (auto simp: demo_iface_def leased_def split: if_splits)
  with c show ?thesis by blast
qed

section \<open>The written file\<close>

text \<open>How a resolver reads the file back: the addresses of the \<open>nameserver\<close> lines.\<close>

definition nameservers_of :: "string \<Rightarrow> IP option list" where
  "nameservers_of s =
     map (\<lambda>l. ParseIP (drop 11 l)) (filter (\<lambda>l. has_prefix l ''nameserver '') (split_on newline s))"

lemma IP_String_no_newline:
  assumes "length ip = 4 \<or> length ip = 16"
  shows "newline \<notin> set (IP_String ip)"
proof -
  have hx: "newline \<notin> set (hex_group g)" for g
  proof -
    have "hex_digit newline = None" by code_simp
    then show ?thesis using hex_digit_char format_nat_chars [of 16 newline g] by (fastforce simp: hex_group_def)
  qed
  have it: "newline \<notin> set (itoa n)" for n by (auto simp: newline_def dest: itoa_chars)
  have "newline \<notin> set (ipv4_String x)" for x
    using set_join_with [of "''.''" "map (\<lambda>b. itoa (unat b)) x"] it
    unfolding ipv4_String_def by (auto simp: newline_def)
  moreover have "newline \<notin> set (join_with '':'' (map hex_group gs))" for gs
    using set_join_with [of "'':''" "map hex_group gs"] hx by (auto simp: newline_def)
  then have "newline \<notin> set (ipv6_String x)" for x
    unfolding ipv6_String_def Let_def by (auto simp: newline_def split: prod.splits)
  ultimately show ?thesis using assms unfolding IP_String_def by (auto split: option.splits)
qed

lemma nameservers_of_text:
  assumes "\<forall>ip \<in> set ns. length ip = 4 \<or> length ip = 16"
  shows "nameservers_of (resolv_text ns) = map (\<lambda>ip. Some (To16 ip)) ns"
proof -
  have "split_on newline (concat (map (\<lambda>ip. ''nameserver '' @ IP_String ip @ [newline]) ns)) =
      map (\<lambda>ip. ''nameserver '' @ IP_String ip) ns @ [[]]"
    using assms
  proof (induction ns)
    case (Cons ip ns)
    have "newline \<notin> set (''nameserver '' @ IP_String ip)"
      using IP_String_no_newline [of ip] Cons.prems by (simp add: newline_def)
    from split_on_append [OF this] Cons show ?case by simp
  qed simp
  moreover have "newline \<notin> set ''# written by peel''" by (simp add: newline_def)
  note split_on_append [OF this]
  ultimately have "split_on newline (resolv_text ns) =
      ''# written by peel'' # map (\<lambda>ip. ''nameserver '' @ IP_String ip) ns @ [[]]"
    by (simp add: resolv_text_def)
  moreover have "map (\<lambda>l. ParseIP (drop 11 l)) (filter (\<lambda>l. has_prefix l ''nameserver '')
      (map (\<lambda>ip. ''nameserver '' @ IP_String ip) ns)) = map (\<lambda>ip. Some (To16 ip)) ns"
    using assms ParseIP_String by (induction ns) (auto simp: has_prefix_def)
  ultimately show ?thesis by (simp add: nameservers_of_def has_prefix_def)
qed


lemma write_located:
  assumes "wf_fs fs" "located fs es d"
    and "\<And>i. entry fs d (last es) = Some i \<Longrightarrow> \<exists>n b. f_inodes fs i = Some n \<and> i_node n = Reg b"
  shows "\<exists>fs'. write_file fs es b m = (None, fs') \<and> read_file fs' es = Inr b"
proof -
  have d: "is_dir fs d" "d \<noteq> f_next fs" using assms(2) dir_not_next [OF assms(1)] by (auto simp: located_def)
  have reg: "symlink_target fs i = None \<and> \<not> is_dir fs i \<and> \<not> is_sock fs i" if "entry fs d (last es) = Some i" for i
    using assms(3) [OF that] by (auto simp: symlink_target_def is_dir_def is_sock_def dir_entries_def)
  obtain i fs1 n b0 where o: "open_trunc fs es m = (Inr i, fs1)" "located fs1 es d" "entry fs1 d (last es) = Some i"
    "f_inodes fs1 i = Some n" "i_node n = Reg b0"
  proof (cases "entry fs d (last es)")
    case None
    then have "open_trunc fs es m = (Inr (f_next fs), create_at d (last es) (Reg []) (m AND NOT (f_umask fs)) fs)"
      using located_resolve [OF assms(2), of True] by (simp add: open_trunc_def)
    moreover have "entry (create_at d (last es) (Reg []) (m AND NOT (f_umask fs)) fs) d (last es) = Some (f_next fs)"
      using create_at_simps(3) [OF d] by simp
    ultimately show thesis
      using located_create [OF assms(1,2)] create_at_inode [OF d(2)]
      by (intro that [of "f_next fs" _ _ "[]"]) (simp add: fresh_inode_def)+
  next
    case (Some j)
    then have "open_trunc fs es m = (Inr j, upd_inode j (set_content []) fs)"
      using located_resolve [OF assms(2), of True] reg by (simp add: open_trunc_def)
    moreover obtain n b0 where "f_inodes fs j = Some n" "i_node n = Reg b0" using assms(3) [OF Some] by blast
    ultimately show thesis using assms(2) Some
      by (intro that [of j "upd_inode j (set_content []) fs" "set_content [] n" "[]"]) (simp_all add: set_content_reg)
  qed
  let ?fs2 = "upd_inode i (set_content b) fs1"
  have "contents ?fs2 i = Inr b" "symlink_target ?fs2 i = None"
    using o(4) set_content_reg [OF o(5)] by (simp_all add: contents_def symlink_target_def)
  then have "read_file ?fs2 es = Inr b" using read_located [of ?fs2 es d] o(2,3) by simp
  then show ?thesis using o(1) by (simp add: write_file_def)
qed

lemma resolv_path:
  "kcomps (path_dir (path_join [''/'', ''etc'', ''resolv.conf''])) = [''etc'']"
  "kcomps (path_join [''/'', ''etc'', ''resolv.conf'']) = [''etc'', ''resolv.conf'']"
  by code_simp+

text \<open>
  C37. \<open>resolv.conf\<close> says what was configured. Where \<open>/etc\<close> is a directory reached without symbolic
  links and \<open>resolv.conf\<close> is missing or a regular file, writing succeeds, and a resolver that reads
  the \<open>nameserver\<close> lines back gets exactly the nameservers given, in order. With no nameservers
  nothing is touched, so an image's own file survives.
\<close>

theorem resolv_conf_roundtrip:
  assumes "wf_fs fs" "located fs [''etc'', ''resolv.conf''] d" "ns \<noteq> []" "\<forall>ip \<in> set ns. length ip = 4 \<or> length ip = 16"
    and "\<And>i. entry fs d ''resolv.conf'' = Some i \<Longrightarrow> \<exists>n b. f_inodes fs i = Some n \<and> i_node n = Reg b"
  shows "\<exists>fs' b. WriteResolvConf ''/'' ns fs = (None, fs') \<and> read_file fs' [''etc'', ''resolv.conf''] = Inr b \<and>
    nameservers_of (text_of b) = map (\<lambda>ip. Some (To16 ip)) ns \<and> WriteResolvConf ''/'' [] fs = (None, fs)"
proof -
  have m: "mkdir_all fs [''etc''] 0x1ED = (None, fs)" using mkdir_parent_located [OF assms(1,2)] by simp
  obtain fs' where w: "write_file fs [''etc'', ''resolv.conf''] (bytes_of (resolv_text ns)) 0x1A4 = (None, fs')"
    "read_file fs' [''etc'', ''resolv.conf''] = Inr (bytes_of (resolv_text ns))"
    using write_located [OF assms(1,2)] assms(5) by fastforce
  have "WriteResolvConf ''/'' ns fs = (None, fs')"
    unfolding WriteResolvConf_def Let_def resolv_path using assms(3) m w(1) by simp
  then show ?thesis using w(2) nameservers_of_text [OF assms(4)] by (simp add: WriteResolvConf_def)
qed

lemma resolv_conf_roundtrip_witness:
  "\<exists>fs' b. WriteResolvConf ''/'' [[8, 8, 8, 8]] demo_fs = (None, fs') \<and> read_file fs' [''etc'', ''resolv.conf''] = Inr b \<and>
     nameservers_of (text_of b) = [Some (To16 [8, 8, 8, 8])]"
proof -
  have "plain demo_fs [''etc'', ''resolv.conf'']"
    by (simp add: plain_def demo_entry upt_rec) (simp add: symlink_target_def demo_fs_def demo_inode_def)
  then have "located demo_fs [''etc'', ''resolv.conf''] 5"
    by (simp add: located_def proper_def demo_entry demo_is_dir)
  from resolv_conf_roundtrip [OF inv_wf [OF demo_inv] this, of "[[8, 8, 8, 8]]"] show ?thesis
    by (auto simp: demo_entry)
qed

end
