(* ===== verification/Supervisor.thy ===== *)
theory Supervisor
  imports Entrypoint
begin

text \<open>
  PID 1, \<open>internal/supervisor/supervisor.go\<close>: the loop of \<open>Run\<close> beside the kernel. Processes exit,
  fork and signals arrive at any moment, also between two \<open>wait4\<close> calls; a step of the program is
  the receipt of a signal or one \<open>wait4\<close>. Every process of the container is a child of the
  supervisor or becomes one before it can be the last, so \<open>live\<close> and \<open>zombies\<close> are all of them.
\<close>

section \<open>State\<close>

type_synonym pid = nat

datatype sig = SIGCHLD | SIGINT | SIGTERM | SIGPWR | RTMIN3 | OtherSignal

datatype reboot = POWER_OFF | RESTART

text \<open>Signals the supervisor sends to all processes.\<close>

datatype broadcast = TermAll | KillAll

text \<open>
  Where the program is: waiting for a signal, in the \<open>reapAll\<close> of the child signal (with what it has
  seen so far), in the one at the end of the loop, or past the loop.
\<close>

datatype pc = Waiting | Reaping bool | Emptying | Rebooting

record sup =
  s_main :: pid
  s_live :: "pid set"
  s_zombies :: "pid set"
  s_queue :: "sig list"
  s_pc :: pc
  s_shuttingDown :: bool
  s_rebootCmd :: reboot
  s_sent :: "broadcast list"

definition sigBuffer :: nat where
  "sigBuffer = 64"

text \<open>The command handed to \<open>os/exec\<close>, and what starting it answers: a process, or \<open>None\<close>.\<close>

record exec_cmd =
  x_Path :: string
  x_Args :: "string list"
  x_Env :: "string list"
  x_Dir :: string
  x_Uid :: uint32
  x_Gid :: uint32
  x_Groups :: "uint32 list"

definition start :: "(exec_cmd \<Rightarrow> pid option) \<Rightarrow> Spec \<Rightarrow> pid option" where
  "start exec spec =
     exec \<lparr>x_Path = sp_Path spec, x_Args = sp_Argv spec, x_Env = sp_Env spec, x_Dir = sp_Dir spec,
           x_Uid = sp_UID spec, x_Gid = sp_GID spec, x_Groups = sp_Groups spec\<rparr>"

text \<open>The state in which the loop begins once the entrypoint has a process.\<close>

definition sup_start :: "pid \<Rightarrow> sup" where
  "sup_start main =
     \<lparr>s_main = main, s_live = {main}, s_zombies = {}, s_queue = [], s_pc = Waiting,
      s_shuttingDown = False, s_rebootCmd = POWER_OFF, s_sent = []\<rparr>"

text \<open>\<open>Run\<close> up to its loop; it returns an error if the entrypoint cannot be started.\<close>

definition sup_Run :: "(exec_cmd \<Rightarrow> pid option) \<Rightarrow> Spec \<Rightarrow> sup option" where
  "sup_Run exec spec = map_option sup_start (start exec spec)"

section \<open>The program\<close>

definition beginShutdown :: "reboot \<Rightarrow> sup \<Rightarrow> sup" where
  "beginShutdown cmd s =
     (if s_shuttingDown s then s
      else s\<lparr>s_shuttingDown := True, s_rebootCmd := cmd, s_sent := s_sent s @ [TermAll]\<rparr>)"

text \<open>The end of the loop body: another reaping when shutting down, else back to waiting.\<close>

definition loop_end :: "sup \<Rightarrow> sup" where
  "loop_end s = s\<lparr>s_pc := (if s_shuttingDown s then Emptying else Waiting)\<rparr>"

text \<open>The switch on a received signal.\<close>

definition on_signal :: "sig \<Rightarrow> sup \<Rightarrow> sup" where
  "on_signal sig s =
     (case sig of
        SIGCHLD \<Rightarrow> s\<lparr>s_pc := Reaping False\<rparr>
      | SIGINT \<Rightarrow> loop_end (beginShutdown RESTART s)
      | SIGTERM \<Rightarrow> loop_end (beginShutdown POWER_OFF s)
      | SIGPWR \<Rightarrow> loop_end (beginShutdown POWER_OFF s)
      | RTMIN3 \<Rightarrow> loop_end (beginShutdown POWER_OFF s)
      | OtherSignal \<Rightarrow> s\<lparr>s_pc := Waiting\<rparr>)"

text \<open>What \<open>wait4\<close> with \<open>WNOHANG\<close> answers.\<close>

datatype wait = EINTR | ECHILD | WaitFailed | NoneExited | Exited pid

text \<open>\<open>None\<close>: \<open>reapAll\<close> goes on; otherwise the two values it returns.\<close>

definition reap_answer :: "pid \<Rightarrow> wait \<Rightarrow> bool \<Rightarrow> bool \<times> (bool \<times> bool) option" where
  "reap_answer main w sawMain =
     (case w of
        EINTR \<Rightarrow> (sawMain, None)
      | ECHILD \<Rightarrow> (sawMain, Some (sawMain, True))
      | WaitFailed \<Rightarrow> (sawMain, Some (sawMain, False))
      | NoneExited \<Rightarrow> (sawMain, Some (sawMain, False))
      | Exited p \<Rightarrow> (sawMain \<or> p = main, None))"

text \<open>What follows the \<open>reapAll\<close> of the child signal.\<close>

definition after_reap :: "bool \<Rightarrow> bool \<Rightarrow> sup \<Rightarrow> sup" where
  "after_reap sawMain noneLeft s =
     (let s1 = (if sawMain \<and> \<not> s_shuttingDown s then beginShutdown POWER_OFF s else s)
      in if s_shuttingDown s1 \<and> noneLeft then s1\<lparr>s_pc := Rebooting\<rparr> else loop_end s1)"

definition on_wait :: "wait \<Rightarrow> sup \<Rightarrow> sup" where
  "on_wait w s =
     (case s_pc s of
        Reaping saw \<Rightarrow>
          (case reap_answer (s_main s) w saw of
             (saw', None) \<Rightarrow> s\<lparr>s_pc := Reaping saw'\<rparr>
           | (_, Some (saw', noneLeft)) \<Rightarrow> after_reap saw' noneLeft s)
      | Emptying \<Rightarrow>
          (case reap_answer (s_main s) w False of
             (_, None) \<Rightarrow> s
           | (_, Some (_, noneLeft)) \<Rightarrow> s\<lparr>s_pc := (if noneLeft then Rebooting else Waiting)\<rparr>)
      | _ \<Rightarrow> s)"

section \<open>The kernel\<close>

text \<open>A \<open>wait4\<close> that collects a process removes it.\<close>

definition collect :: "wait \<Rightarrow> sup \<Rightarrow> sup" where
  "collect w s = (case w of Exited p \<Rightarrow> s\<lparr>s_zombies := s_zombies s - {p}\<rparr> | _ \<Rightarrow> s)"

definition answers :: "sup \<Rightarrow> wait \<Rightarrow> bool" where
  "answers s w \<longleftrightarrow>
     (case w of
        EINTR \<Rightarrow> True
      | ECHILD \<Rightarrow> s_live s = {} \<and> s_zombies s = {}
      | WaitFailed \<Rightarrow> False
      | NoneExited \<Rightarrow> s_live s \<noteq> {} \<and> s_zombies s = {}
      | Exited p \<Rightarrow> p \<in> s_zombies s)"

text \<open>A signal is dropped when the channel is full.\<close>

definition notify :: "sig \<Rightarrow> sup \<Rightarrow> sup" where
  "notify sig s = (if length (s_queue s) < sigBuffer then s\<lparr>s_queue := s_queue s @ [sig]\<rparr> else s)"

definition exits :: "pid \<Rightarrow> sup \<Rightarrow> sup" where
  "exits p s = notify SIGCHLD (s\<lparr>s_live := s_live s - {p}, s_zombies := insert p (s_zombies s)\<rparr>)"

inductive prog_step :: "sup \<Rightarrow> sup \<Rightarrow> bool" where
  p_recv: "s_pc s = Waiting \<Longrightarrow> s_queue s = sig # q \<Longrightarrow> prog_step s (on_signal sig (s\<lparr>s_queue := q\<rparr>))"
| p_wait: "s_pc s \<in> {Reaping saw, Emptying} \<Longrightarrow> answers s w \<Longrightarrow> w \<noteq> EINTR \<Longrightarrow> prog_step s (on_wait w (collect w s))"

inductive sup_step :: "sup \<Rightarrow> sup \<Rightarrow> bool" where
  s_prog: "prog_step s s' \<Longrightarrow> sup_step s s'"
| s_intr: "s_pc s \<in> {Reaping saw, Emptying} \<Longrightarrow> sup_step s (on_wait EINTR s)"
| s_exit: "p \<in> s_live s \<Longrightarrow> sup_step s (exits p s)"
| s_fork: "s_live s \<noteq> {} \<Longrightarrow> p \<notin> s_live s \<union> s_zombies s \<Longrightarrow> p \<noteq> s_main s \<Longrightarrow> sup_step s (s\<lparr>s_live := insert p (s_live s)\<rparr>)"
| s_signal: "sig \<noteq> OtherSignal \<Longrightarrow> sup_step s (notify sig s)"
| s_grace: "s_shuttingDown s \<Longrightarrow> KillAll \<notin> set (s_sent s) \<Longrightarrow> sup_step s (s\<lparr>s_sent := s_sent s @ [KillAll]\<rparr>)"

inductive_cases prog_stepE: "prog_step s s'"
inductive_cases sup_stepE: "sup_step s s'"

section \<open>Invariant\<close>

definition sup_inv :: "sup \<Rightarrow> bool" where
  "sup_inv s \<longleftrightarrow>
     finite (s_zombies s) \<and> OtherSignal \<notin> set (s_queue s) \<and>
     (s_pc s = Waiting \<and> s_zombies s \<noteq> {} \<longrightarrow> s_queue s \<noteq> []) \<and>
     (s_pc s = Waiting \<longrightarrow> s_live s \<union> s_zombies s \<noteq> {}) \<and>
     (s_main s \<notin> s_live s \<union> s_zombies s \<longrightarrow> s_shuttingDown s \<or> s_pc s = Reaping True) \<and>
     (s_pc s = Emptying \<longrightarrow> s_shuttingDown s) \<and>
     (s_pc s = Rebooting \<longrightarrow> s_shuttingDown s \<and> s_live s = {} \<and> s_zombies s = {}) \<and>
     s_sent s \<in> (if s_shuttingDown s then {[TermAll], [TermAll, KillAll]} else {[]})"

lemmas sup_ops = on_signal_def on_wait_def collect_def notify_def exits_def beginShutdown_def loop_end_def
  after_reap_def reap_answer_def answers_def

lemma start_inv: "sup_inv (sup_start main)"
  by (simp add: sup_inv_def sup_start_def)

lemma recv_inv:
  assumes "sup_inv s" "s_pc s = Waiting" "s_queue s = sig # q"
  shows "sup_inv (on_signal sig (s\<lparr>s_queue := q\<rparr>))"
  using assms by (cases sig) (auto simp: sup_inv_def sup_ops split: if_splits)

lemma wait_inv:
  assumes "sup_inv s" "s_pc s \<in> {Reaping saw, Emptying}" "answers s w"
  shows "sup_inv (on_wait w (collect w s))"
proof (cases "s_pc s")
  case (Reaping b)
  with assms show ?thesis by (cases w; cases b) (auto simp: sup_inv_def sup_ops split: if_splits)
next
  case Emptying
  with assms show ?thesis by (cases w) (auto simp: sup_inv_def sup_ops split: if_splits)
qed (use assms(2) in auto)

lemma sup_step_inv: "sup_step s s' \<Longrightarrow> sup_inv s \<Longrightarrow> sup_inv s'"
proof (induction rule: sup_step.induct)
  case (s_prog s s')
  then show ?case using recv_inv wait_inv by (auto elim!: prog_stepE)
next
  case (s_intr s saw)
  then show ?case using wait_inv [of s saw EINTR] by (simp add: answers_def collect_def)
qed (auto simp: sup_inv_def notify_def exits_def sigBuffer_def split: if_splits)

lemma sup_reachable_inv: "sup_step\<^sup>*\<^sup>* (sup_start main) s \<Longrightarrow> sup_inv s"
  by (induction rule: rtranclp_induct) (auto intro: start_inv sup_step_inv)


section \<open>Properties\<close>

text \<open>
  C13. Safety of PID 1, whatever exits, forks and signals interleave with it: \<open>reboot\<close> is called only
  when no process of the container is left, running or unreaped, and only during a shutdown; when
  the entrypoint has been reaped a shutdown has begun or begins when this reaping ends; all
  processes are sent SIGTERM exactly once, at the beginning of the shutdown, and SIGKILL at most
  once, afterwards. The first cause decides: once begun, a shutdown keeps its kind, and it is a
  restart exactly when SIGINT began it.
\<close>

theorem supervisor_safe:
  assumes "sup_step\<^sup>*\<^sup>* (sup_start main) s"
  shows "(s_pc s = Rebooting \<longrightarrow> s_shuttingDown s \<and> s_live s = {} \<and> s_zombies s = {}) \<and>
    (s_main s \<notin> s_live s \<union> s_zombies s \<longrightarrow> s_shuttingDown s \<or> s_pc s = Reaping True) \<and>
    s_sent s \<in> (if s_shuttingDown s then {[TermAll], [TermAll, KillAll]} else {[]}) \<and>
    (\<forall>s'. sup_step s s' \<and> s_shuttingDown s \<longrightarrow> s_shuttingDown s' \<and> s_rebootCmd s' = s_rebootCmd s) \<and>
    (\<forall>s'. sup_step s s' \<and> \<not> s_shuttingDown s \<and> s_shuttingDown s' \<longrightarrow>
       (s_rebootCmd s' = RESTART \<longleftrightarrow> s_pc s = Waiting \<and> s_queue s \<noteq> [] \<and> hd (s_queue s) = SIGINT))"
proof -
  have "sup_inv s" by (rule sup_reachable_inv [OF assms])
  moreover have "s_shuttingDown s' \<and> s_rebootCmd s' = s_rebootCmd s" if "sup_step s s'" "s_shuttingDown s" for s'
    using that by (auto elim!: sup_stepE prog_stepE simp: sup_ops split: sig.splits wait.splits pc.splits if_splits)
  moreover have "s_rebootCmd s' = RESTART \<longleftrightarrow> s_pc s = Waiting \<and> s_queue s \<noteq> [] \<and> hd (s_queue s) = SIGINT"
    if "sup_step s s'" "\<not> s_shuttingDown s" "s_shuttingDown s'" for s'
    using that by (auto elim!: sup_stepE prog_stepE simp: sup_ops split: sig.splits wait.splits pc.splits if_splits)
  ultimately show ?thesis unfolding sup_inv_def by blast
qed

lemma supervisor_safe_witness:
  "s_shuttingDown (on_signal SIGINT ((sup_start 7)\<lparr>s_queue := []\<rparr>)) \<and>
   s_sent (on_signal SIGINT ((sup_start 7)\<lparr>s_queue := []\<rparr>)) \<in> {[TermAll], [TermAll, KillAll]}"
proof -
  let ?a = "notify SIGINT (sup_start 7)"
  have a: "s_pc ?a = Waiting" "s_queue ?a = [SIGINT]" "?a\<lparr>s_queue := []\<rparr> = (sup_start 7)\<lparr>s_queue := []\<rparr>"
    by (simp_all add: notify_def sup_start_def sigBuffer_def)
  have "sup_step (sup_start 7) ?a" by (rule s_signal) simp
  moreover have "sup_step ?a (on_signal SIGINT ((sup_start 7)\<lparr>s_queue := []\<rparr>))"
    using s_prog [OF p_recv [OF a(1,2)]] a(3) by simp
  ultimately have "sup_step\<^sup>*\<^sup>* (sup_start 7) (on_signal SIGINT ((sup_start 7)\<lparr>s_queue := []\<rparr>))" by simp
  note S = supervisor_safe [OF this]
  have "s_shuttingDown (on_signal SIGINT ((sup_start 7)\<lparr>s_queue := []\<rparr>))"
    by (simp add: on_signal_def beginShutdown_def loop_end_def)
  with S show ?thesis by simp
qed

text \<open>What is left to do once no process runs any more.\<close>

definition sup_left :: "sup \<Rightarrow> nat" where
  "sup_left s = 3 * length (s_queue s) + 3 * card (s_zombies s) +
     (case s_pc s of Reaping _ \<Rightarrow> 2 | Emptying \<Rightarrow> 1 | _ \<Rightarrow> 0)"

lemma prog_step_left:
  assumes "prog_step s s'" "sup_inv s" "s_live s = {}"
  shows "sup_left s' < sup_left s" "s_live s' = {}"
proof -
  have fin: "finite (s_zombies s)" using assms(2) by (simp add: sup_inv_def)
  have less: "card (s_zombies s - {p}) < card (s_zombies s)" if "p \<in> s_zombies s" for p
    by (rule card_Diff1_less [OF fin that])
  from assms(1) have "sup_left s' < sup_left s \<and> s_live s' = {}"
  proof (cases rule: prog_step.cases)
    case (p_recv sig q)
    with assms(3) show ?thesis by (cases sig) (auto simp: sup_left_def sup_ops)
  next
    case (p_wait saw w)
    with assms(3) less show ?thesis
      by (cases w) (auto simp: sup_left_def sup_ops split: if_splits)
  qed
  then show "sup_left s' < sup_left s" "s_live s' = {}" by simp_all
qed

lemma prog_step_enabled:
  assumes "sup_inv s" "s_live s = {}" "s_pc s \<noteq> Rebooting"
  shows "\<exists>s'. prog_step s s'"
proof (cases "s_pc s")
  case Waiting
  then obtain sig q where "s_queue s = sig # q" using assms by (cases "s_queue s") (auto simp: sup_inv_def)
  with Waiting show ?thesis using p_recv by blast
next
  case (Reaping saw)
  show ?thesis
  proof (cases "s_zombies s = {}")
    case True
    with Reaping assms(2) show ?thesis using p_wait [of s saw ECHILD] by (auto simp: answers_def)
  next
    case False
    then obtain p where "p \<in> s_zombies s" by blast
    with Reaping show ?thesis using p_wait [of s saw "Exited p"] by (auto simp: answers_def)
  qed
next
  case Emptying
  show ?thesis
  proof (cases "s_zombies s = {}")
    case True
    with Emptying assms(2) show ?thesis using p_wait [of s False ECHILD] by (auto simp: answers_def)
  next
    case False
    then obtain p where "p \<in> s_zombies s" by blast
    with Emptying show ?thesis using p_wait [of s False "Exited p"] by (auto simp: answers_def)
  qed
qed (use assms(3) in simp)

text \<open>
  C3. The container always goes down. From every reachable state in which the last process has
  exited, however many signals were dropped because the channel was full, the program is never
  stuck: at most \<open>sup_left\<close> of its own steps, whichever way they go, lead to the call of \<open>reboot\<close>, and
  no sequence of steps stops before that.
\<close>

theorem supervisor_goes_down:
  assumes "sup_step\<^sup>*\<^sup>* (sup_start main) s" "s_live s = {}" "(prog_step ^^ n) s s'"
  shows "n \<le> sup_left s \<and> ((\<exists>s''. prog_step s' s'') \<or> s_pc s' = Rebooting)"
proof -
  have "sup_inv s' \<and> s_live s' = {} \<and> n + sup_left s' \<le> sup_left s"
    using assms(3)
  proof (induction n arbitrary: s')
    case 0
    with sup_reachable_inv [OF assms(1)] assms(2) show ?case by simp
  next
    case (Suc n)
    then obtain t where t: "(prog_step ^^ n) s t" "prog_step t s'" by auto
    note IH = Suc.IH [OF t(1)]
    with prog_step_left [OF t(2)] sup_step_inv [OF s_prog [OF t(2)]] show ?case by auto
  qed
  then show ?thesis using prog_step_enabled by auto
qed

lemma supervisor_goes_down_witness:
  "\<exists>s'. prog_step (exits 7 (sup_start 7)) s'"
proof -
  have "sup_step\<^sup>*\<^sup>* (sup_start 7) (exits 7 (sup_start 7))"
    by (rule r_into_rtranclp, rule s_exit) (simp add: sup_start_def)
  moreover have "s_live (exits 7 (sup_start 7)) = {}" "s_pc (exits 7 (sup_start 7)) \<noteq> Rebooting"
    by (simp_all add: exits_def notify_def sup_start_def)
  ultimately show ?thesis
    using supervisor_goes_down [of 7 "exits 7 (sup_start 7)" 0 "exits 7 (sup_start 7)"] by simp
qed

end
