(* ===== verification/Boot.thy ===== *)
theory Boot
  imports Entrypoint Network LoDiscovery Supervisor
begin

text \<open>
  One boot: \<open>run\<close> and \<open>ensureUnpacked\<close> of \<open>cmd/peel/main.go\<close>. The registry is an argument: what pulling
  an image gives, its digest, configuration and layers, any of which may fail.
\<close>

section \<open>Images\<close>

text \<open>A layer: its entries, \<open>None\<close> if it cannot be opened, and whether closing it succeeds.\<close>

type_synonym layer = "tar_item list option \<times> bool"

record image =
  img_digest :: "string option"
  img_config :: "Runtime option"
  img_layers :: "layer list option"

datatype boot_error =
    BadConfig config_error
  | StateFailed state_error
  | PullFailed
  | DigestFailed
  | ConfigFileFailed
  | LayersFailed
  | LayerUnreadable nat
  | LayerFailed nat rootfs_error
  | LayerCloseFailed nat
  | EntrypointFailed entrypoint_error
  | StartFailed

section \<open>Unpacking\<close>

fun unpack_layers :: "string \<Rightarrow> nat \<Rightarrow> layer list \<Rightarrow> fs \<Rightarrow> boot_error option \<times> fs" where
  "unpack_layers root i [] fs = (None, fs)"
| "unpack_layers root i ((rc, close_ok) # layers) fs =
     (case rc of
        None \<Rightarrow> (Some (LayerUnreadable (i + 1)), fs)
      | Some items \<Rightarrow>
          (case ApplyLayer root items fs of
             (Some e, fs1) \<Rightarrow> (Some (LayerFailed (i + 1) e), fs1)
           | (None, fs1) \<Rightarrow>
               if \<not> close_ok then (Some (LayerCloseFailed (i + 1)), fs1)
               else unpack_layers root (i + 1) layers fs1))"

text \<open>\<open>ensureUnpacked\<close> from the point where the image has been fetched.\<close>

definition unpack_image ::
  "(State \<Rightarrow> byte list option) \<Rightarrow> int \<Rightarrow> string \<Rightarrow> string \<Rightarrow> Config \<Rightarrow> image \<Rightarrow> fs \<Rightarrow>
     (boot_error, Runtime) result \<times> fs"
where
  "unpack_image marshal now root statePath cfg img fs =
     (case img_digest img of
        None \<Rightarrow> (Inl DigestFailed, fs)
      | Some digest \<Rightarrow>
          (case img_config img of
             None \<Rightarrow> (Inl ConfigFileFailed, fs)
           | Some cf \<Rightarrow>
               let rt = Merge cf cfg in
               (case img_layers img of
                  None \<Rightarrow> (Inl LayersFailed, fs)
                | Some layers \<Rightarrow>
                    (case unpack_layers root 0 layers fs of
                       (Some e, fs1) \<Rightarrow> (Inl e, fs1)
                     | (None, fs1) \<Rightarrow>
                         (case state_Save marshal fs1 statePath
                             \<lparr>st_Reference = c_Image cfg, st_Digest = digest, st_Runtime = rt, st_UnpackedAt = now\<rparr> of
                            (Some e, fs2) \<Rightarrow> (Inl (StateFailed e), fs2)
                          | (None, fs2) \<Rightarrow> (Inr rt, fs2))))))"

definition ensureUnpacked ::
  "(byte list \<Rightarrow> State option) \<Rightarrow> (State \<Rightarrow> byte list option) \<Rightarrow> (Config \<Rightarrow> image option) \<Rightarrow> int \<Rightarrow>
     string \<Rightarrow> string \<Rightarrow> Config \<Rightarrow> fs \<Rightarrow> (boot_error, Runtime) result \<times> fs"
where
  "ensureUnpacked unmarshal marshal pull now root statePath cfg fs =
     (case state_Load unmarshal fs statePath of
        Inl e \<Rightarrow> (Inl (StateFailed e), fs)
      | Inr st \<Rightarrow>
          if (case st of None \<Rightarrow> False | Some s \<Rightarrow> st_Reference s = c_Image cfg)
          then (Inr (st_Runtime (the st)), fs)
          else
            (case pull cfg of
               None \<Rightarrow> (Inl PullFailed, fs)
             | Some img \<Rightarrow> unpack_image marshal now root statePath cfg img fs))"

section \<open>A boot\<close>

text \<open>
  What a boot depends on besides the file system and the command line: JSON decoding and encoding,
  the network's interfaces and the order they finish in, the registry, the clock, the host name,
  and what the kernel answers to listening and to starting a process.
\<close>

record boot_env =
  be_parse :: "byte list \<Rightarrow> wireConfig option"
  be_unmarshal :: "byte list \<Rightarrow> State option"
  be_marshal :: "State \<Rightarrow> byte list option"
  be_links :: "iface list option"
  be_arrive :: "IP list list \<Rightarrow> IP list list"
  be_pull :: "Config \<Rightarrow> image option"
  be_now :: int
  be_host :: "string option"
  be_listen :: "string \<Rightarrow> bool"
  be_exec :: "exec_cmd \<Rightarrow> pid option"

text \<open>
  A boot ends by printing the command it would run, or in the supervisor's loop, with loopback
  sharing started or not (its error is only logged).
\<close>

datatype boot_outcome = Printed Spec | Supervised Spec "(run_error, run_outcome) result" sup

definition run ::
  "boot_env \<Rightarrow> string \<Rightarrow> string \<Rightarrow> string \<Rightarrow> bool \<Rightarrow> fs \<Rightarrow> (boot_error, boot_outcome) result \<times> fs"
where
  "run env root configPath statePath pullOnly fs =
     (case config_Load (be_parse env) fs configPath of
        Inl e \<Rightarrow> (Inl (BadConfig e), fs)
      | Inr cfg \<Rightarrow>
          (case Configure (be_links env) (be_arrive env) root fs of ((nameservers, _), fs1) \<Rightarrow>
             (case ensureUnpacked (be_unmarshal env) (be_marshal env) (be_pull env) (be_now env) root statePath cfg fs1 of
                (Inl e, fs2) \<Rightarrow> (Inl e, fs2)
              | (Inr rt, fs2) \<Rightarrow>
                  let fs3 = (if pullOnly then fs2 else snd (remove_path fs2 (kcomps configPath)));
                      fs4 = snd (WriteResolvConf root nameservers fs3)
                  in case Resolve fs4 root rt of
                       Inl e \<Rightarrow> (Inl (EntrypointFailed e), fs4)
                     | Inr spec \<Rightarrow>
                         if pullOnly then (Inr (Printed spec), fs4)
                         else
                           (case lo_Run (be_host env) (be_listen env) fs4 of (sharing, fs5) \<Rightarrow>
                              (case sup_Run (be_exec env) spec of
                                 None \<Rightarrow> (Inl StartFailed, fs5)
                               | Some s \<Rightarrow> (Inr (Supervised spec sharing s), fs5))))))"

section \<open>peel's own files across unpacking\<close>

fun safe_layers :: "layer list \<Rightarrow> fs \<Rightarrow> bool" where
  "safe_layers [] fs \<longleftrightarrow> True"
| "safe_layers ((rc, close_ok) # layers) fs \<longleftrightarrow>
     (case rc of
        None \<Rightarrow> True
      | Some items \<Rightarrow> safe_layer items fs \<and> safe_layers layers (snd (ApplyLayer ''/'' items fs)))"

lemma unpack_layers_harmless:
  "inv fs \<Longrightarrow> safe_layers layers fs \<Longrightarrow> unpack_layers ''/'' i layers fs = (r, fs') \<Longrightarrow> harmless fs fs'"
proof (induction layers arbitrary: i fs)
  case (Cons l layers)
  show ?case
  proof (cases "fst l")
    case None
    with Cons.prems show ?thesis by (cases l) auto
  next
    case (Some items)
    obtain r1 fs1 where ap: "ApplyLayer ''/'' items fs = (r1, fs1)" by fastforce
    from Cons.prems Some ap have safe: "safe_layer items fs" "safe_layers layers fs1" by (cases l; simp)+
    have h: "harmless fs fs1" by (rule ApplyLayer_harmless [OF Cons.prems(1) safe(1) ap])
    then have "inv fs1" using Cons.prems(1) by (simp add: harmless_def)
    note IH = Cons.IH [OF this safe(2)]
    show ?thesis
      using Cons.prems(3) Some ap h IH harmless_trans [OF h]
      by (cases l; cases r1) (auto split: if_splits)
  qed
qed simp

lemma harmlessD: "harmless fs fs' \<Longrightarrow> inv fs \<Longrightarrow> inv fs' \<and> guarded fs fs'"
  by (simp add: harmless_def)

text \<open>A file directly in \<open>/peel\<close> stays as it is.\<close>

lemma saveable_peel:
  assumes "saveable fs [''peel''] f d"
  shows "phys fs root_ino [''peel''] = Some d" "is_dir fs d" "proper f" "d \<in> prot_inos fs"
    "entry fs d n = Some i \<Longrightarrow> i \<in> prot_inos fs"
proof -
  show p: "phys fs root_ino [''peel''] = Some d" and "is_dir fs d" "proper f"
    using assms by (auto simp: saveable_def located_def)
  show "d \<in> prot_inos fs" by (rule prot_inosI [OF p]) simp
  assume "entry fs d n = Some i"
  then have "phys fs root_ino [''peel'', n] = Some i" using p phys_snoc [of fs root_ino "[''peel'']" n] by simp
  then show "i \<in> prot_inos fs" by (rule prot_inosI) simp
qed

lemma guarded_inode:
  assumes "guarded fs fs'" "i \<in> prot_inos fs"
  shows "f_inodes fs' i = f_inodes fs i" "entry fs' i n = entry fs i n" "is_dir fs' i = is_dir fs i"
    "symlink_target fs' i = symlink_target fs i" "contents fs' i = contents fs i"
proof -
  show "f_inodes fs' i = f_inodes fs i" using assms by (simp add: guarded_def)
  then show "entry fs' i n = entry fs i n" "is_dir fs' i = is_dir fs i"
    "symlink_target fs' i = symlink_target fs i" "contents fs' i = contents fs i"
    by (simp_all add: entry_def is_dir_def dir_entries_def symlink_target_def contents_def)
qed

lemma saveable_guarded:
  assumes "guarded fs fs'" "inv fs'" "saveable fs [''peel''] f d"
  shows "saveable fs' [''peel''] f d" "read_file fs' [''peel'', f] = read_file fs [''peel'', f]"
proof -
  note P = saveable_peel [OF assms(3)]
  note D = guarded_inode [OF assms(1) P(4)]
  have peel: "phys fs' root_ino [''peel''] = Some d" using guarded_phys [OF assms(1), of "[''peel'']"] P(1) by simp
  have "symlink_target fs' 0 = None" using assms(2) is_dir_not_symlink by (simp add: inv_def wf_fs_def)
  moreover have "symlink_target fs' d = None" using D(3) P(2) is_dir_not_symlink by simp
  ultimately have "plain fs' [''peel'', f]"
    using peel by (simp add: plain_def upt_rec numeral_2_eq_2)
  then have loc: "located fs' [''peel'', f] d" using peel D(3) P(2,3) by (simp add: located_def proper_def)
  have same: "is_dir fs' i = is_dir fs i" "symlink_target fs' i = symlink_target fs i" "f_inodes fs' i = f_inodes fs i"
      "contents fs' i = contents fs i"
    if "entry fs d n = Some i" for n i
    using guarded_inode [OF assms(1) P(5) [OF that]] by simp_all
  show "saveable fs' [''peel''] f d"
    using assms(2,3) loc D(2) same unfolding saveable_def inv_def by auto
  show "read_file fs' [''peel'', f] = read_file fs [''peel'', f]"
    using read_located [OF loc] read_located [of fs "[''peel'', f]" d] D(2) same assms(3)
    by (auto simp: saveable_def split: option.splits)
qed


section \<open>Unpacking once\<close>

lemma state_path: "kcomps state_DefaultPath = [''peel'', ''state.json'']"
    "state_DefaultPath = CHR ''/'' # join_with ''/'' ([''peel''] @ [''state.json''])"
  by (simp_all add: state_DefaultPath_def kcomps_def)

lemma Load_guarded:
  assumes "guarded fs fs'" "inv fs'" "saveable fs [''peel''] ''state.json'' d"
  shows "state_Load unmarshal fs' state_DefaultPath = state_Load unmarshal fs state_DefaultPath"
  using saveable_guarded(2) [OF assms] by (intro state_Load_read) (simp add: state_path(1))

lemma Save_loads:
  assumes "saveable fs [''peel''] ''state.json'' d" "marshal s = Some b" "unmarshal b = Some s"
  shows "\<exists>fs'. state_Save marshal fs state_DefaultPath s = (None, fs') \<and>
    state_Load unmarshal fs' state_DefaultPath = Inr (Some s)"
proof -
  have "wf_fs fs" "located fs ([''peel''] @ [''state.json'']) d" using assms(1) by (auto simp: saveable_def)
  note P = save_paths [OF this(2) state_path(2) this(1)]
  obtain i fs1 where o: "open_trunc fs ([''peel''] @ [tmp_name ''state.json'']) 0x180 = (Inr i, fs1)"
    and t: "tmp_written fs d ''state.json'' i [] fs1" "located fs1 ([''peel''] @ [''state.json'']) d"
    using open_tmp [OF assms(1)] by blast
  obtain fs3 where "rename_file (upd_inode i (set_content b) fs1) ([''peel''] @ [tmp_name ''state.json'']) ([''peel''] @ [''state.json''])
      = (None, fs3)" "read_file fs3 ([''peel''] @ [''state.json'']) = Inr b"
    using rename_tmp [OF assms(1) write_tmp [OF t]] by blast
  then show ?thesis
    using P o assms(2,3) by (simp add: state_Save_eq state_Load_def write_file_def)
qed

text \<open>JSON carries the state over: what is saved for this image is what is loaded.\<close>

definition json_ok ::
  "(byte list \<Rightarrow> State option) \<Rightarrow> (State \<Rightarrow> byte list option) \<Rightarrow> int \<Rightarrow> Config \<Rightarrow> image \<Rightarrow> bool"
where
  "json_ok unmarshal marshal now cfg img \<longleftrightarrow>
     (\<forall>dg cf. img_digest img = Some dg \<and> img_config img = Some cf \<longrightarrow>
        (let s = \<lparr>st_Reference = c_Image cfg, st_Digest = dg, st_Runtime = Merge cf cfg, st_UnpackedAt = now\<rparr>
         in \<exists>b. marshal s = Some b \<and> unmarshal b = Some s))"

definition recorded :: "(byte list \<Rightarrow> State option) \<Rightarrow> Config \<Rightarrow> fs \<Rightarrow> (boot_error, Runtime) result \<Rightarrow> fs \<Rightarrow> bool" where
  "recorded unmarshal cfg fs r fs' \<longleftrightarrow>
     (case r of
        Inl e \<Rightarrow> state_Load unmarshal fs' state_DefaultPath = state_Load unmarshal fs state_DefaultPath
      | Inr rt \<Rightarrow> \<exists>s. state_Load unmarshal fs' state_DefaultPath = Inr (Some s) \<and> st_Reference s = c_Image cfg \<and> st_Runtime s = rt)"

lemma unpack_image_recorded:
  assumes "inv fs" "saveable fs [''peel''] ''state.json'' d" "json_ok unmarshal marshal now cfg img"
    and "\<And>ls. img_layers img = Some ls \<Longrightarrow> safe_layers ls fs"
    and "unpack_image marshal now ''/'' state_DefaultPath cfg img fs = (r, fs')"
  shows "recorded unmarshal cfg fs r fs'"
proof -
  consider (early) "fs' = fs" "\<exists>e. r = Inl e"
    | (layers) dg cf ls where "img_digest img = Some dg" "img_config img = Some cf" "img_layers img = Some ls"
    using assms(5) by (cases "img_digest img"; cases "img_config img"; cases "img_layers img") (auto simp: unpack_image_def)
  then show ?thesis
  proof cases
    case early
    then show ?thesis by (auto simp: recorded_def)
  next
    case layers
    obtain e fs1 where u: "unpack_layers ''/'' 0 ls fs = (e, fs1)" by fastforce
    have "harmless fs fs1" by (rule unpack_layers_harmless [OF assms(1) assms(4) [OF layers(3)] u])
    then have g: "inv fs1" "guarded fs fs1" using harmlessD assms(1) by blast+
    show ?thesis
    proof (cases e)
      case (Some x)
      with assms(5) layers u have "r = Inl x" "fs' = fs1" by (auto simp: unpack_image_def Let_def)
      then show ?thesis using Load_guarded [OF g(2,1) assms(2)] by (simp add: recorded_def)
    next
      case None
      let ?s = "\<lparr>st_Reference = c_Image cfg, st_Digest = dg, st_Runtime = Merge cf cfg, st_UnpackedAt = now\<rparr>"
      obtain b where "marshal ?s = Some b" "unmarshal b = Some ?s"
        using assms(3) layers(1,2) by (auto simp: json_ok_def Let_def)
      with Save_loads [OF saveable_guarded(1) [OF g(2,1) assms(2)], of marshal ?s b unmarshal] None assms(5) layers u
      show ?thesis by (auto simp: unpack_image_def recorded_def Let_def)
    qed
  qed
qed

lemma ensureUnpacked_recorded:
  assumes "inv fs" "saveable fs [''peel''] ''state.json'' d"
    and "\<And>img ls. pull cfg = Some img \<Longrightarrow> json_ok unmarshal marshal now cfg img \<and>
          (img_layers img = Some ls \<longrightarrow> safe_layers ls fs)"
    and "ensureUnpacked unmarshal marshal pull now ''/'' state_DefaultPath cfg fs = (r, fs')"
  shows "recorded unmarshal cfg fs r fs'"
proof (cases "pull cfg")
  case None
  with assms(4) show ?thesis
    by (auto simp: ensureUnpacked_def recorded_def split: sum.splits if_splits option.splits)
next
  case (Some img)
  note I = unpack_image_recorded [OF assms(1,2), of unmarshal marshal now cfg img r fs'] assms(3) [OF Some]
  with assms(4) Some show ?thesis
    by (auto simp: ensureUnpacked_def recorded_def split: sum.splits if_splits option.splits)
qed

lemma ensureUnpacked_cached:
  assumes "state_Load unmarshal fs path = Inr (Some s)" "st_Reference s = c_Image cfg"
  shows "ensureUnpacked unmarshal marshal pull now root path cfg fs = (Inr (st_Runtime s), fs)"
  using assms by (simp add: ensureUnpacked_def)


definition demo_config :: "string \<Rightarrow> Config" where
  "demo_config ref =
     \<lparr>c_Image = ref, c_Platform = [], c_Insecure = False, c_Username = [], c_Password = [], c_Auth = [],
      c_IdentityToken = [], c_RegistryToken = [], c_Entrypoint = None, c_Cmd = None, c_Env = None,
      c_WorkingDir = [], c_User = []\<rparr>"

definition demo_image :: "layer list \<Rightarrow> image" where
  "demo_image layers =
     \<lparr>img_digest = Some ''sha256:0'', img_config = Some (st_Runtime (demo_state [])), img_layers = Some layers\<rparr>"

lemma demo_json: "json_ok demo_unmarshal demo_marshal 0 (demo_config ref) (demo_image layers)"
  by (simp add: json_ok_def demo_unmarshal_def demo_marshal_def demo_config_def demo_image_def demo_state_def
      Merge_def elems_def mergeEnv_def)

text \<open>
  C9. An image is unpacked once. When unpacking succeeded, every later boot with the same image,
  on the file system it left (and on any in which loading the state file gives the same), yields
  the same runtime configuration, overrides included, without pulling anything and without
  changing a file. peel is installed, and the layers are safe in the sense of layer extraction.
\<close>

theorem unpacked_once:
  assumes "inv fs" "saveable fs [''peel''] ''state.json'' d"
    and "\<And>img ls. pull cfg = Some img \<Longrightarrow> json_ok unmarshal marshal now cfg img \<and>
          (img_layers img = Some ls \<longrightarrow> safe_layers ls fs)"
    and "ensureUnpacked unmarshal marshal pull now ''/'' state_DefaultPath cfg fs = (Inr rt, fs')"
    and "state_Load unmarshal fs'' state_DefaultPath = state_Load unmarshal fs' state_DefaultPath"
    and "c_Image cfg' = c_Image cfg"
  shows "ensureUnpacked unmarshal marshal pull' now' ''/'' state_DefaultPath cfg' fs'' = (Inr rt, fs'')"
proof -
  obtain s where "state_Load unmarshal fs' state_DefaultPath = Inr (Some s)" "st_Reference s = c_Image cfg" "st_Runtime s = rt"
    using ensureUnpacked_recorded [OF assms(1-4)] by (auto simp: recorded_def)
  with assms(5,6) show ?thesis using ensureUnpacked_cached [of unmarshal fs''] by simp
qed

lemma unpacked_once_witness:
  "\<exists>fs'. ensureUnpacked demo_unmarshal demo_marshal (\<lambda>_. Some (demo_image [(Some demo_layer, True)])) 0 ''/''
       state_DefaultPath (demo_config ''nginx'') demo_fs = (Inr (st_Runtime (demo_state [])), fs') \<and>
     ensureUnpacked demo_unmarshal demo_marshal (\<lambda>_. None) 1 ''/'' state_DefaultPath (demo_config ''nginx'') fs' =
       (Inr (st_Runtime (demo_state [])), fs')"
proof -
  let ?pull = "\<lambda>_. Some (demo_image [(Some demo_layer, True)])"
  let ?r = "ensureUnpacked demo_unmarshal demo_marshal ?pull 0 ''/'' state_DefaultPath (demo_config ''nginx'') demo_fs"
  have "case fst ?r of Inr rt \<Rightarrow> rt_Entrypoint rt = [''tool''] \<and> rt_Cmd rt = [] \<and> rt_Env rt = [] \<and>
      rt_WorkingDir rt = [] \<and> rt_User rt = [] | Inl _ \<Rightarrow> False" by code_simp
  then have r: "?r = (Inr (st_Runtime (demo_state [])), snd ?r)"
    by (cases ?r) (auto simp: demo_state_def split: sum.splits)
  have "json_ok demo_unmarshal demo_marshal 0 (demo_config ''nginx'') img \<and>
      (img_layers img = Some ls \<longrightarrow> safe_layers ls demo_fs)"
    if "?pull (demo_config ''nginx'') = Some img" for img ls
    using that demo_json demo_layer_safe by (auto simp: demo_image_def)
  from unpacked_once [OF demo_inv demo_saveable this r refl refl] r show ?thesis by blast
qed

text \<open>
  C16. A failed unpacking leaves no trace in the state file, provided that peel is installed and able to
  save its state, that the layers of the image are safe (none has an entry that leads through a
  symbolic link into \<open>/peel\<close>, for instance), and that the image's state survives JSON. Whatever then
  fails, pulling, a layer half way or closing it, the state file still says what it said before. So the failed image is pulled
  again at the next boot; but a boot with the image unpacked earlier takes it as unpacked, pulls
  nothing, and runs it on a root file system on which layers of the other image have been
  applied.
\<close>

theorem failed_unpack_keeps_state:
  assumes "inv fs" "saveable fs [''peel''] ''state.json'' d"
    and "\<And>img ls. pull cfg = Some img \<Longrightarrow> json_ok unmarshal marshal now cfg img \<and>
          (img_layers img = Some ls \<longrightarrow> safe_layers ls fs)"
    and "ensureUnpacked unmarshal marshal pull now ''/'' state_DefaultPath cfg fs = (Inl e, fs')"
  shows "state_Load unmarshal fs' state_DefaultPath = state_Load unmarshal fs state_DefaultPath \<and>
    (\<forall>s old. state_Load unmarshal fs state_DefaultPath = Inr (Some s) \<and> st_Reference s = c_Image old \<longrightarrow>
       ensureUnpacked unmarshal marshal pull' now' ''/'' state_DefaultPath old fs' = (Inr (st_Runtime s), fs'))"
  using ensureUnpacked_recorded [OF assms] ensureUnpacked_cached [of unmarshal fs'] by (simp add: recorded_def)


lemma failed_unpack_keeps_state_witness:
  "\<exists>e fs'. ensureUnpacked demo_unmarshal demo_marshal (\<lambda>_. Some (demo_image [(Some [TarError], True)])) 0 ''/''
       state_DefaultPath (demo_config ''nginx'') demo_fs = (Inl e, fs') \<and>
     ensureUnpacked demo_unmarshal demo_marshal (\<lambda>_. None) 1 ''/'' state_DefaultPath (demo_config [CHR 0x7B]) fs' =
       (Inr (st_Runtime (demo_state [])), fs')"
proof -
  let ?pull = "\<lambda>_. Some (demo_image [(Some [TarError], True)])"
  let ?r = "ensureUnpacked demo_unmarshal demo_marshal ?pull 0 ''/'' state_DefaultPath (demo_config ''nginx'') demo_fs"
  have "case fst ?r of Inl _ \<Rightarrow> True | Inr _ \<Rightarrow> False" by code_simp
  then obtain e where r: "?r = (Inl e, snd ?r)" by (cases ?r) (auto split: sum.splits)
  have "json_ok demo_unmarshal demo_marshal 0 (demo_config ''nginx'') img \<and>
      (img_layers img = Some ls \<longrightarrow> safe_layers ls demo_fs)"
    if "?pull (demo_config ''nginx'') = Some img" for img ls
    using that demo_json by (auto simp: demo_image_def)
  note F = failed_unpack_keeps_state [OF demo_inv demo_saveable this r]
  have "read_file demo_fs (kcomps state_DefaultPath) = Inr [0x7B]" "char_of (123 :: nat) = CHR 0x7B" by code_simp+
  then have "state_Load demo_unmarshal demo_fs state_DefaultPath = Inr (Some (demo_state [CHR 0x7B]))"
    by (simp add: state_Load_def demo_unmarshal_def text_of_def)
  moreover have "st_Reference (demo_state [CHR 0x7B]) = c_Image (demo_config [CHR 0x7B])"
    "st_Runtime (demo_state [CHR 0x7B]) = st_Runtime (demo_state [])"
    by (simp_all add: demo_state_def demo_config_def)
  ultimately show ?thesis using F r by metis
qed

end
