(* ===== verification/Pull.thy ===== *)
theory Pull
  imports Config
begin

text \<open>
  Fetching images, \<open>internal/pull/pull.go\<close> with \<open>internal/certs/certs.go\<close>: what the program asks of
  the registry library. Parsing of references and of certificates, the HTTP transport and the
  fetch itself are arguments.
\<close>

section \<open>Platforms\<close>

record Platform =
  p_OS :: string
  p_Architecture :: string
  p_Variant :: string

datatype pull_error = BadReference string | InvalidPlatform string | NoCertificates | FetchFailed string

definition resolvePlatform :: "string \<Rightarrow> string \<Rightarrow> (pull_error, Platform) result" where
  "resolvePlatform goarch s =
     (if s = [] then Inr \<lparr>p_OS = ''linux'', p_Architecture = goarch, p_Variant = []\<rparr>
      else
        (case split_on CHR ''/'' s of
           [os, arch] \<Rightarrow> Inr \<lparr>p_OS = os, p_Architecture = arch, p_Variant = []\<rparr>
         | [os, arch, variant] \<Rightarrow> Inr \<lparr>p_OS = os, p_Architecture = arch, p_Variant = variant\<rparr>
         | _ \<Rightarrow> Inl (InvalidPlatform s)))"

section \<open>Credentials\<close>

text \<open>The authenticators of package \<open>authn\<close> the program makes.\<close>

datatype Authenticator = Basic string string | FromConfig string string string | Anonymous

definition authenticator :: "Config \<Rightarrow> Authenticator" where
  "authenticator cfg =
     (if c_Username cfg \<noteq> [] \<or> c_Password cfg \<noteq> [] then Basic (c_Username cfg) (c_Password cfg)
      else if c_Auth cfg \<noteq> [] \<or> c_IdentityToken cfg \<noteq> [] \<or> c_RegistryToken cfg \<noteq> []
      then FromConfig (c_Auth cfg) (c_IdentityToken cfg) (c_RegistryToken cfg)
      else Anonymous)"

section \<open>Certificates\<close>

text \<open>
  \<open>append_pem\<close> is the pool's \<open>AppendCertsFromPEM\<close>: the pool after it, and whether a certificate was
  added. \<open>bundle\<close> is the embedded file.
\<close>

definition certs_Pool ::
  "'pool \<Rightarrow> ('pool \<Rightarrow> byte list \<Rightarrow> 'pool \<times> bool) \<Rightarrow> byte list \<Rightarrow> (pull_error, 'pool) result"
where
  "certs_Pool new_pool append_pem bundle =
     (case append_pem new_pool bundle of (pool, ok) \<Rightarrow> if \<not> ok then Inl NoCertificates else Inr pool)"

text \<open>\<open>with_roots\<close> clones the default transport and sets the roots its TLS configuration trusts.\<close>

definition httpTransport :: "(pull_error, 'pool) result \<Rightarrow> ('pool \<Rightarrow> 't) \<Rightarrow> (pull_error, 't) result" where
  "httpTransport pool with_roots = (case pool of Inl e \<Rightarrow> Inl e | Inr p \<Rightarrow> Inr (with_roots p))"

section \<open>Fetching\<close>

datatype name_option = WeakValidation | Insecure

definition UserAgent :: string where
  "UserAgent = ''peel/0 (+https://github.com/canonical/peel)''"

definition Image ::
  "(string \<Rightarrow> name_option list \<Rightarrow> 'ref option) \<Rightarrow> (pull_error, 't) result \<Rightarrow>
   ('ref \<Rightarrow> Authenticator \<Rightarrow> Platform \<Rightarrow> string \<Rightarrow> 't \<Rightarrow> 'img option) \<Rightarrow> string \<Rightarrow> Config \<Rightarrow>
     (pull_error, 'img) result"
where
  "Image parse_reference transport fetch goarch cfg =
     (case parse_reference (c_Image cfg) (WeakValidation # (if c_Insecure cfg then [Insecure] else [])) of
        None \<Rightarrow> Inl (BadReference (c_Image cfg))
      | Some ref \<Rightarrow>
          (case resolvePlatform goarch (c_Platform cfg) of
             Inl e \<Rightarrow> Inl e
           | Inr platform \<Rightarrow>
               (case transport of
                  Inl e \<Rightarrow> Inl e
                | Inr t \<Rightarrow>
                    (case fetch ref (authenticator cfg) platform UserAgent t of
                       None \<Rightarrow> Inl (FetchFailed (c_Image cfg))
                     | Some img \<Rightarrow> Inr img))))"

section \<open>Properties\<close>

text \<open>The written form of a platform.\<close>

definition platform_string :: "Platform \<Rightarrow> string" where
  "platform_string p =
     join_with ''/'' ([p_OS p, p_Architecture p] @ (if p_Variant p = [] then [] else [p_Variant p]))"

text \<open>
  C33. Platforms round trip. A platform whose parts have no slash is read back from its written form
  (\<open>os/arch\<close> or \<open>os/arch/variant\<close>), and a non-empty text is refused exactly when it does not have one
  or two slashes. The empty text means Linux on the architecture peel was built for.
\<close>

theorem resolvePlatform_roundtrip:
  assumes "CHR ''/'' \<notin> set (p_OS p) \<union> set (p_Architecture p) \<union> set (p_Variant p)"
  shows "resolvePlatform goarch (platform_string p) = Inr p \<and>
    (s \<noteq> [] \<longrightarrow>
      ((\<exists>q. resolvePlatform goarch s = Inr q) \<longleftrightarrow> count_list s CHR ''/'' \<in> {1, 2})) \<and>
    resolvePlatform goarch [] = Inr \<lparr>p_OS = ''linux'', p_Architecture = goarch, p_Variant = []\<rparr>"
proof -
  let ?es = "[p_OS p, p_Architecture p] @ (if p_Variant p = [] then [] else [p_Variant p])"
  have "split_on CHR ''/'' (platform_string p) = ?es"
    unfolding platform_string_def by (rule split_on_join) (use assms in auto)
  moreover have "platform_string p \<noteq> []" by (simp add: platform_string_def)
  ultimately have "resolvePlatform goarch (platform_string p) = Inr p" by (simp add: resolvePlatform_def)
  moreover have "length (split_on c s) = Suc (count_list s c)" for c
    by (induction s) (auto split: list.splits)
  then have "count_list s CHR ''/'' \<in> {1, 2} \<longleftrightarrow> length (split_on CHR ''/'' s) \<in> {2, 3}" by auto
  moreover have "(\<exists>q. resolvePlatform goarch s = Inr q) \<longleftrightarrow> length (split_on CHR ''/'' s) \<in> {2, 3}" if "s \<noteq> []"
    using that by (auto simp: resolvePlatform_def split: list.splits)
  ultimately show ?thesis by (simp add: resolvePlatform_def)
qed

lemma resolvePlatform_roundtrip_witness:
  "resolvePlatform ''amd64'' (platform_string \<lparr>p_OS = ''linux'', p_Architecture = ''arm'', p_Variant = ''v7''\<rparr>) =
     Inr \<lparr>p_OS = ''linux'', p_Architecture = ''arm'', p_Variant = ''v7''\<rparr>"
  using resolvePlatform_roundtrip [of "\<lparr>p_OS = ''linux'', p_Architecture = ''arm'', p_Variant = ''v7''\<rparr>" "''amd64''" "[]"]
  by simp

end
