(* ===== verification/PeelMain.thy ===== *)
theory PeelMain
  imports Boot Pull
begin

text \<open>
  The program's start: \<open>main\<close> of \<open>cmd/peel/main.go\<close> with its command line (package \<open>flag\<close>), over the
  model of a boot with the image fetched as \<open>internal/pull\<close> does.
\<close>

section \<open>The command line\<close>

record flags =
  fl_rootfs :: string
  fl_config :: string
  fl_state :: string
  fl_pull_only :: bool

definition default_flags :: flags where
  "default_flags = \<lparr>fl_rootfs = ''/'', fl_config = config_DefaultPath, fl_state = state_DefaultPath, fl_pull_only = False\<rparr>"

datatype flag_error = BadFlagSyntax string | UnknownFlag string | HelpRequested | MissingArgument string | InvalidBool string

text \<open>\<open>strconv.ParseBool\<close>.\<close>

definition parse_bool :: "string \<Rightarrow> bool option" where
  "parse_bool s =
     (if s \<in> {''1'', ''t'', ''T'', ''TRUE'', ''true'', ''True''} then Some True
      else if s \<in> {''0'', ''f'', ''F'', ''FALSE'', ''false'', ''False''} then Some False else None)"

definition set_string_flag :: "string \<Rightarrow> string \<Rightarrow> flags \<Rightarrow> flags" where
  "set_string_flag name v fl =
     (if name = ''rootfs'' then fl\<lparr>fl_rootfs := v\<rparr>
      else if name = ''config'' then fl\<lparr>fl_config := v\<rparr> else fl\<lparr>fl_state := v\<rparr>)"

text \<open>
  \<open>FlagSet.Parse\<close>: flags are read up to the first argument that is not one, or \<open>--\<close>. A flag has one
  or two dashes; a value follows an equals sign or, except for a boolean flag, is the next
  argument.
\<close>

definition flag_name :: "string \<Rightarrow> string" where
  "flag_name s = (case s of _ # CHR ''-'' # t \<Rightarrow> t | _ # t \<Rightarrow> t | [] \<Rightarrow> [])"

fun parse_flags :: "string list \<Rightarrow> flags \<Rightarrow> (flag_error, flags) result" where
  "parse_flags [] fl = Inr fl"
| "parse_flags (s # args) fl =
     (if length s < 2 \<or> hd s \<noteq> CHR ''-'' then Inr fl
      else if s = ''--'' then Inr fl
      else
        let name0 = flag_name s in
        if name0 = [] \<or> hd name0 = CHR ''-'' \<or> hd name0 = CHR ''='' then Inl (BadFlagSyntax s)
        else
          (case cut CHR ''='' name0 of (name, v, hasValue) \<Rightarrow>
             if name = ''pull-only'' then
               (if \<not> hasValue then parse_flags args (fl\<lparr>fl_pull_only := True\<rparr>)
                else case parse_bool v of
                       None \<Rightarrow> Inl (InvalidBool v)
                     | Some b \<Rightarrow> parse_flags args (fl\<lparr>fl_pull_only := b\<rparr>))
             else if name \<in> {''rootfs'', ''config'', ''state''} then
               (if hasValue then parse_flags args (set_string_flag name v fl)
                else case args of
                       [] \<Rightarrow> Inl (MissingArgument name)
                     | a # rest \<Rightarrow> parse_flags rest (set_string_flag name a fl))
             else if name = ''help'' \<or> name = ''h'' then Inl HelpRequested
             else Inl (UnknownFlag name)))"

section \<open>The program\<close>

text \<open>How it ends, as far as \<open>main\<close> decides: an exit status, or the supervisor's loop.\<close>

datatype main_outcome = Exit nat | Supervise Spec sup

definition main :: "boot_env \<Rightarrow> string list \<Rightarrow> fs \<Rightarrow> main_outcome \<times> fs" where
  "main env args fs =
     (case parse_flags args default_flags of
        Inl HelpRequested \<Rightarrow> (Exit 0, fs)
      | Inl e \<Rightarrow> (Exit 2, fs)
      | Inr fl \<Rightarrow>
          (case run env (fl_rootfs fl) (fl_config fl) (fl_state fl) (fl_pull_only fl) fs of
             (Inl e, fs1) \<Rightarrow> (Exit 1, fs1)
           | (Inr (Printed spec), fs1) \<Rightarrow> (Exit 0, fs1)
           | (Inr (Supervised spec sharing s), fs1) \<Rightarrow> (Supervise spec s, fs1)))"

text \<open>\<open>pull.Image\<close> as \<open>ensureUnpacked\<close> uses it.\<close>

definition pull_with ::
  "(string \<Rightarrow> name_option list \<Rightarrow> 'ref option) \<Rightarrow> (pull_error, 't) result \<Rightarrow>
   ('ref \<Rightarrow> Authenticator \<Rightarrow> Platform \<Rightarrow> string \<Rightarrow> 't \<Rightarrow> image option) \<Rightarrow> string \<Rightarrow> Config \<Rightarrow> image option"
where
  "pull_with parse_reference transport fetch goarch cfg =
     (case Image parse_reference transport fetch goarch cfg of Inl e \<Rightarrow> None | Inr img \<Rightarrow> Some img)"

section \<open>Flags are read back\<close>

definition render_flags :: "flags \<Rightarrow> string list" where
  "render_flags fl =
     [''-rootfs='' @ fl_rootfs fl, ''--config'', fl_config fl, ''-state='' @ fl_state fl] @
     (if fl_pull_only fl then [''-pull-only''] else [])"

lemma cut_flag: "CHR ''='' \<notin> set name \<Longrightarrow> cut CHR ''='' (name @ CHR ''='' # v) = (name, v, True)"
  "CHR ''='' \<notin> set name \<Longrightarrow> cut CHR ''='' name = (name, [], False)"
  by (simp_all add: cut_found cut_missing)

lemma parse_render: "parse_flags (render_flags fl) default_flags = Inr fl"
proof -
  have "cut CHR ''='' (''rootfs='' @ v) = (''rootfs'', v, True)" "cut CHR ''='' (''state='' @ v) = (''state'', v, True)" for v
    using cut_flag(1) [of "''rootfs''" v] cut_flag(1) [of "''state''" v] by simp_all
  moreover have "cut CHR ''='' ''config'' = (''config'', [], False)" "cut CHR ''='' ''pull-only'' = (''pull-only'', [], False)"
    by (simp_all add: cut_flag)
  ultimately show ?thesis
    by (simp add: render_flags_def flag_name_def set_string_flag_def default_flags_def)
qed

end
