(* ===== verification/BootSafety.thy ===== *)
theory BootSafety
  imports Boot
begin

unbundle bit_operations_syntax

text \<open>
  What a whole boot leaves of peel itself. Unpacking keeps away from \<open>/sbin/init\<close> and \<open>/peel\<close>, but the
  boot also writes \<open>/peel/state.json\<close>, removes \<open>/peel/config.json\<close>, writes \<open>/etc/resolv.conf\<close> twice and
  makes a socket in \<open>/peel/lo\<close>. The theory shows of each of these that \<open>/sbin/init\<close> and the other files
  in \<open>/peel\<close> are left alone.
\<close>

section \<open>The installation stays\<close>

text \<open>
  \<open>/sbin/init\<close> is the same inode, with the same contents and attributes, and \<open>/peel\<close> is the same
  directory, whatever became of its entries.
\<close>

definition intact :: "fs \<Rightarrow> fs \<Rightarrow> bool" where
  "intact fs fs' \<longleftrightarrow>
     (inv fs \<longrightarrow>
        inv fs' \<and> phys fs' root_ino [''sbin'', ''init''] = phys fs root_ino [''sbin'', ''init''] \<and>
        entry fs' root_ino ''peel'' = entry fs root_ino ''peel'' \<and>
        (\<forall>i. phys fs root_ino [''sbin'', ''init''] = Some i \<longrightarrow> f_inodes fs' i = f_inodes fs i))"

lemma intact_refl [simp, intro]: "intact fs fs"
  by (simp add: intact_def)

lemma intact_trans [trans]: "intact a b \<Longrightarrow> intact b c \<Longrightarrow> intact a c"
  by (simp add: intact_def)

lemma harmless_intact:
  assumes "harmless fs fs'"
  shows "intact fs fs'"
proof (cases "inv fs")
  case True
  then have g: "inv fs'" "guarded fs fs'" using assms by (simp_all add: harmless_def)
  have "f_inodes fs' i = f_inodes fs i" if "phys fs root_ino [''sbin'', ''init''] = Some i" for i
    using g(2) prot_inosI [OF that prot_elems_simps(2)] unfolding guarded_def by blast
  moreover have "entry fs' root_ino ''peel'' = entry fs root_ino ''peel''" using g(2) unfolding guarded_def by blast
  ultimately show ?thesis
    unfolding intact_def using g(1) guarded_phys [OF g(2) prot_elems_simps(2)] by blast
qed (simp add: intact_def)

lemma intact_inv: "intact fs fs' \<Longrightarrow> inv fs \<Longrightarrow> inv fs'"
  by (simp add: intact_def)

text \<open>Changes below \<open>/peel\<close>.\<close>

definition below_peel :: "fs \<Rightarrow> ino \<Rightarrow> bool" where
  "below_peel fs d \<longleftrightarrow> is_dir fs d \<and> (\<exists>p. phys fs root_ino (''peel'' # p) = Some d)"

lemma below_peel_apart:
  assumes "inv fs" "below_peel fs d"
  shows "d \<noteq> root_ino" "entry fs root_ino ''sbin'' \<noteq> Some d" "phys fs root_ino [''sbin'', ''init''] \<noteq> Some d"
proof -
  obtain p where p: "phys fs root_ino (''peel'' # p) = Some d" "is_dir fs d" using assms(2) by (auto simp: below_peel_def)
  have uniq: "q = ''peel'' # p" if "phys fs root_ino q = Some d" for q
    using phys_dir_inj [OF inv_wf [OF assms(1)] that p] .
  show "d \<noteq> root_ino" using uniq [of "[]"] by auto
  show "entry fs root_ino ''sbin'' \<noteq> Some d" using uniq [of "[''sbin'']"] by auto
  show "phys fs root_ino [''sbin'', ''init''] \<noteq> Some d" using uniq [of "[''sbin'', ''init'']"] by auto
qed

lemma intactI:
  assumes "wf_fs fs'" "entry fs' root_ino ''sbin'' = entry fs root_ino ''sbin''" "entry fs' root_ino ''peel'' = entry fs root_ino ''peel''"
    and "\<And>s. entry fs root_ino ''sbin'' = Some s \<Longrightarrow> entry fs' s ''init'' = entry fs s ''init''"
    and "\<And>i. phys fs root_ino [''sbin'', ''init''] = Some i \<Longrightarrow> f_inodes fs' i = f_inodes fs i"
    and "\<And>p. entry fs root_ino ''peel'' = Some p \<Longrightarrow> is_dir fs p \<Longrightarrow> is_dir fs' p"
  shows "intact fs fs'"
  unfolding intact_def
proof (intro impI conjI allI)
  assume "inv fs"
  then obtain s i p where *: "entry fs root_ino ''sbin'' = Some s" "entry fs s ''init'' = Some i"
      "\<not> is_dir fs i" "symlink_target fs i = None" "entry fs root_ino ''peel'' = Some p" "is_dir fs p"
    by (auto simp: inv_def elim: installed_parts)
  then have "f_inodes fs' i = f_inodes fs i" using assms(5) by simp
  then have "\<not> is_dir fs' i" "symlink_target fs' i = None"
    using * by (simp_all add: is_dir_def dir_entries_def symlink_target_def)
  then show "inv fs'" using * assms(1-4,6) by (simp add: inv_def installed_def)
  show "phys fs' root_ino [''sbin'', ''init''] = phys fs root_ino [''sbin'', ''init'']" using * assms(2,4) by simp
qed (use assms in auto)

lemma below_peel_del:
  assumes "inv fs" "below_peel fs d"
  shows "intact fs (del_entry d n fs)"
  using below_peel_apart [OF assms] wf_fs_del [OF inv_wf [OF assms(1)]]
  by (intro intactI) (auto split: option.splits)

lemma below_peel_create:
  assumes "inv fs" "below_peel fs d" "proper n" "\<forall>es. nd = Dir es \<longrightarrow> es = []"
  shows "intact fs (create_at d n nd m fs)"
proof -
  note A = below_peel_apart [OF assms(1,2)]
  have d: "is_dir fs d" "d \<noteq> f_next fs" using assms(2) dir_not_next [OF inv_wf [OF assms(1)]] by (auto simp: below_peel_def)
  have "j \<noteq> f_next fs" if "entry fs k x = Some j" for j k x using wf_fs_entry(3) [OF inv_wf [OF assms(1)] that] by simp
  moreover have "root_ino \<noteq> f_next fs" using assms(1) dir_not_next by (simp add: inv_def wf_fs_def)
  ultimately show ?thesis
    using A create_at_simps(1,3) [OF d] wf_fs_create [OF inv_wf [OF assms(1)] d(1) assms(4,3)]
    by (intro intactI) (auto split: option.splits)
qed

lemma below_peel_set:
  assumes "inv fs" "below_peel fs d" "proper n" "i \<in> dom (f_inodes fs)" "\<not> is_dir fs i"
  shows "intact fs (set_entry d n i fs)"
proof -
  have "is_dir fs d" "i \<noteq> root_ino" using assms by (auto simp: below_peel_def inv_def wf_fs_def)
  then show ?thesis
    using below_peel_apart [OF assms(1,2)] wf_fs_link [OF inv_wf [OF assms(1)], of d n i] assms(3-5)
    by (intro intactI) (auto split: option.splits)
qed

lemma other_inode_intact:
  assumes "phys fs root_ino [''sbin'', ''init''] \<noteq> Some i" "\<And>x. same_shape x (f x)"
  shows "intact fs (upd_inode i f fs)"
proof (cases "wf_fs fs")
  case True
  then show ?thesis
    using assms(1) wf_fs_attr [OF assms(2)] upd_inode_shape [OF assms(2)]
    by (intro intactI) (auto split: option.splits)
qed (simp add: intact_def inv_def)

text \<open>A name in \<open>/peel\<close>.\<close>

lemma peel_located:
  assumes "inv fs" "entry fs root_ino ''peel'' = Some d" "proper f"
  shows "located fs [''peel'', f] d" "below_peel fs d"
proof -
  have d: "is_dir fs d" "is_dir fs root_ino" using assms(1,2) by (auto simp: inv_def installed_def wf_fs_def)
  then have "plain fs [''peel'', f]"
    using assms(2) is_dir_not_symlink by (simp add: plain_def upt_rec numeral_2_eq_2)
  then show "located fs [''peel'', f] d" using d assms(2,3) by (simp add: located_def proper_def)
  show "below_peel fs d" using d assms(2) by (auto simp: below_peel_def intro: exI [of _ "[]"])
qed

lemma intact_peel: "intact fs fs' \<Longrightarrow> inv fs \<Longrightarrow> entry fs' root_ino ''peel'' = entry fs root_ino ''peel''"
  by (simp add: intact_def)

section \<open>Writing resolv.conf\<close>

text \<open>
  \<open>/etc\<close> is no symbolic link, and \<open>resolv.conf\<close>, which may be one, does not lead to a protected
  file or name.
\<close>

definition resolv_safe :: "fs \<Rightarrow> bool" where
  "resolv_safe fs \<longleftrightarrow>
     plain fs [''etc'', ''resolv.conf''] \<and>
     (case resolve fs [''etc'', ''resolv.conf''] True of
        Inl e \<Rightarrow> True
      | Inr (d, n, Some i) \<Rightarrow> i \<notin> prot_inos fs
      | Inr (d, n, None) \<Rightarrow> open_entry fs d n)"

lemma content_harmless: "i \<notin> prot_inos fs \<Longrightarrow> harmless fs (upd_inode i (set_content b) fs)"
  by (rule harmless_mut, rule m_attr) simp_all

lemma write_file_harmless:
  assumes "inv fs"
    and "\<And>d n i. resolve fs es True = Inr (d, n, Some i) \<Longrightarrow> i \<notin> prot_inos fs"
    and "\<And>d n. resolve fs es True = Inr (d, n, None) \<Longrightarrow> open_entry fs d n"
  shows "harmless fs (snd (write_file fs es b m))"
proof -
  obtain r fs1 where o: "open_trunc fs es m = (r, fs1)" by fastforce
  have h: "harmless fs fs1 \<and> (\<forall>i. r = Inr i \<longrightarrow> i \<notin> prot_inos fs)"
  proof (cases "resolve fs es True")
    case (Inl e)
    with o show ?thesis by (auto simp: open_trunc_def)
  next
    case (Inr x)
    obtain d n y where x: "x = (d, n, y)" by (cases x)
    show ?thesis
    proof (cases y)
      case None
      then have "open_entry fs d n" using assms(3) Inr x by simp
      then have "harmless fs (create_at d n (Reg []) (m AND NOT (f_umask fs)) fs)"
        by (intro harmless_mut m_create) simp_all
      moreover have "f_next fs \<notin> prot_inos fs" using prot_inos_dom(2) [OF inv_wf [OF assms(1)]] by blast
      ultimately show ?thesis using o Inr x None by (auto simp: open_trunc_def)
    next
      case (Some i)
      then show ?thesis using o Inr x assms(2) content_harmless by (auto simp: open_trunc_def split: if_splits)
    qed
  qed
  then have "prot_inos fs1 = prot_inos fs" using assms(1) guarded_prot_inos by (auto simp: harmless_def)
  with h o show ?thesis
    by (cases r) (auto simp: write_file_def intro: harmless_trans content_harmless)
qed

text \<open>Where \<open>/etc\<close> is missing it is made, and is empty.\<close>

lemma etc_created:
  assumes "inv fs" "plain fs [''etc'', ''resolv.conf'']" "entry fs root_ino ''etc'' = None"
    and "mkdir_all fs [''etc''] m = (None, fs1)"
  shows "\<exists>d. resolve fs1 [''etc'', ''resolv.conf''] True = Inr (d, ''resolv.conf'', None) \<and> open_entry fs1 d ''resolv.conf''"
proof -
  have pr: "proper ''etc''" "proper ''resolv.conf''" by (simp_all add: proper_def)
  note M = mkdir_all_harmless [OF assms(1), of "[''etc'']" "''resolv.conf''" m None fs1]
  obtain d where d: "phys fs1 root_ino [''etc''] = Some d" "is_dir fs1 d" and pl1: "plain fs1 [''etc'', ''resolv.conf'']"
    using M(2) assms(2,4) pr by auto
  have inv1: "inv fs1" using M(1) assms(1,2,4) pr by (simp add: harmless_def)
  have loc: "located fs1 [''etc'', ''resolv.conf''] d" using d pl1 pr by (simp add: located_def)
  have root: "is_dir fs root_ino" "root_ino \<noteq> f_next fs"
    using assms(1) dir_not_next [of fs root_ino] by (auto simp: inv_def wf_fs_def)
  have loc0: "located fs [''etc''] root_ino"
    using root plain_prefix [of fs "[''etc'']" "[''resolv.conf'']"] assms(2) pr by (simp add: located_def)
  then have res: "resolve fs [''etc''] follow = Inr (root_ino, ''etc'', None)" for follow
    using located_resolve [OF loc0, of follow] assms(3) by simp
  then have "fs1 = create_at root_ino ''etc'' (Dir []) (m AND NOT (f_umask fs)) fs"
    using assms(4) root by (simp add: mkdir_all_def mkdir_def create_new_def stat_def found_def)
  then have "entry fs1 d ''resolv.conf'' = None"
    using d(1) create_at_simps(3) [OF root] by simp
  then have "resolve fs1 [''etc'', ''resolv.conf''] True = Inr (d, ''resolv.conf'', None)"
    using located_resolve [OF loc, of True] by simp
  moreover have "allowed [''etc'', ''resolv.conf'']" by (simp add: allowed_def prot_elems_def)
  then have "open_entry fs1 d ''resolv.conf''" using allowed_open [OF inv1 loc] by simp
  ultimately show ?thesis by blast
qed

lemma nameservers_harmless:
  assumes "inv fs" "resolv_safe fs"
  shows "harmless fs (snd (WriteResolvConf ''/'' ns fs))"
proof -
  obtain r fs1 where mk: "mkdir_all fs [''etc''] 0x1ED = (r, fs1)" by fastforce
  have pl: "plain fs [''etc'', ''resolv.conf'']" using assms(2) by (simp add: resolv_safe_def)
  have pr: "proper ''etc''" "proper ''resolv.conf''" by (simp_all add: proper_def)
  have h1: "harmless fs fs1" using mkdir_all_harmless(1) [OF assms(1), of "[''etc'']" "''resolv.conf''"] mk pl pr by simp
  have "harmless fs1 (snd (write_file fs1 [''etc'', ''resolv.conf''] b 0x1A4))" if rn0: "r = None" for b
  proof (cases "entry fs root_ino ''etc''")
    case (Some d)
    then have "symlink_target fs d = None" using plainD [OF pl, of "[''etc'']" "[''resolv.conf'']" d] by simp
    moreover have "located fs [''etc''] root_ino"
      using assms(1) plain_prefix [of fs "[''etc'']" "[''resolv.conf'']"] pl pr by (simp add: located_def inv_def wf_fs_def)
    ultimately have "stat fs [''etc''] = Inr d"
      using located_resolve [of fs "[''etc'']" root_ino True] Some by (simp add: stat_def found_def)
    then have "fs1 = fs" using mk rn0 by (auto simp: mkdir_all_def split: if_splits)
    moreover have "harmless fs (snd (write_file fs [''etc'', ''resolv.conf''] b 0x1A4))"
      using assms(2) by (intro write_file_harmless [OF assms(1)]) (auto simp: resolv_safe_def)
    ultimately show ?thesis by simp
  next
    case None
    have inv1: "inv fs1" using h1 assms(1) by (simp add: harmless_def)
    from etc_created [OF assms(1) pl None mk [unfolded rn0]] show ?thesis by (intro write_file_harmless [OF inv1]) auto
  qed
  note W = this
  show ?thesis
  proof (cases "ns = [] \<or> r \<noteq> None")
    case True
    then show ?thesis using mk h1 by (auto simp: WriteResolvConf_def Let_def resolv_path)
  next
    case False
    then obtain r2 fs2 where "write_file fs1 [''etc'', ''resolv.conf''] (bytes_of (resolv_text ns)) 0x1A4 = (r2, fs2)" "harmless fs1 fs2"
      using W [of "bytes_of (resolv_text ns)"] by (metis prod.collapse snd_conv)
    then show ?thesis
      using False mk harmless_trans [OF h1] by (cases r2) (auto simp: WriteResolvConf_def Let_def resolv_path)
  qed
qed

lemma WriteResolvConf_harmless:
  assumes "inv fs" "ns = [] \<or> resolv_safe fs"
  shows "harmless fs (snd (WriteResolvConf ''/'' ns fs))"
proof (cases "ns = []")
  case True
  then show ?thesis by (simp add: WriteResolvConf_def)
qed (use nameservers_harmless assms in blast)

section \<open>Saving the state\<close>

text \<open>
  peel is installed and can save its state, and the temporary file of an earlier, interrupted save
  is not another name of \<open>/sbin/init\<close>.
\<close>

abbreviation (input) state_file :: string where
  "state_file \<equiv> ''state.json''"

definition bootable :: "fs \<Rightarrow> ino \<Rightarrow> bool" where
  "bootable fs d \<longleftrightarrow>
     inv fs \<and> saveable fs [''peel''] state_file d \<and>
     entry fs d (tmp_name state_file) \<noteq> phys fs root_ino [''sbin'', ''init'']"

lemma bootable_guarded:
  assumes "guarded fs fs'" "inv fs'" "bootable fs d"
  shows "bootable fs' d"
proof -
  have s: "saveable fs [''peel''] state_file d" using assms(3) by (simp add: bootable_def)
  have "entry fs' d (tmp_name state_file) = entry fs d (tmp_name state_file)"
    using guarded_inode(2) [OF assms(1) saveable_peel(4) [OF s]] .
  then show ?thesis
    using assms(2,3) saveable_guarded(1) [OF assms(1,2) s] guarded_phys [OF assms(1) prot_elems_simps(2)]
    unfolding bootable_def by presburger
qed

lemma bootable_peel: "bootable fs d \<Longrightarrow> inv fs \<and> entry fs root_ino ''peel'' = Some d"
  using saveable_peel(1) [of fs state_file d] by (auto simp: bootable_def split: option.splits)

text \<open>The other names in \<open>/peel\<close> are where they were.\<close>

definition others_kept :: "fs \<Rightarrow> fs \<Rightarrow> ino \<Rightarrow> bool" where
  "others_kept fs fs' d \<longleftrightarrow>
     (\<forall>n. n \<notin> {state_file, tmp_name state_file} \<longrightarrow>
        entry fs' d n = entry fs d n \<and> (\<forall>i. entry fs d n = Some i \<longrightarrow> is_dir fs' i = is_dir fs i))"

lemma others_refl [simp]: "others_kept fs fs d"
  by (simp add: others_kept_def)

lemma others_trans: "others_kept a b d \<Longrightarrow> others_kept b c d \<Longrightarrow> others_kept a c d"
  unfolding others_kept_def by simp

lemma guarded_others:
  assumes "guarded fs fs'" "saveable fs [''peel''] state_file d"
  shows "others_kept fs fs' d"
  unfolding others_kept_def
  using guarded_inode(2) [OF assms(1) saveable_peel(4) [OF assms(2)]]
    guarded_inode(3) [OF assms(1) saveable_peel(5) [OF assms(2)]] by blast

lemma open_tmp_intact:
  assumes "bootable fs d" "open_trunc fs [''peel'', tmp_name state_file] m = (Inr i, fs1)"
  shows "intact fs fs1" "phys fs root_ino [''sbin'', ''init''] \<noteq> Some i" "others_kept fs fs1 d"
proof -
  have inv: "inv fs" and p: "entry fs root_ino ''peel'' = Some d" using bootable_peel [OF assms(1)] by auto
  have pr: "proper (tmp_name state_file)" by (rule proper_tmp) (simp add: proper_def)
  note L = peel_located [OF inv p pr]
  have d: "is_dir fs d" "d \<noteq> f_next fs" using L(2) dir_not_next [OF inv_wf [OF inv]] by (auto simp: below_peel_def)
  have new: "j \<noteq> f_next fs" if "entry fs k x = Some j" for j k x using wf_fs_entry(3) [OF inv_wf [OF inv] that] by simp
  have "intact fs fs1 \<and> phys fs root_ino [''sbin'', ''init''] \<noteq> Some i \<and> others_kept fs fs1 d"
  proof (cases "entry fs d (tmp_name state_file)")
    case None
    let ?fs1 = "create_at d (tmp_name state_file) (Reg []) (m AND NOT (f_umask fs)) fs"
    have o: "i = f_next fs" "fs1 = ?fs1"
      using assms(2) located_resolve [OF L(1), of True] None by (auto simp: open_trunc_def)
    have "intact fs ?fs1" by (rule below_peel_create [OF inv L(2) pr]) simp
    moreover have "phys fs root_ino [''sbin'', ''init''] \<noteq> Some (f_next fs)"
      using new by (auto split: option.splits)
    moreover have "others_kept fs ?fs1 d"
      unfolding others_kept_def using create_at_simps(1,3) [OF d] new d(2) by auto
    ultimately show ?thesis using o by simp
  next
    case (Some j)
    have "saveable fs [''peel''] state_file d" using assms(1) by (simp add: bootable_def)
    then obtain n b where j: "f_inodes fs j = Some n" "i_node n = Reg b" using Some by (auto simp: saveable_def)
    then have "\<not> is_dir fs j" "\<not> is_sock fs j" "symlink_target fs j = None"
      by (auto simp: is_dir_def is_sock_def dir_entries_def symlink_target_def)
    then have o: "i = j" "fs1 = upd_inode j (set_content []) fs"
      using assms(2) located_resolve [OF L(1), of True] Some by (auto simp: open_trunc_def)
    have "phys fs root_ino [''sbin'', ''init''] \<noteq> Some j" using assms(1) Some by (auto simp: bootable_def)
    then show ?thesis
      unfolding o others_kept_def
      using other_inode_intact [of fs j "set_content []"] upd_inode_shape(3,4) [of "set_content []"] by simp
  qed
  then show "intact fs fs1" "phys fs root_ino [''sbin'', ''init''] \<noteq> Some i" "others_kept fs fs1 d" by auto
qed

lemma rename_tmp_intact:
  assumes "inv fs" "entry fs root_ino ''peel'' = Some d" "entry fs d (tmp_name state_file) = Some i"
    and "i \<in> dom (f_inodes fs)" "\<not> is_dir fs i"
    and "rename_file fs [''peel'', tmp_name state_file] [''peel'', state_file] = (r, fs')"
  shows "intact fs fs'" "others_kept fs fs' d"
proof -
  have pr: "proper state_file" "proper (tmp_name state_file)" by (simp_all add: proper_def tmp_name_def)
  note L = peel_located [OF assms(1,2) pr(1)] and T = peel_located [OF assms(1,2) pr(2)]
  let ?del = "del_entry d (tmp_name state_file) fs"
  have "fs' = fs \<or> fs' = set_entry d state_file i ?del"
    using assms(3,6) located_resolve [OF L(1), of False] located_resolve [OF T(1), of False]
    by (auto simp: rename_file_def split: if_splits)
  moreover have "intact fs ?del" by (rule below_peel_del [OF assms(1) L(2)])
  then have inv: "inv ?del" using assms(1) by (simp add: intact_def)
  have "entry ?del root_ino ''peel'' = Some d"
    using assms(2) below_peel_apart(1) [OF assms(1) L(2)] by simp
  then have "intact ?del (set_entry d state_file i ?del)"
    using assms(4,5) peel_located(2) [OF inv] pr(1) by (intro below_peel_set [OF inv]) auto
  ultimately show "intact fs fs'" using \<open>intact fs ?del\<close> intact_trans by blast
  have "is_dir fs d" using L(2) by (simp add: below_peel_def)
  with \<open>fs' = fs \<or> fs' = set_entry d state_file i ?del\<close> show "others_kept fs fs' d"
    by (auto simp: others_kept_def)
qed

lemma Save_intact:
  assumes "bootable fs d" "marshal s = Some b"
  shows "\<exists>fs'. state_Save marshal fs state_DefaultPath s = (None, fs') \<and> intact fs fs' \<and>
    saveable fs' [''peel''] state_file d \<and> others_kept fs fs' d"
proof -
  have sv: "saveable fs [''peel''] state_file d" and inv: "inv fs" using assms(1) by (auto simp: bootable_def)
  then have "wf_fs fs" "located fs ([''peel''] @ [state_file]) d" by (auto simp: saveable_def)
  note P = save_paths [OF this(2) state_path(2) this(1)]
  obtain i fs1 where o: "open_trunc fs ([''peel''] @ [tmp_name state_file]) 0x180 = (Inr i, fs1)"
    and t: "tmp_written fs d state_file i [] fs1" "located fs1 ([''peel''] @ [state_file]) d"
    using open_tmp [OF sv] by blast
  let ?fs2 = "upd_inode i (set_content b) fs1"
  have t2: "tmp_written fs d state_file i b ?fs2" "located ?fs2 ([''peel''] @ [state_file]) d"
    by (rule write_tmp [OF t])+
  have I1: "intact fs fs1" "phys fs root_ino [''sbin'', ''init''] \<noteq> Some i" "others_kept fs fs1 d"
    using open_tmp_intact [OF assms(1), of "0x180" i fs1] o by auto
  then have "phys fs1 root_ino [''sbin'', ''init''] \<noteq> Some i" using inv by (simp add: intact_def)
  then have I2: "intact fs ?fs2" "others_kept fs ?fs2 d"
    using intact_trans [OF I1(1) other_inode_intact] I1(3) upd_inode_shape(3,4) [of "set_content b"]
    by (simp_all add: others_kept_def)
  obtain fs3 where r: "rename_file ?fs2 ([''peel''] @ [tmp_name state_file]) ([''peel''] @ [state_file]) = (None, fs3)"
      "saveable fs3 [''peel''] state_file d"
    using rename_tmp [OF sv t2] by blast
  have "entry ?fs2 d (tmp_name state_file) = Some i" "i \<in> dom (f_inodes ?fs2)" "\<not> is_dir ?fs2 i"
    using t2(1) by (auto simp: tmp_written_def is_dir_def dir_entries_def)
  moreover have "inv ?fs2" "entry ?fs2 root_ino ''peel'' = Some d"
    using I2(1) inv bootable_peel [OF assms(1)] by (simp_all add: intact_def)
  ultimately have "intact ?fs2 fs3" "others_kept ?fs2 fs3 d"
    using rename_tmp_intact [of ?fs2 d i None fs3] r(1) by simp_all
  then have "intact fs fs3" "others_kept fs fs3 d" using I2 intact_trans others_trans by blast+
  moreover have "state_Save marshal fs state_DefaultPath s = (None, fs3)"
    using P o r(1) assms(2) by (simp add: state_Save_eq write_file_def)
  ultimately show ?thesis using r(2) by blast
qed

section \<open>Unpacking\<close>

text \<open>What unpacking an image needs to be harmless to peel.\<close>

definition image_safe :: "boot_env \<Rightarrow> Config \<Rightarrow> fs \<Rightarrow> bool" where
  "image_safe env cfg fs \<longleftrightarrow>
     (\<forall>img. be_pull env cfg = Some img \<longrightarrow>
        json_ok (be_unmarshal env) (be_marshal env) (be_now env) cfg img \<and>
        (\<forall>ls. img_layers img = Some ls \<longrightarrow> safe_layers ls fs))"

abbreviation (input) unpack :: "boot_env \<Rightarrow> Config \<Rightarrow> fs \<Rightarrow> (boot_error, Runtime) result \<times> fs" where
  "unpack env cfg fs \<equiv>
     ensureUnpacked (be_unmarshal env) (be_marshal env) (be_pull env) (be_now env) ''/'' state_DefaultPath cfg fs"

lemma unpack_image_intact:
  assumes "bootable fs d" "json_ok unmarshal marshal now cfg img"
    and "\<And>ls. img_layers img = Some ls \<Longrightarrow> safe_layers ls fs"
    and "unpack_image marshal now ''/'' state_DefaultPath cfg img fs = (r, fs')"
  shows "intact fs fs' \<and> saveable fs' [''peel''] state_file d \<and> others_kept fs fs' d"
proof -
  have sv: "saveable fs [''peel''] state_file d" "inv fs" using assms(1) by (auto simp: bootable_def)
  consider (early) "fs' = fs" | (layers) dg cf ls where "img_digest img = Some dg" "img_config img = Some cf" "img_layers img = Some ls"
    using assms(4) by (cases "img_digest img"; cases "img_config img"; cases "img_layers img") (auto simp: unpack_image_def)
  then show ?thesis
  proof cases
    case early
    then show ?thesis using sv by simp
  next
    case layers
    obtain e fs1 where u: "unpack_layers ''/'' 0 ls fs = (e, fs1)" by fastforce
    have h: "harmless fs fs1" by (rule unpack_layers_harmless [OF sv(2) assms(3) [OF layers(3)] u])
    then have g: "inv fs1" "guarded fs fs1" using harmlessD sv(2) by blast+
    note I1 = harmless_intact [OF h] saveable_guarded(1) [OF g(2,1) sv(1)] guarded_others [OF g(2) sv(1)]
    show ?thesis
    proof (cases e)
      case (Some x)
      with assms(4) layers u have "fs' = fs1" by (auto simp: unpack_image_def Let_def)
      with I1 show ?thesis by simp
    next
      case None
      let ?s = "\<lparr>st_Reference = c_Image cfg, st_Digest = dg, st_Runtime = Merge cf cfg, st_UnpackedAt = now\<rparr>"
      obtain b where "marshal ?s = Some b" using assms(2) layers(1,2) by (auto simp: json_ok_def Let_def)
      from Save_intact [OF bootable_guarded [OF g(2,1) assms(1)], of marshal ?s b, OF this] None assms(4) layers u
      have "intact fs1 fs'" "saveable fs' [''peel''] state_file d" "others_kept fs1 fs' d"
        by (auto simp: unpack_image_def Let_def)
      with I1 show ?thesis using intact_trans others_trans by blast
    qed
  qed
qed

lemma unpack_intact:
  assumes "bootable fs d" "image_safe env cfg fs" "unpack env cfg fs = (r, fs')"
  shows "intact fs fs' \<and> saveable fs' [''peel''] state_file d \<and> others_kept fs fs' d"
proof (cases "fs' = fs")
  case True
  then show ?thesis using assms(1) by (simp add: bootable_def)
next
  case False
  then obtain img where "be_pull env cfg = Some img"
      "unpack_image (be_marshal env) (be_now env) ''/'' state_DefaultPath cfg img fs = (r, fs')"
    using assms(3) by (auto simp: ensureUnpacked_def split: sum.splits if_splits option.splits)
  then show ?thesis
    using unpack_image_intact [OF assms(1)] assms(2) by (auto simp: image_safe_def)
qed

section \<open>Starting loopback sharing\<close>

lemma listen_effect:
  assumes "wf_fs fs" "located fs es d" "entry fs d (last es) = None" "kcomps path = es"
    and "listen_at can_listen path h fs = (x, fs')"
  shows "fs' = fs \<or> fs' = upd_inode (f_next fs) (\<lambda>n. n\<lparr>i_mode := 0x1B6\<rparr>)
    (create_at d (last es) Sock (0x1FF AND NOT (f_umask fs)) fs)"
  using listen_located [OF assms(1-4)] assms(5)
  by (cases "can_listen path \<and> length path < 108") (auto simp: listen_at_def bind_unix_def split: if_splits)

lemma remove_effect:
  assumes "wf_fs fs" "located fs es d" "remove_path fs es = (r, fs')"
  shows "fs' = fs \<and> (r = Some ENOENT \<longrightarrow> entry fs d (last es) = None) \<and> r \<noteq> None \<or> r = None \<and> fs' = del_entry d (last es) fs"
  using located_resolve [OF assms(2), of False] assms(3) wf_fs_entry(1) [OF assms(1)]
  by (auto simp: remove_path_def split: option.splits if_splits)

text \<open>The socket takes the place of what was there, unless something fails.\<close>

lemma RunDir_effect:
  assumes "wf_fs fs" "plain fs (ds @ [self])" "list_all proper (ds @ [self])" "ds \<noteq> []"
    and "dir = CHR ''/'' # join_with ''/'' ds" "RunDir (Some self) can_listen dir fs = (x, fs')"
  shows "fs' = fs \<or> (\<exists>d fs0. located fs (ds @ [self]) d \<and> (fs0 = fs \<or> fs0 = del_entry d self fs) \<and>
    (fs' = fs0 \<or> fs' = upd_inode (f_next fs) (\<lambda>n. n\<lparr>i_mode := 0x1B6\<rparr>) (create_at d self Sock (0x1FF AND NOT (f_umask fs)) fs0)))"
proof -
  let ?sock = "path_join [dir, self]"
  have k: "kcomps ?sock = ds @ [self]"
    using kcomps_join [OF assms(3)] path_join_snoc(2) [of ds self] assms(3,5) by simp
  obtain r fs0 where rm: "remove_path fs (ds @ [self]) = (r, fs0)" by fastforce
  have run: "fs' = fs \<or> (fs' = fs0 \<or> (r = None \<or> r = Some ENOENT) \<and> listen_at can_listen ?sock self fs0 = (x, fs'))"
    using assms(6) rm k by (auto simp: RunDir_def Let_def split: sum.splits option.splits if_splits)
  show ?thesis
  proof (cases "resolve fs (ds @ [self]) False")
    case (Inl e)
    then have "fs0 = fs" "create_new fs (ds @ [self]) nd m = (Some e, fs)" for nd m
      using rm by (auto simp: remove_path_def create_new_def)
    then show ?thesis
      using run k by (auto simp: listen_at_def bind_unix_def split: if_splits)
  next
    case (Inr y)
    obtain d n z where y: "y = (d, n, z)" by (cases y)
    have loc: "located fs (ds @ [self]) d" using resolve_located(1) [OF assms(2,3)] Inr y by blast
    note R = remove_effect [OF assms(1) loc rm]
    have "f_next fs0 = f_next fs" "f_umask fs0 = f_umask fs" "wf_fs fs0" "located fs0 (ds @ [self]) d"
      using R assms(1) loc located_del [OF assms(1) loc] wf_fs_del [OF assms(1)]
      by (auto simp: del_entry_def upd_inode_def)
    note F = this listen_effect [OF this(3,4) _ k, of can_listen self x fs']
    have "entry fs0 d self = None" if "r = None \<or> r = Some ENOENT" using R that by auto
    with F run have "fs' = fs \<or> fs' = fs0 \<or>
        fs' = upd_inode (f_next fs) (\<lambda>n. n\<lparr>i_mode := 0x1B6\<rparr>) (create_at d self Sock (0x1FF AND NOT (f_umask fs)) fs0)"
      by (auto split: if_splits)
    with loc R show ?thesis by auto
  qed
qed

text \<open>What it does to peel's files: nothing.\<close>

lemma lo_Run_intact:
  assumes "inv fs" "entry fs root_ino ''peel'' = Some d" "\<And>h. host = Some h \<Longrightarrow> proper h \<and> plain fs [''peel'', ''lo'', h]"
    and "lo_Run host can_listen fs = (x, fs')"
  shows "intact fs fs'" "entry fs' d f = entry fs d f"
    "entry fs d f = Some i \<Longrightarrow> \<not> is_dir fs i \<Longrightarrow> f_inodes fs' i = f_inodes fs i"
proof -
  have wf: "wf_fs fs" by (rule inv_wf [OF assms(1)])
  have "intact fs fs' \<and> entry fs' d f = entry fs d f \<and> (entry fs d f = Some i \<and> \<not> is_dir fs i \<longrightarrow> f_inodes fs' i = f_inodes fs i)"
  proof (cases "fs' = fs")
    case False
    then obtain h where h: "host = Some h" using assms(4) by (cases host) (auto simp: lo_Run_def RunDir_def split: sum.splits)
    have "DefaultDir = CHR ''/'' # join_with ''/'' [''peel'', ''lo'']" by (simp add: DefaultDir_def)
    moreover have "RunDir (Some h) can_listen DefaultDir fs = (x, fs')" using assms(4) h by (simp add: lo_Run_def)
    ultimately obtain k fs0 where loc: "located fs [''peel'', ''lo'', h] k" and 0: "fs0 = fs \<or> fs0 = del_entry k h fs"
      and fs': "fs' = fs0 \<or> fs' = upd_inode (f_next fs) (\<lambda>n. n\<lparr>i_mode := 0x1B6\<rparr>) (create_at k h Sock (0x1FF AND NOT (f_umask fs)) fs0)"
      using RunDir_effect [OF wf, of "[''peel'', ''lo'']" h DefaultDir can_listen x fs'] assms(3) [OF h] False
      by (auto simp: proper_def)
    have ph: "phys fs root_ino [''peel'', ''lo''] = Some k" "is_dir fs k" and pr: "proper h" using loc by (auto simp: located_def)
    then have b: "below_peel fs k" unfolding below_peel_def by blast
    have "d \<noteq> k" using phys_dir_inj [OF wf _ ph, of "[''peel'']"] assms(2) by auto
    note A = below_peel_apart [OF assms(1) b]
    have I0: "intact fs fs0" using 0 below_peel_del [OF assms(1) b] by auto
    then have inv0: "inv fs0" using assms(1) by (simp add: intact_def)
    have "phys fs0 root_ino [''peel'', ''lo''] = Some k" "is_dir fs0 k"
      using 0 ph assms(2) A(1) \<open>d \<noteq> k\<close> by (auto split: option.splits)
    then have b0: "below_peel fs0 k" unfolding below_peel_def by blast
    have n0: "f_next fs0 = f_next fs" using 0 by auto
    let ?fs1 = "create_at k h Sock (0x1FF AND NOT (f_umask fs)) fs0"
    have I1: "intact fs0 ?fs1" by (rule below_peel_create [OF inv0 b0 pr]) simp
    have new: "j \<noteq> f_next fs" if "entry fs0 y z = Some j" for j y z
      using wf_fs_entry(3) [OF inv_wf [OF inv0] that] n0 by simp
    then have "phys fs0 root_ino [''sbin'', ''init''] \<noteq> Some (f_next fs)" by (auto split: option.splits)
    then have "phys ?fs1 root_ino [''sbin'', ''init''] \<noteq> Some (f_next fs)" using I1 inv0 by (simp add: intact_def)
    then have I2: "intact ?fs1 (upd_inode (f_next fs) (\<lambda>n. n\<lparr>i_mode := 0x1B6\<rparr>) ?fs1)"
      by (rule other_inode_intact) (simp add: same_shape_def)
    have I: "intact fs fs'" using fs' I0 I1 I2 intact_trans by blast
    have kd: "k \<noteq> f_next fs0" "is_dir fs0 k" using b0 dir_not_next [OF inv_wf [OF inv0]] by (auto simp: below_peel_def)
    have d0: "d \<noteq> f_next fs0" using assms(2) wf_fs_entry(3) [OF wf assms(2)] n0 by simp
    have sh: "same_shape y (y\<lparr>i_mode := m\<rparr>)" for y m by (simp add: same_shape_def)
    have e: "entry fs' d f = entry fs d f"
      using fs' 0 \<open>d \<noteq> k\<close> create_at_simps(3) [OF kd(2,1)] d0 upd_inode_shape(4) [OF sh] n0 by auto
    have "f_inodes fs' i = f_inodes fs i" if "entry fs d f = Some i" "\<not> is_dir fs i"
    proof -
      have "i \<noteq> k" "i \<noteq> f_next fs" using that ph(2) wf_fs_entry(3) [OF wf that(1)] by auto
      then show ?thesis using fs' 0 n0 by auto
    qed
    with I e show ?thesis by blast
  qed simp
  then show "intact fs fs'" "entry fs' d f = entry fs d f"
    "entry fs d f = Some i \<Longrightarrow> \<not> is_dir fs i \<Longrightarrow> f_inodes fs' i = f_inodes fs i" by auto
qed

end
