(* ===== verification/BootProps.thy ===== *)
theory BootProps
  imports BootSafety
begin

text \<open>
  The whole boot, from the configuration to the supervisor: the installation, the state file and
  the configuration file are followed through its phases, on a run of a small root as well.
\<close>

section \<open>The whole boot\<close>

text \<open>
  A boot is safe when, at the moments they happen, writing \<open>resolv.conf\<close> is safe, the layers of the
  image are, and \<open>/peel/lo\<close> is no symbolic link.
\<close>

definition boot_safe :: "boot_env \<Rightarrow> bool \<Rightarrow> Config \<Rightarrow> fs \<Rightarrow> bool" where
  "boot_safe env pullOnly cfg fs \<longleftrightarrow>
     (case Configure (be_links env) (be_arrive env) ''/'' fs of ((ns, _), fs1) \<Rightarrow>
        (ns = [] \<or> resolv_safe fs) \<and> image_safe env cfg fs1 \<and>
        (case unpack env cfg fs1 of
           (Inl e, fs2) \<Rightarrow> True
         | (Inr rt, fs2) \<Rightarrow>
             let fs3 = (if pullOnly then fs2 else snd (remove_path fs2 (kcomps config_DefaultPath))) in
             (ns = [] \<or> resolv_safe fs3) \<and>
             (\<forall>h. be_host env = Some h \<longrightarrow> proper h \<and> plain (snd (WriteResolvConf ''/'' ns fs3)) [''peel'', ''lo'', h])))"

lemma config_path: "kcomps config_DefaultPath = [''peel'', ''config.json'']"
  by (simp add: config_DefaultPath_def kcomps_def)

lemma Configure_harmless:
  assumes "inv fs" "ns = [] \<or> resolv_safe fs" "Configure links arrive ''/'' fs = ((ns, calls), fs')"
  shows "harmless fs fs'"
  using assms WriteResolvConf_harmless [OF assms(1,2)]
  by (auto simp: Configure_def Let_def split: option.splits)

text \<open>The moments of a boot that came to its end, and those of one that did not.\<close>

lemma run_phases:
  assumes "config_Load (be_parse env) fs config_DefaultPath = Inr cfg"
    and "run env ''/'' config_DefaultPath state_DefaultPath pullOnly fs = (r, fs')"
  obtains ns calls fs1 ur fs2 where "Configure (be_links env) (be_arrive env) ''/'' fs = ((ns, calls), fs1)"
    "unpack env cfg fs1 = (ur, fs2)"
    "\<And>e. ur = Inl e \<Longrightarrow> r = Inl e \<and> fs' = fs2"
    "\<And>rt fs3 fs4. ur = Inr rt \<Longrightarrow> fs3 = (if pullOnly then fs2 else snd (remove_path fs2 (kcomps config_DefaultPath))) \<Longrightarrow>
       fs4 = snd (WriteResolvConf ''/'' ns fs3) \<Longrightarrow>
       (fs' = fs4 \<and> (\<forall>spec sh s. r \<noteq> Inr (Supervised spec sh s))) \<or>
       (\<exists>sh. lo_Run (be_host env) (be_listen env) fs4 = (sh, fs') \<and> \<not> pullOnly \<and>
          (\<forall>spec sh' s. r = Inr (Supervised spec sh' s) \<longrightarrow> sh' = sh \<and> Resolve fs4 ''/'' rt = Inr spec \<and> sup_Run (be_exec env) spec = Some s))"
proof -
  obtain ns calls fs1 where c: "Configure (be_links env) (be_arrive env) ''/'' fs = ((ns, calls), fs1)" by (metis prod.exhaust)
  obtain ur fs2 where u: "unpack env cfg fs1 = (ur, fs2)" by fastforce
  show thesis
  proof (rule that [OF c u])
    show "r = Inl e \<and> fs' = fs2" if "ur = Inl e" for e using assms c u that by (simp add: run_def)
    fix rt fs3 fs4
    assume ph: "ur = Inr rt" "fs3 = (if pullOnly then fs2 else snd (remove_path fs2 (kcomps config_DefaultPath)))"
      "fs4 = snd (WriteResolvConf ''/'' ns fs3)"
    obtain sh fs5 where l: "lo_Run (be_host env) (be_listen env) fs4 = (sh, fs5)" by fastforce
    have "(r, fs') = (case Resolve fs4 ''/'' rt of
         Inl e \<Rightarrow> (Inl (EntrypointFailed e), fs4)
       | Inr spec \<Rightarrow> if pullOnly then (Inr (Printed spec), fs4)
           else (case sup_Run (be_exec env) spec of
                   None \<Rightarrow> (Inl StartFailed, fs5) | Some s \<Rightarrow> (Inr (Supervised spec sh s), fs5)))"
      using assms c u ph(1) l unfolding run_def ph(2,3)
      by (cases pullOnly) (auto simp: Let_def split: sum.splits option.splits)
    then show "(fs' = fs4 \<and> (\<forall>spec sh s. r \<noteq> Inr (Supervised spec sh s))) \<or>
       (\<exists>sh. lo_Run (be_host env) (be_listen env) fs4 = (sh, fs') \<and> \<not> pullOnly \<and>
          (\<forall>spec sh' s. r = Inr (Supervised spec sh' s) \<longrightarrow> sh' = sh \<and> Resolve fs4 ''/'' rt = Inr spec \<and> sup_Run (be_exec env) spec = Some s))"
      using l by (auto split: sum.splits if_splits option.splits)
  qed
qed

text \<open>Removing the configuration file.\<close>

lemma config_removed:
  assumes "inv fs" "entry fs root_ino ''peel'' = Some d" "remove_path fs (kcomps config_DefaultPath) = (r, fs')"
  shows "intact fs fs'" "f \<noteq> ''config.json'' \<Longrightarrow> entry fs' d f = entry fs d f"
    "\<not> is_dir fs i \<Longrightarrow> f_inodes fs' i = f_inodes fs i"
    "(\<And>i. entry fs d ''config.json'' = Some i \<Longrightarrow> \<not> is_dir fs i) \<Longrightarrow> entry fs' d ''config.json'' = None"
proof -
  have "proper ''config.json''" by (simp add: proper_def)
  note L = peel_located [OF assms(1,2) this]
  note R = remove_effect [OF inv_wf [OF assms(1)] L(1) assms(3) [unfolded config_path]]
  have d: "is_dir fs d" using L(2) by (simp add: below_peel_def)
  show "intact fs fs'" using R below_peel_del [OF assms(1) L(2)] by auto
  show "f \<noteq> ''config.json'' \<Longrightarrow> entry fs' d f = entry fs d f" using R by auto
  show "\<not> is_dir fs i \<Longrightarrow> f_inodes fs' i = f_inodes fs i" using R d by (cases "i = d") auto
  assume "\<And>i. entry fs d ''config.json'' = Some i \<Longrightarrow> \<not> is_dir fs i"
  then show "entry fs' d ''config.json'' = None"
    using R assms(3) remove_located [OF inv_wf [OF assms(1)] L(1)] config_path by (auto split: option.splits)
qed

lemma read_init:
  assumes "intact fs fs'" "inv fs"
  shows "read_file fs' [''sbin'', ''init''] = read_file fs [''sbin'', ''init'']"
proof -
  have loc: "\<exists>s i. located fs [''sbin'', ''init''] s \<and> entry fs s ''init'' = Some i \<and> symlink_target fs i = None \<and>
      phys fs root_ino [''sbin'', ''init''] = Some i" if "inv fs" for fs
  proof -
    obtain s i where *: "entry fs root_ino ''sbin'' = Some s" "entry fs s ''init'' = Some i" "symlink_target fs i = None"
      using \<open>inv fs\<close> by (auto simp: inv_def elim: installed_parts)
    have "is_dir fs s" "is_dir fs root_ino" using * entry_is_dir by blast+
    then have "plain fs [''sbin'', ''init'']" using * is_dir_not_symlink by (simp add: plain_def upt_rec numeral_2_eq_2)
    then show ?thesis using * \<open>is_dir fs s\<close> by (auto simp: located_def proper_def)
  qed
  obtain s i where a: "located fs [''sbin'', ''init''] s" "entry fs s ''init'' = Some i" "symlink_target fs i = None"
    "phys fs root_ino [''sbin'', ''init''] = Some i" using loc [OF assms(2)] by blast
  have "inv fs'" using assms by (simp add: intact_def)
  then obtain s' i' where b: "located fs' [''sbin'', ''init''] s'" "entry fs' s' ''init'' = Some i'" "symlink_target fs' i' = None"
    "phys fs' root_ino [''sbin'', ''init''] = Some i'" using loc by blast
  have "i' = i" "f_inodes fs' i = f_inodes fs i" using assms a(4) b(4) by (simp_all add: intact_def)
  then show ?thesis
    using read_located [OF a(1)] read_located [OF b(1)] a b by (simp add: contents_def)
qed

text \<open>Up to the moment the image is unpacked, and from there to the end.\<close>

lemma boot_unpacked:
  assumes "bootable fs d" "boot_safe env pullOnly cfg fs"
    and "Configure (be_links env) (be_arrive env) ''/'' fs = ((ns, calls), fs1)" "unpack env cfg fs1 = (ur, fs2)"
  shows "bootable fs1 d" "intact fs fs2" "saveable fs2 [''peel''] state_file d" "others_kept fs fs2 d"
    "inv fs2" "entry fs2 root_ino ''peel'' = Some d"
proof -
  have inv: "inv fs" "saveable fs [''peel''] state_file d" using assms(1) by (auto simp: bootable_def)
  have "ns = [] \<or> resolv_safe fs" "image_safe env cfg fs1" using assms(2,3) by (auto simp: boot_safe_def)
  then have h: "harmless fs fs1" using Configure_harmless [OF inv(1) _ assms(3)] by simp
  then have g: "inv fs1" "guarded fs fs1" using harmlessD inv by blast+
  show b: "bootable fs1 d" by (rule bootable_guarded [OF g(2,1) assms(1)])
  note U = unpack_intact [OF b \<open>image_safe env cfg fs1\<close> assms(4)]
  show i2: "intact fs fs2" using intact_trans [OF harmless_intact [OF h]] U by blast
  show "saveable fs2 [''peel''] state_file d" using U by blast
  show "others_kept fs fs2 d" using others_trans guarded_others [OF g(2) inv(2)] U by blast
  show "inv fs2" "entry fs2 root_ino ''peel'' = Some d" using i2 bootable_peel [OF assms(1)] by (simp_all add: intact_def)
qed

lemma boot_finished:
  assumes "inv fs2" "entry fs2 root_ino ''peel'' = Some d"
    and "fs3 = (if pullOnly then fs2 else snd (remove_path fs2 (kcomps config_DefaultPath)))"
    and "fs4 = snd (WriteResolvConf ''/'' ns fs3)" "ns = [] \<or> resolv_safe fs3"
  shows "intact fs2 fs4" "inv fs4" "entry fs4 root_ino ''peel'' = Some d"
    "f \<noteq> ''config.json'' \<Longrightarrow> entry fs4 d f = entry fs2 d f"
    "entry fs2 d f = Some i \<Longrightarrow> f \<noteq> ''config.json'' \<Longrightarrow> \<not> is_dir fs2 i \<Longrightarrow> f_inodes fs4 i = f_inodes fs2 i"
    "\<not> pullOnly \<Longrightarrow> (\<And>i. entry fs2 d ''config.json'' = Some i \<Longrightarrow> \<not> is_dir fs2 i) \<Longrightarrow> entry fs4 d ''config.json'' = None"
proof -
  note R = config_removed [OF assms(1,2) surjective_pairing]
  have i3: "intact fs2 fs3" using assms(3) R(1) by auto
  then have p3: "inv fs3" "entry fs3 root_ino ''peel'' = Some d" using assms(1,2) by (simp_all add: intact_def)
  have h: "harmless fs3 fs4" using WriteResolvConf_harmless [OF p3(1) assms(5)] assms(4) by simp
  then have g: "inv fs4" "guarded fs3 fs4" using harmlessD p3(1) by blast+
  show i4: "intact fs2 fs4" using intact_trans [OF i3 harmless_intact [OF h]] .
  then show "inv fs4" "entry fs4 root_ino ''peel'' = Some d" using assms(1,2) by (simp_all add: intact_def)
  have dp: "d \<in> prot_inos fs3" by (rule prot_inosI [of fs3 "[''peel'']"]) (simp_all add: p3)
  note D = guarded_inode [OF g(2) dp]
  have e3: "entry fs3 d f = entry fs2 d f" if "f \<noteq> ''config.json''" for f using assms(3) R(2) [OF that] by auto
  show "f \<noteq> ''config.json'' \<Longrightarrow> entry fs4 d f = entry fs2 d f" using D(2) e3 by simp
  assume f: "entry fs2 d f = Some i" "f \<noteq> ''config.json''" "\<not> is_dir fs2 i"
  then have "phys fs3 root_ino [''peel'', f] = Some i" using p3(2) e3 by simp
  then have "i \<in> prot_inos fs3" by (rule prot_inosI) simp
  then show "f_inodes fs4 i = f_inodes fs2 i"
    using guarded_inode(1) [OF g(2)] R(3) [OF f(3)] assms(3) by auto
next
  assume po: "\<not> pullOnly" and nd: "\<And>i. entry fs2 d ''config.json'' = Some i \<Longrightarrow> \<not> is_dir fs2 i"
  note R = config_removed [OF assms(1,2) surjective_pairing]
  have i3: "intact fs2 fs3" and c3: "entry fs3 d ''config.json'' = None" using assms(3) R(1) R(4) [OF nd] po by auto
  then have p3: "inv fs3" "entry fs3 root_ino ''peel'' = Some d" using assms(1,2) by (simp_all add: intact_def)
  have "guarded fs3 fs4" using WriteResolvConf_harmless [OF p3(1) assms(5)] assms(4) harmlessD p3(1) by blast
  moreover have "d \<in> prot_inos fs3" by (rule prot_inosI [of fs3 "[''peel'']"]) (simp_all add: p3)
  ultimately show "entry fs4 d ''config.json'' = None" using guarded_inode(2) c3 by simp
qed

text \<open>
  C7. peel survives its own boot. However a boot ends, in the supervisor, having printed the command,
  or with any error half way through, \<open>/sbin/init\<close> is afterwards the same file with the same contents
  and attributes, and \<open>/peel\<close> the same directory, on a file system that is still well formed. The
  boot is safe as in \<open>boot_safe\<close>: the layers are, and \<open>resolv.conf\<close> does not lead to a protected
  file.
\<close>

theorem boot_keeps_peel:
  assumes "bootable fs d"
    and "\<And>cfg. config_Load (be_parse env) fs config_DefaultPath = Inr cfg \<Longrightarrow> boot_safe env pullOnly cfg fs"
    and "run env ''/'' config_DefaultPath state_DefaultPath pullOnly fs = (r, fs')"
  shows "inv fs' \<and> read_file fs' [''sbin'', ''init''] = read_file fs [''sbin'', ''init''] \<and>
    phys fs' root_ino [''sbin'', ''init''] = phys fs root_ino [''sbin'', ''init''] \<and>
    (\<forall>i. phys fs root_ino [''sbin'', ''init''] = Some i \<longrightarrow> f_inodes fs' i = f_inodes fs i) \<and>
    entry fs' root_ino ''peel'' = entry fs root_ino ''peel''"
proof -
  have inv: "inv fs" using assms(1) by (simp add: bootable_def)
  have "intact fs fs'"
  proof (cases "config_Load (be_parse env) fs config_DefaultPath")
    case (Inl e)
    then show ?thesis using assms(3) by (simp add: run_def)
  next
    case (Inr cfg)
    obtain ns calls fs1 ur fs2 where ph: "Configure (be_links env) (be_arrive env) ''/'' fs = ((ns, calls), fs1)"
      "unpack env cfg fs1 = (ur, fs2)" "\<And>e. ur = Inl e \<Longrightarrow> r = Inl e \<and> fs' = fs2"
      and fin: "\<And>rt fs3 fs4. ur = Inr rt \<Longrightarrow> fs3 = (if pullOnly then fs2 else snd (remove_path fs2 (kcomps config_DefaultPath))) \<Longrightarrow>
         fs4 = snd (WriteResolvConf ''/'' ns fs3) \<Longrightarrow> fs' = fs4 \<or> (\<exists>sh. lo_Run (be_host env) (be_listen env) fs4 = (sh, fs') \<and> \<not> pullOnly)"
      by (rule run_phases [OF Inr assms(3)]) blast
    note U = boot_unpacked [OF assms(1) assms(2) [OF Inr] ph(1,2)]
    show ?thesis
    proof (cases ur)
      case (Inl e)
      then show ?thesis using ph(3) U(2) by simp
    next
      case (Inr rt)
      define fs3 where "fs3 = (if pullOnly then fs2 else snd (remove_path fs2 (kcomps config_DefaultPath)))"
      define fs4 where "fs4 = snd (WriteResolvConf ''/'' ns fs3)"
      have safe: "ns = [] \<or> resolv_safe fs3" "\<And>h. be_host env = Some h \<Longrightarrow> proper h \<and> plain fs4 [''peel'', ''lo'', h]"
        using assms(2) [OF \<open>config_Load _ _ _ = Inr cfg\<close>] ph(1,2) Inr by (simp_all add: boot_safe_def Let_def fs3_def fs4_def)
      note F = boot_finished [OF U(5,6) fs3_def fs4_def safe(1)]
      from fin [OF Inr fs3_def fs4_def] show ?thesis
        using intact_trans [OF U(2) F(1)] lo_Run_intact(1) [OF F(2,3) safe(2)] intact_trans by blast
    qed
  qed
  then show ?thesis using inv read_init [OF \<open>intact fs fs'\<close> inv] by (simp add: intact_def)
qed

text \<open>The configuration file was read, so it is no directory.\<close>

lemma config_no_dir:
  assumes "inv fs" "entry fs root_ino ''peel'' = Some d" "config_Load parse fs config_DefaultPath = Inr cfg"
    and "entry fs d ''config.json'' = Some i"
  shows "\<not> is_dir fs i"
proof
  assume i: "is_dir fs i"
  have "proper ''config.json''" by (simp add: proper_def)
  note L = peel_located(1) [OF assms(1,2) this]
  have "read_file fs [''peel'', ''config.json''] = contents fs i"
    using read_located [OF L] assms(4) is_dir_not_symlink [OF i] by simp
  moreover have "contents fs i = Inl EISDIR"
    using i by (auto simp: contents_def is_dir_def dir_entries_def split: option.splits node.splits)
  ultimately show False using assms(3) config_path by (simp add: config_Load_def)
qed

lemma read_kept:
  assumes "inv fs" "entry fs root_ino ''peel'' = Some d" "inv fs'" "entry fs' root_ino ''peel'' = Some d" "proper f"
    and "entry fs' d f = entry fs d f" "\<And>i. entry fs d f = Some i \<Longrightarrow> symlink_target fs i = None \<and> f_inodes fs' i = f_inodes fs i"
  shows "read_file fs' [''peel'', f] = read_file fs [''peel'', f]"
proof -
  note A = peel_located(1) [OF assms(1,2,5)] and B = peel_located(1) [OF assms(3,4,5)]
  have "symlink_target fs' i = None" "contents fs' i = contents fs i" if "entry fs d f = Some i" for i
    using assms(7) [OF that] by (simp_all add: symlink_target_def contents_def)
  then show ?thesis
    using read_located [OF A] read_located [OF B] assms(6,7) by (simp split: option.splits)
qed

text \<open>The state file and the configuration file from the moment the image is unpacked.\<close>

lemma boot_end:
  assumes "inv fs2" "entry fs2 root_ino ''peel'' = Some d" "saveable fs2 [''peel''] state_file d"
    and "fs3 = snd (remove_path fs2 (kcomps config_DefaultPath))" "fs4 = snd (WriteResolvConf ''/'' ns fs3)"
    and "ns = [] \<or> resolv_safe fs3" "\<And>h. host = Some h \<Longrightarrow> proper h \<and> plain fs4 [''peel'', ''lo'', h]"
    and "lo_Run host can_listen fs4 = (sharing, fs')" "\<And>i. entry fs2 d ''config.json'' = Some i \<Longrightarrow> \<not> is_dir fs2 i"
  shows "state_Load unmarshal fs' state_DefaultPath = state_Load unmarshal fs2 state_DefaultPath"
    "read_file fs' (kcomps config_DefaultPath) = Inl ENOENT"
proof -
  have "fs3 = (if False then fs2 else snd (remove_path fs2 (kcomps config_DefaultPath)))" using assms(4) by simp
  note F = boot_finished [OF assms(1,2) this assms(5,6)]
  note L = lo_Run_intact [OF F(2,3) assms(7,8)]
  have p': "inv fs'" "entry fs' root_ino ''peel'' = Some d" using L(1) F(2,3) by (simp_all add: intact_def)
  have pr: "proper ''config.json''" "proper state_file" by (simp_all add: proper_def)
  have "entry fs' d ''config.json'' = None" using F(6) L(2) assms(9) by simp
  then show "read_file fs' (kcomps config_DefaultPath) = Inl ENOENT"
    using read_located [OF peel_located(1) [OF p' pr(1)]] config_path by simp
  have "symlink_target fs2 i = None \<and> f_inodes fs' i = f_inodes fs2 i" if e: "entry fs2 d state_file = Some i" for i
  proof -
    have i: "\<not> is_dir fs2 i" "symlink_target fs2 i = None" using assms(3) e by (auto simp: saveable_def)
    then have "f_inodes fs4 i = f_inodes fs2 i" "entry fs4 d state_file = Some i" using F(4) F(5) [OF e] e by simp_all
    moreover from this have "\<not> is_dir fs4 i" using i(1) by (simp add: is_dir_def dir_entries_def)
    ultimately show ?thesis using L(3) i(2) by simp
  qed
  then have "read_file fs' [''peel'', state_file] = read_file fs2 [''peel'', state_file]"
    using F(4) L(2) by (intro read_kept [OF assms(1,2) p' pr(2)]) simp_all
  then show "state_Load unmarshal fs' state_DefaultPath = state_Load unmarshal fs2 state_DefaultPath"
    by (intro state_Load_read) (simp add: state_path(1))
qed

text \<open>
  C8. What a boot that reached the supervisor has done, provided that peel was installed and able to save
  its state when it began, and that the boot is safe as in \<open>boot_safe\<close>: the layers are safe, JSON
  carries the state over, \<open>resolv.conf\<close> does not lead to one of peel's files (to the state file, say)
  when nameservers were learned, and \<open>/peel/lo\<close> is no symbolic link. The process supervised is the one the kernel
  started for the resolved command, whose arguments are the entrypoint and command recorded in
  the state file; that file names the configured image, so that the next boot with it, on this
  file system, pulls and unpacks nothing and needs no registry; and the configuration file with the
  registry's credentials is gone.
\<close>

theorem boot_supervises:
  assumes "bootable fs d" "config_Load (be_parse env) fs config_DefaultPath = Inr cfg" "boot_safe env False cfg fs"
    and "run env ''/'' config_DefaultPath state_DefaultPath False fs = (Inr (Supervised spec sharing s), fs')"
  shows "read_file fs' (kcomps config_DefaultPath) = Inl ENOENT \<and>
    start (be_exec env) spec = Some (s_main s) \<and> s = sup_start (s_main s) \<and>
    (\<exists>st. state_Load (be_unmarshal env) fs' state_DefaultPath = Inr (Some st) \<and> st_Reference st = c_Image cfg \<and>
       sp_Argv spec = rt_Entrypoint (st_Runtime st) @ rt_Cmd (st_Runtime st) \<and>
       (\<forall>marshal pull now cfg'. c_Image cfg' = c_Image cfg \<longrightarrow>
          ensureUnpacked (be_unmarshal env) marshal pull now ''/'' state_DefaultPath cfg' fs' = (Inr (st_Runtime st), fs')))"
proof -
  obtain ns calls fs1 ur fs2 where ph: "Configure (be_links env) (be_arrive env) ''/'' fs = ((ns, calls), fs1)"
    "unpack env cfg fs1 = (ur, fs2)" "\<And>e. ur \<noteq> Inl e"
    and fin: "\<And>rt fs3 fs4. ur = Inr rt \<Longrightarrow> fs3 = snd (remove_path fs2 (kcomps config_DefaultPath)) \<Longrightarrow>
       fs4 = snd (WriteResolvConf ''/'' ns fs3) \<Longrightarrow>
       lo_Run (be_host env) (be_listen env) fs4 = (sharing, fs') \<and> Resolve fs4 ''/'' rt = Inr spec \<and> sup_Run (be_exec env) spec = Some s"
    by (rule run_phases [OF assms(2,4)]) fastforce
  obtain rt where rt: "ur = Inr rt" using ph(3) by (cases ur) auto
  note U = boot_unpacked [OF assms(1,3) ph(1,2)]
  define fs3 where "fs3 = snd (remove_path fs2 (kcomps config_DefaultPath))"
  define fs4 where "fs4 = snd (WriteResolvConf ''/'' ns fs3)"
  have safe: "ns = [] \<or> resolv_safe fs3" "\<And>h. be_host env = Some h \<Longrightarrow> proper h \<and> plain fs4 [''peel'', ''lo'', h]"
    and img: "image_safe env cfg fs1"
    using assms(3) ph(1,2) rt by (simp_all add: boot_safe_def Let_def fs3_def fs4_def)
  have fin': "lo_Run (be_host env) (be_listen env) fs4 = (sharing, fs')" "Resolve fs4 ''/'' rt = Inr spec"
    "sup_Run (be_exec env) spec = Some s" using fin [OF rt fs3_def fs4_def] by auto
  have "\<not> is_dir fs2 i" if "entry fs2 d ''config.json'' = Some i" for i
  proof -
    have "''config.json'' \<notin> {state_file, tmp_name state_file}" by (simp add: tmp_name_def)
    note K = U(4) [unfolded others_kept_def, THEN spec, THEN mp, OF this]
    then have "entry fs d ''config.json'' = Some i" using that by metis
    moreover from this K have "is_dir fs2 i = is_dir fs i" by blast
    ultimately show ?thesis using config_no_dir [OF _ _ assms(2)] bootable_peel [OF assms(1)] by simp
  qed
  note E = boot_end [OF U(5,6,3) fs3_def fs4_def safe fin'(1) this]
  have "inv fs1" "saveable fs1 [''peel''] state_file d" using U(1) by (auto simp: bootable_def)
  then obtain st where st: "state_Load (be_unmarshal env) fs2 state_DefaultPath = Inr (Some st)"
      "st_Reference st = c_Image cfg" "st_Runtime st = rt"
    using ensureUnpacked_recorded [of fs1 d "be_pull env" cfg "be_unmarshal env" "be_marshal env" "be_now env" "Inr rt" fs2]
      img ph(2) rt by (auto simp: recorded_def image_safe_def)
  have "sp_Argv spec = rt_Entrypoint rt @ rt_Cmd rt" using fin'(2) by (auto simp: Resolve_def Let_def split: if_splits sum.splits)
  moreover have "start (be_exec env) spec = Some (s_main s) \<and> s = sup_start (s_main s)"
    using fin'(3) by (auto simp: sup_Run_def sup_start_def)
  moreover have "ensureUnpacked (be_unmarshal env) marshal pull now ''/'' state_DefaultPath cfg' fs' = (Inr rt, fs')"
    if "c_Image cfg' = c_Image cfg" for marshal pull now cfg'
    using ensureUnpacked_cached [of "be_unmarshal env" fs' state_DefaultPath st cfg'] E(1) st that by simp
  ultimately show ?thesis using E st by auto
qed

section \<open>A boot of the small root\<close>

text \<open>The small root with a configuration file, and an environment in which everything works.\<close>

definition demo_boot :: fs where
  "demo_boot = upd_inode 7 (set_content [0x7B]) (create_at 3 ''config.json'' (Reg []) 0x180 demo_fs)"

definition demo_wire :: wireConfig where
  "demo_wire =
     \<lparr>wire_image = ''nginx'', wire_platform = [], wire_insecure = [], wire_username = [], wire_password = [], wire_auth = [],
      wire_identity_token = [], wire_registry_token = [], wire_working_dir = [], wire_user = [],
      wire_entrypoint = None, wire_cmd = None, wire_env = None\<rparr>"

definition demo_env :: boot_env where
  "demo_env =
     \<lparr>be_parse = (\<lambda>_. Some demo_wire), be_unmarshal = demo_unmarshal, be_marshal = demo_marshal, be_links = None, be_arrive = id,
      be_pull = (\<lambda>_. Some (demo_image [(Some demo_layer, True)])), be_now = 0, be_host = Some ''a'', be_listen = (\<lambda>_. True),
      be_exec = (\<lambda>_. Some 7)\<rparr>"

lemma demo_bootable: "bootable demo_boot 3"
proof -
  have p: "entry demo_fs root_ino ''peel'' = Some 3" "proper ''config.json''" by (simp_all add: demo_entry proper_def)
  note L = peel_located [OF demo_inv p]
  let ?fs1 = "create_at 3 ''config.json'' (Reg []) 0x180 demo_fs"
  have I1: "intact demo_fs ?fs1" by (rule below_peel_create [OF demo_inv L(2) p(2)]) simp
  have "phys ?fs1 root_ino [''sbin'', ''init''] = Some 2"
    using I1 demo_inv demo_entry by (simp add: intact_def)
  then have "intact ?fs1 demo_boot" unfolding demo_boot_def by (intro other_inode_intact) simp_all
  then have I: "intact demo_fs demo_boot" using I1 intact_trans by blast
  then have inv: "inv demo_boot" and pe: "entry demo_boot root_ino ''peel'' = Some 3"
    and init: "phys demo_boot root_ino [''sbin'', ''init''] = Some 2"
    using demo_inv p(1) by (simp_all add: intact_def demo_entry)
  have e: "entry demo_boot 3 state_file = Some 4" "entry demo_boot 3 (tmp_name state_file) = None"
    "symlink_target demo_boot 4 = None" "\<not> is_dir demo_boot 4"
    by code_simp+
  have "proper state_file" by (simp add: proper_def)
  note S = peel_located(1) [OF inv pe this]
  have "saveable demo_boot [''peel''] state_file 3"
    unfolding saveable_def using inv_wf [OF inv] S e by simp
  then show ?thesis using inv e(2) init by (simp add: bootable_def)
qed

lemma demo_config_Load: "config_Load (be_parse demo_env) demo_boot config_DefaultPath = Inr (demo_config ''nginx'')"
proof -
  have "case read_file demo_boot (kcomps config_DefaultPath) of Inl e \<Rightarrow> False | Inr b \<Rightarrow> True" by code_simp
  then show ?thesis
    by (auto simp: config_Load_def demo_env_def demo_wire_def demo_config_def orNil_def elems_def split: sum.splits) code_simp
qed

lemma demo_boot_safe: "boot_safe demo_env False (demo_config ''nginx'') demo_boot"
proof -
  have "safe_layer demo_layer demo_boot" by (rule safe_nolink_safe) code_simp
  then have "image_safe demo_env (demo_config ''nginx'') demo_boot"
    using demo_json by (auto simp: image_safe_def demo_env_def demo_image_def)
  moreover have "plain (snd (remove_path (snd (unpack demo_env (demo_config ''nginx'') demo_boot)) (kcomps config_DefaultPath)))
      [''peel'', ''lo'', ''a'']" by code_simp
  moreover have "be_host demo_env = Some ''a''" "be_links demo_env = None" by (simp_all add: demo_env_def)
  ultimately show ?thesis
    by (auto simp: boot_safe_def Configure_def WriteResolvConf_def proper_def split: prod.splits sum.splits)
qed

lemma boot_keeps_peel_witness:
  "read_file (snd (run demo_env ''/'' config_DefaultPath state_DefaultPath False demo_boot)) [''sbin'', ''init''] =
   read_file demo_boot [''sbin'', ''init'']"
  using boot_keeps_peel [OF demo_bootable _ surjective_pairing, of demo_env False] demo_config_Load demo_boot_safe by simp

lemma boot_supervises_witness:
  "\<exists>spec sharing s fs'. run demo_env ''/'' config_DefaultPath state_DefaultPath False demo_boot = (Inr (Supervised spec sharing s), fs') \<and>
     sp_Argv spec = [''tool''] \<and> s_main s = 7 \<and> read_file fs' [''peel'', ''config.json''] = Inl ENOENT"
proof -
  let ?r = "run demo_env ''/'' config_DefaultPath state_DefaultPath False demo_boot"
  have "case fst ?r of Inr (Supervised spec sharing s) \<Rightarrow> sp_Argv spec = [''tool''] | _ \<Rightarrow> False" by code_simp
  then obtain spec sharing s where r: "?r = (Inr (Supervised spec sharing s), snd ?r)" "sp_Argv spec = [''tool'']"
    by (cases ?r) (auto split: sum.splits boot_outcome.splits)
  from boot_supervises [OF demo_bootable demo_config_Load demo_boot_safe r(1)] r show ?thesis
    by (auto simp: config_path start_def demo_env_def)
qed

section \<open>Where safety ends\<close>

text \<open>
  The condition on \<open>resolv.conf\<close> matters, and a layer is free to break it. An image may have
  \<open>/etc/resolv.conf\<close> as a symbolic link; a layer with one to \<open>/sbin/init\<close> is applied without touching
  \<open>/sbin/init\<close>, but the next write of \<open>resolv.conf\<close> goes through the link and replaces the contents
  of peel itself.
\<close>

lemma resolv_conf_through_link:
  "let fs = snd (ApplyLayer ''/'' [TarEntry (demo_header ''etc/resolv.conf'' TypeSymlink ''/sbin/init'') [] True] demo_fs)
   in safe_layer [TarEntry (demo_header ''etc/resolv.conf'' TypeSymlink ''/sbin/init'') [] True] demo_fs \<and>
      read_file fs [''sbin'', ''init''] = Inr [0x7F] \<and>
      read_file (snd (WriteResolvConf ''/'' [[8, 8, 8, 8]] fs)) [''sbin'', ''init''] = Inr (bytes_of (resolv_text [[8, 8, 8, 8]]))"
proof -
  have "safe_layer [TarEntry (demo_header ''etc/resolv.conf'' TypeSymlink ''/sbin/init'') [] True] demo_fs"
    by (rule safe_nolink_safe) code_simp
  moreover have "let fs = snd (ApplyLayer ''/'' [TarEntry (demo_header ''etc/resolv.conf'' TypeSymlink ''/sbin/init'') [] True] demo_fs)
   in read_file fs [''sbin'', ''init''] = Inr [0x7F] \<and>
      read_file (snd (WriteResolvConf ''/'' [[8, 8, 8, 8]] fs)) [''sbin'', ''init''] = Inr (bytes_of (resolv_text [[8, 8, 8, 8]]))"
    by code_simp
  ultimately show ?thesis by (simp add: Let_def)
qed

end
