(* ===== verification/Spec2Isabelle.thy ===== *)
theory Spec2Isabelle
  imports LoShare PortsClient PeelMain BootProps
begin

text \<open>
  \<^bold>\<open>peel\<close> is a minimal init for system containers. At boot it reads its configuration, brings the
  network up, pulls an OCI image and unpacks its layers over the running root file system (once
  per image), resolves the image's entrypoint and then supervises the container's process tree
  until it is told to go down. Beside that it shares loopback sockets with other containers over
  Unix sockets in a shared directory; a client library tells programs outside which ports the
  containers have open. This development models these programs, file by file, and proves what
  makes their parts correct.

  \<^bold>\<open>Foundations.\<close>
    \<^item> \<open>Prelude\<close>: types of machine integers, results as sums (\<open>Inl\<close> the error), collections of rules.
    \<^item> \<open>GoStrings\<close>, \<open>GoNetIP\<close>, \<open>GoURL\<close>: the functions of Go's \<open>strings\<close>, \<open>strconv\<close>, \<open>path\<close>, \<open>bufio\<close>, \<open>net\<close> and
      \<open>net/url\<close> the program calls, on byte strings, with their round trips.
    \<^item> \<open>FileSys\<close>: the file system as a table of inodes, path lookup with symbolic links (at most 40, as
      in Linux), system calls and package \<open>os\<close>. \<open>FileTree\<close>: the directory tree behind it.

  \<^bold>\<open>Unpacking\<close> (\<open>internal/rootfs/extract.go\<close>). \<open>Rootfs\<close> has \<open>ApplyLayer\<close>, \<open>extractEntry\<close>, \<open>clearDir\<close> and
  \<open>isProtected\<close>; a layer is the sequence of items the tar reader returns. \<open>RootfsSafety\<close> and
  \<open>RootfsLayer\<close> show that each step of a safe layer is a sequence of changes outside the protected
  part of the tree; \<open>RootfsProps\<close> has the properties: protected files survive every safe layer, a
  regular file is extracted with its contents and attributes, and what the safety conditions
  exclude (opaque whiteouts of the root, whiteouts that name the root, links) does damage.

  \<^bold>\<open>Boot\<close> (\<open>cmd/peel/main.go\<close>). \<open>Config\<close>, \<open>StateFile\<close>, \<open>Entrypoint\<close>, \<open>Network\<close> and \<open>Pull\<close> model
  \<open>internal/config\<close>, \<open>state\<close>, \<open>entrypoint\<close>, \<open>network\<close> and \<open>pull\<close> (with \<open>certs\<close>); \<open>Boot\<close> composes them as
  \<open>run\<close> and \<open>ensureUnpacked\<close> do, with \<open>lo_Run\<close> of \<open>LoDiscovery\<close> and \<open>sup_Run\<close> of \<open>Supervisor\<close> at the end (its
  environment's \<open>be_pull\<close> stands for \<open>Pull.Image\<close> with the registry behind it), and \<open>PeelMain\<close> has \<open>main\<close>
  with the command line. Shown:
  the state file is replaced atomically wherever the process stops, after any system call and any
  number of bytes written (\<open>save_run\<close> has all these file systems); an image is
  unpacked once, and a failure with safe layers leaves the state file as it was; environments merge like maps;
  what resolves can be executed; users are found as listed; each interface gets its leased
  address and one default route, exactly, and what is asked of the kernel and written to \<open>resolv.conf\<close> does
  not depend on timing and reads back; and, in this theory, what a layer ships can be run.
  \<open>BootSafety\<close> and \<open>BootProps\<close> follow peel's own files through a whole boot: however it ends \<open>/sbin/init\<close>
  is unchanged, and one that reaches the supervisor has recorded the image and removed the
  credentials. A lemma shows what an \<open>/etc/resolv.conf\<close> that is a link to \<open>/sbin/init\<close> does instead.

  \<^bold>\<open>Supervision\<close> (\<open>internal/supervisor\<close>). \<open>Supervisor\<close>: a state machine in which the program's steps (a
  signal received, one \<open>wait4\<close>) interleave with exits, forks, signals and the grace timer. Reboot
  is called only on an empty process tree, and always when the tree is empty.

  \<^bold>\<open>Loopback sharing\<close> (\<open>internal/lo\<close>).
    \<^item> \<open>LoTypes\<close>, \<open>LoProc\<close>, \<open>LoAddr\<close>: sockets, the kernel's tables, address rules (\<open>types.go\<close>, \<open>proc.go\<close>,
      \<open>addr.go\<close>).
    \<^item> \<open>LoWatcher\<close>, \<open>LoWatch\<close>: scans, subscribers with channels of 256 events, reference-counted
      exclusions (\<open>watcher.go\<close>), and the \<open>/watch\<close> handler (\<open>server.go\<close>) for any number of requests: in
      every reachable state a stream replays to exactly the sockets known.
    \<^item> \<open>LoConnect\<close>: the \<open>/connect\<close> handler and its caller (\<open>server.go\<close>, \<open>client.go\<close>); both ends agree, and
      what is dialed is the local service the text of the query asks for.
    \<^item> \<open>LoFrame\<close>, \<open>LoPipe\<close>: framing of datagrams, and forwarding of bytes and datagrams by two goroutines
      each (\<open>frame.go\<close>, \<open>pipe.go\<close>); a TCP pipe has the reads and writes that block, the two \<open>Close\<close> calls
      and the \<open>sync.Once\<close> as steps, and is never left half open. \<open>LoShare\<close>: a connection from a process through a proxy, the tunnel and
      the other container's handler to the service.
    \<^item> \<open>LoExact\<close>: streams never repeat an addition or a removal.
    \<^item> \<open>LoProxy\<close>, \<open>LoPeer\<close>, \<open>LoSync\<close>, \<open>LoDiscovery\<close>: proxies with their UDP sessions (\<open>proxy.go\<close>), managers
      that follow a peer's stream (\<open>peer.go\<close>), their convergence to the other container's sockets, and
      discovery of peers and the start of sharing on the file system (\<open>discovery.go\<close>, \<open>run.go\<close>).

  \<^bold>\<open>The client library\<close> (\<open>client\<close>). \<open>PortsWatcher\<close> follows one container's stream over any number of
  connections (\<open>watcher.go\<close>): what its user is told is what it counts, and what it counts are the
  sockets the container's server knows; after a kill batches may be lost. \<open>PortsClient\<close> is the main goroutine (\<open>client.go\<close>): the channel
  has the snapshot and then every batch in order, the watchers are those of the directory, and the
  user's view is that of all containers, unless one answers after the startup deadline.

  \<^bold>\<open>Interfaces\<close> are locales, interpreted on the model: \<open>stream_codec\<close> (framing), \<open>ref_count\<close> (exclusions),
  \<open>set_mirror\<close> (a component that keeps resources in step with announcements: the peer manager,
  discovery and the ports client).

  \<^bold>\<open>Conventions.\<close> A Go map that is ranged over comes with an iteration order as an argument
  (\<open>visits\<close>). Answers of the operating system and of libraries are arguments. Loops over a stream or
  a directory are structural recursions on what is read; loops driven by parsing have termination
  proofs. Fuel occurs nowhere; the bounds 40 (symbolic links), 256 (channel), 64 (signals), 108 (socket path), 65535
  (datagram) and 64 KiB (line) are the program's or the kernel's own.

  \<^bold>\<open>Not modelled\<close>: the JSON library (an argument with the round trip that is needed), \<open>net/http\<close> between
  a request and its handler (but for the two routes), TLS and certificates (\<open>internal/certs\<close> hands an embedded file to
  \<open>crypto/x509\<close>), the registry, DHCP and netlink libraries, log output, and the waits
  between retries. The file system has no mount points, no power failures (the program never calls
  \<open>fsync\<close>) and no refusal by the kernel to change owner, mode or times. Goroutines are steps or rounds of their loops; what one round does
  under a mutex is one step.
\<close>

unbundle bit_operations_syntax

section \<open>From a layer to a command\<close>

text \<open>Joining the root, an absolute directory and a name.\<close>

lemma split_slash [simp]: "split_on CHR ''/'' (CHR ''/'' # s) = [] # split_on CHR ''/'' s"
  by simp

lemma path_join_dir:
  assumes "list_all proper (ds @ [f])" "ds \<noteq> []"
  shows "path_join [''/'', CHR ''/'' # join_with ''/'' ds, f] = CHR ''/'' # join_with ''/'' (ds @ [f])"
proof -
  have "join_with ''/'' [''/'', CHR ''/'' # join_with ''/'' ds, f] =
      CHR ''/'' # CHR ''/'' # CHR ''/'' # join_with ''/'' (ds @ [f])"
    using assms(2) by (simp add: join_snoc)
  then show ?thesis
    using split_join [OF assms(1)] assms(1)
    by (simp add: path_join_def path_clean_def has_prefix_def clean_elems_proper)
qed

lemma exec_bits: "(ucast (m AND 0x1FF) :: uint32) AND 0x49 = 0 \<longleftrightarrow> (m :: 64 word) AND 0x49 = 0"
proof -
  have "(ucast (m AND 0x1FF) :: uint32) AND 0x49 = ucast (m AND 0x49)"
    by (simp add: unsigned_and_eq and.assoc)
  moreover have "unat (m AND 0x49) \<le> 0x49" using word_and_le1 [of m "0x49"] by (simp add: word_le_nat_alt)
  then have "unat (ucast (m AND 0x49) :: uint32) = unat (m AND 0x49)"
    by (simp add: unsigned_ucast_eq unsigned_take_bit_eq take_bit_nat_eq_self)
  ultimately show ?thesis by (metis unat_eq_zero)
qed

text \<open>
  C21. What an image ships can be run. When a layer extracts a regular file with an execute bit, at an
  allowed path below a directory that is reached without symbolic links, a command of that name
  resolves to that file whenever the directory is the search path.
\<close>

theorem unpacked_command_found:
  assumes "inv fs" "root_elems (h_name hdr) = ds @ [f]" "located fs (ds @ [f]) d" "allowed (ds @ [f])"
    and "\<not> has_prefix f whiteoutPrefix" "h_type hdr \<in> {TypeReg, TypeRegA}"
    and "h_mode hdr AND 0x49 \<noteq> 0" "ds \<noteq> []" "CHR '':'' \<notin> set (join_with ''/'' ds)"
    and "apply_entry ''/'' hdr body True fs = (r, fs')"
  shows "r = None \<and> lookPath fs' ''/'' f (CHR ''/'' # join_with ''/'' ds) = Inr (CHR ''/'' # join_with ''/'' (ds @ [f]))"
proof -
  let ?p = "CHR ''/'' # join_with ''/'' (ds @ [f])"
  obtain i n where r: "r = None" and st: "stat fs' (ds @ [f]) = Inr i" "f_inodes fs' i = Some n" "regular_inode hdr body n"
    using apply_regular [OF assms(1) assms(2) [symmetric] assms(3,4) _ assms(6), of body] assms(5,10) by auto
  have pr: "list_all proper (ds @ [f])" using assms(3) by (simp add: located_def)
  then have k: "kcomps ?p = ds @ [f]" using kcomps_join by simp
  have "\<not> is_dir fs' i" using st(2,3) by (auto simp: is_dir_def dir_entries_def regular_inode_def)
  moreover have "i_mode n AND 0x49 \<noteq> 0"
    using st(3) assms(7) exec_bits [of "h_mode hdr"] by (simp add: regular_inode_def)
  ultimately have "checkExecutable fs' ?p = None" using st k by (simp add: checkExecutable_def)
  moreover have "\<not> contains_char f CHR ''/''" using pr by (simp add: contains_char_def proper_def)
  ultimately show ?thesis
    using r path_join_dir [OF pr assms(8)] assms(9) by (simp add: lookPath_def Let_def)
qed


lemma unpacked_command_found_witness:
  "lookPath (snd (apply_entry ''/'' (demo_header ''etc/hosts'' TypeReg []) [65] True demo_fs)) ''/'' ''hosts'' ''/etc'' =
     Inr ''/etc/hosts''"
proof -
  let ?h = "demo_header ''etc/hosts'' TypeReg []"
  have "located demo_fs [''etc'', ''hosts''] 5"
    by (simp add: located_def proper_def demo_entry demo_is_dir, code_simp)
  moreover have "root_elems (h_name ?h) = [''etc''] @ [''hosts'']" "allowed ([''etc''] @ [''hosts''])"
    "\<not> has_prefix ''hosts'' whiteoutPrefix" "h_type ?h \<in> {TypeReg, TypeRegA}" "h_mode ?h AND 0x49 \<noteq> 0"
    by code_simp+
  ultimately show ?thesis
    using unpacked_command_found [OF demo_inv, of ?h "[''etc'']" "''hosts''" 5 "[65]",
        OF _ _ _ _ _ _ _ _ surjective_pairing] by simp
qed

end
